(* ===== verification/Prelude.thy ===== *)
theory Prelude
imports Main "HOL-Library.Word" "HOL-Library.Multiset"
begin

text \<open>
  Shared vocabulary of the development: the enumerations of \<open>system/global.h\<close>, the result type
  of code that can hit an \<open>assert\<close>, the list functions that the intrusive linked lists of
  \<open>system/helper.h\<close> amount to, and word arithmetic, with the lemmas the components use.
\<close>

section \<open>Types of global.h\<close>

datatype RC = RCOK | Commit | Abort | WAIT | WAIT_REM | ERROR | FINISH | NONE

datatype access_t = RD | WR | XP | SCAN

datatype lock_t = LOCK_EX | LOCK_SH | LOCK_NONE

datatype TsType = R_REQ | W_REQ | P_REQ | XP_REQ

type_synonym ts_t = "64 word"
type_synonym txnid_t = "64 word"

text \<open>Rows are named by numbers where the code compares \<open>row_t\<close> pointers.\<close>

type_synonym row_ref = nat

abbreviation UINT64_MAX :: "64 word" where
  "UINT64_MAX \<equiv> - 1"

text \<open>
  A call either returns or stops the process: a failed \<open>assert\<close>, a dereference of a null
  pointer, an access outside an array. The model keeps these apart as values.
\<close>

datatype fault = Assert_failed | Null_deref | Out_of_bounds

type_synonym 'a result = "fault + 'a"

definition bind_result :: "'a result \<Rightarrow> ('a \<Rightarrow> 'b result) \<Rightarrow> 'b result" where
  "bind_result r f = (case r of Inl e \<Rightarrow> Inl e | Inr x \<Rightarrow> f x)"

definition assert_that :: "bool \<Rightarrow> unit result" where
  "assert_that b = (if b then Inr () else Inl Assert_failed)"

lemma bind_result_simps [simp]:
  "bind_result (Inl e) f = Inl e"
  "bind_result (Inr x) f = f x"
  by (simp_all add: bind_result_def)

lemma bind_result_Inr_iff: "bind_result r f = Inr y \<longleftrightarrow> (\<exists>x. r = Inr x \<and> f x = Inr y)"
  by (cases r) simp_all

lemma assert_that_Inr_iff [simp]: "assert_that b = Inr u \<longleftrightarrow> b"
  by (simp add: assert_that_def)

section \<open>Insertion into and removal from a linked list\<close>

text \<open>
  \<open>insert_before skip x xs\<close> walks past the prefix of entries that satisfy \<open>skip\<close> and puts \<open>x\<close>
  in front of the first entry that does not, or at the end: the loop
  \<open>while (en && skip(en)) en = en->next; if (en) LIST_INSERT_BEFORE(..) else LIST_PUT_TAIL(..)\<close>.
\<close>

fun insert_before :: "('a \<Rightarrow> bool) \<Rightarrow> 'a \<Rightarrow> 'a list \<Rightarrow> 'a list" where
  "insert_before skip x [] = [x]"
| "insert_before skip x (y # ys) = (if skip y then y # insert_before skip x ys else x # y # ys)"

text \<open>\<open>extract_first P xs\<close> unlinks the first entry that satisfies \<open>P\<close>.\<close>

fun extract_first :: "('a \<Rightarrow> bool) \<Rightarrow> 'a list \<Rightarrow> ('a \<times> 'a list) option" where
  "extract_first P [] = None"
| "extract_first P (x # xs) =
    (if P x then Some (x, xs)
     else (case extract_first P xs of None \<Rightarrow> None | Some (y, ys) \<Rightarrow> Some (y, x # ys)))"

definition remove_first :: "('a \<Rightarrow> bool) \<Rightarrow> 'a list \<Rightarrow> 'a list" where
  "remove_first P xs = (case extract_first P xs of None \<Rightarrow> xs | Some (_, ys) \<Rightarrow> ys)"

lemma insert_before_conv:
  "insert_before skip x xs = takeWhile skip xs @ x # dropWhile skip xs"
  by (induction xs) simp_all

lemma length_insert_before [simp]: "length (insert_before skip x xs) = Suc (length xs)"
  by (induction xs) simp_all

lemma set_insert_before [simp]: "set (insert_before skip x xs) = insert x (set xs)"
  by (induction xs) auto

lemma mset_insert_before [simp]: "mset (insert_before skip x xs) = add_mset x (mset xs)"
  by (induction xs) simp_all

lemma insert_before_not_Nil [simp]: "insert_before skip x xs \<noteq> []"
  by (cases xs) simp_all

lemma sorted_wrt_insert_before:
  assumes "sorted_wrt R xs" and "transp R"
    and "\<And>y. y \<in> set xs \<Longrightarrow> skip y \<Longrightarrow> R y x"
    and "\<And>y. y \<in> set xs \<Longrightarrow> \<not> skip y \<Longrightarrow> R x y"
  shows "sorted_wrt R (insert_before skip x xs)"
  using assms
proof (induction xs)
  case (Cons y ys)
  then show ?case by (auto dest: transpD)
qed simp

lemma extract_first_None_iff: "extract_first P xs = None \<longleftrightarrow> (\<forall>x\<in>set xs. \<not> P x)"
  by (induction xs) (auto split: option.splits)

lemma extract_first_SomeE:
  assumes "extract_first P xs = Some (y, ys)"
  obtains us vs where "xs = us @ y # vs" "ys = us @ vs" "P y" "\<forall>u\<in>set us. \<not> P u"
proof -
  have "\<exists>us vs. xs = us @ y # vs \<and> ys = us @ vs \<and> P y \<and> (\<forall>u\<in>set us. \<not> P u)"
    using assms
  proof (induction xs arbitrary: ys)
    case (Cons x xs)
    show ?case
    proof (cases "P x")
      case True
      with Cons.prems have "x # xs = [] @ y # xs \<and> ys = [] @ xs \<and> P y" by simp
      then show ?thesis by (metis empty_iff list.set(1))
    next
      case False
      with Cons.prems obtain zs where "extract_first P xs = Some (y, zs)" "ys = x # zs"
        by (auto split: option.splits)
      with Cons.IH obtain us vs where "xs = us @ y # vs" "zs = us @ vs" "P y" "\<forall>u\<in>set us. \<not> P u"
        by blast
      with False \<open>ys = x # zs\<close> have "x # xs = (x # us) @ y # vs \<and> ys = (x # us) @ vs \<and> P y
          \<and> (\<forall>u\<in>set (x # us). \<not> P u)" by simp
      then show ?thesis by blast
    qed
  qed simp
  with that show thesis by blast
qed

lemma extract_first_mset:
  "extract_first P xs = Some (y, ys) \<Longrightarrow> mset xs = add_mset y (mset ys)"
  by (erule extract_first_SomeE) simp

lemma extract_first_length:
  "extract_first P xs = Some (y, ys) \<Longrightarrow> length xs = Suc (length ys)"
  by (erule extract_first_SomeE) simp

lemma extract_first_set:
  "extract_first P xs = Some (y, ys) \<Longrightarrow> set xs = insert y (set ys)"
  by (erule extract_first_SomeE) auto

lemma extract_first_sat: "extract_first P xs = Some (y, ys) \<Longrightarrow> P y"
  by (erule extract_first_SomeE) simp

lemma sorted_wrt_extract_first:
  "extract_first P xs = Some (y, ys) \<Longrightarrow> sorted_wrt R xs \<Longrightarrow> sorted_wrt R ys"
  by (erule extract_first_SomeE) (auto simp: sorted_wrt_append)

lemma set_remove_first_subset: "set (remove_first P xs) \<subseteq> set xs"
  unfolding remove_first_def
  by (auto split: option.splits dest: extract_first_set)

lemma sorted_wrt_remove_first: "sorted_wrt R xs \<Longrightarrow> sorted_wrt R (remove_first P xs)"
  unfolding remove_first_def
  by (auto split: option.splits dest: sorted_wrt_extract_first)

section \<open>Counters\<close>

lemma of_nat_word_eq_0_iff:
  "n < 2 ^ LENGTH('a) \<Longrightarrow> (of_nat n :: 'a::len word) = 0 \<longleftrightarrow> n = 0"
  by (auto simp: word_of_nat_eq_0_iff dest: dvd_imp_le)


lemma unat_of_nat_64: "n < 2 ^ 64 \<Longrightarrow> unat (of_nat n :: 64 word) = n"
  by (simp add: unat_of_nat)

section \<open>Arithmetic at the width of the code\<close>

text \<open>Increments and decrements of \<open>uint64_t\<close> values where a comparison excludes the wrap-around.\<close>

lemma unat_plus_64: "unat (x :: 64 word) + unat y < 2 ^ 64 \<Longrightarrow> unat (x + y) = unat x + unat y"
  using unat_add_lem [of x y] by simp

lemma unat_minus_64: "(y :: 64 word) \<le> x \<Longrightarrow> unat (x - y) = unat x - unat y"
  using unat_sub_if' [of x y] by (simp add: word_le_nat_alt)

lemma unat_less_64: "unat (x :: 64 word) < 2 ^ 64"
  using unsigned_less [of x] by simp

lemmas word_nat = word_less_nat_alt word_le_nat_alt

lemma word_inc:
  assumes "(x :: 64 word) < y"
  shows "x < x + 1" "x + 1 \<le> y" "unat (x + 1) = unat x + 1"
proof -
  show "unat (x + 1) = unat x + 1"
    using assms unat_less_64 [of y] by (subst unat_plus_64) (simp_all add: word_nat)
  then show "x < x + 1" "x + 1 \<le> y" using assms by (simp_all add: word_nat)
qed

lemma word_dec:
  assumes "(x :: 64 word) < y"
  shows "y - 1 < y" "x \<le> y - 1" "unat (y - 1) = unat y - 1"
proof -
  have "1 \<le> y" using assms by (simp add: word_nat)
  then show "unat (y - 1) = unat y - 1" using unat_minus_64 [of 1 y] by simp
  then show "y - 1 < y" "x \<le> y - 1" using assms by (simp_all add: word_nat)
qed

lemma word_inc_below: "(x :: 64 word) < y - 1 \<Longrightarrow> z < y \<Longrightarrow> x + 1 < y"
  using word_inc [of x "y - 1"] word_dec [of z y] by simp

lemma word_dec_above:
  assumes "(l :: 64 word) < u" "l + 1 < i"
  shows "l < i - 1" "i - 1 < i"
  using word_inc [OF assms(1)] word_dec [OF assms(2)] by simp_all

lemma word_dec2_above:
  assumes "(l :: 64 word) \<le> - 3" "l + 2 < i"
  shows "l < i - 2" "i - 2 < i"
proof -
  have "unat (l + 2) = unat l + 2" using assms(1) by (subst unat_plus_64) (simp_all add: word_le_nat_alt)
  moreover from this assms(2) have "2 \<le> i" by (simp add: word_nat)
  then have "unat (i - 2) = unat i - 2" using unat_minus_64 [of 2 i] by simp
  ultimately show "l < i - 2" "i - 2 < i" using assms(2) by (simp_all add: word_nat)
qed

lemma word_less_max_iff: "(x :: 64 word) < UINT64_MAX \<longleftrightarrow> x \<noteq> UINT64_MAX"
  by (simp add: word_order.not_eq_extremum)

end
