(* ===== verification/Interfaces.thy ===== *)
theory Interfaces
imports Prelude
begin

text \<open>
  The interfaces between components, as locales. Each is interpreted on the definitions of the
  components that provide it.
\<close>

section \<open>Waiting in rank order\<close>

text \<open>
  A blocking protocol in which a transaction waits only for transactions of a higher rank.
  Provided by the wait-die row lock (rank: timestamp).
\<close>

locale ranked_waits =
  fixes ok :: "'s \<Rightarrow> bool"
    and rank :: "'s \<Rightarrow> 't \<Rightarrow> 'r::linorder"
    and waits :: "'s \<Rightarrow> 't \<Rightarrow> 't \<Rightarrow> bool"
  assumes waits_rank: "ok s \<Longrightarrow> waits s a b \<Longrightarrow> rank s a < rank s b"
begin

lemma waits_trancl_rank:
  assumes "ok s" "(a, b) \<in> {(x, y). waits s x y}\<^sup>+"
  shows "rank s a < rank s b"
  using assms(2)
proof (induction rule: trancl_induct)
  case (base y)
  with assms(1) show ?case by (simp add: waits_rank)
next
  case (step y z)
  then have "rank s y < rank s z" using assms(1) by (simp add: waits_rank)
  with step.IH show ?case by simp
qed

lemma waits_acyclic:
  assumes "ok s"
  shows "acyclic {(x, y). waits s x y}"
  using waits_trancl_rank [OF assms] by (force simp: acyclic_def)

text \<open>Among finitely many blocked transactions one waits for none of the others.\<close>

lemma some_unblocked:
  assumes "ok s" "finite B" "B \<noteq> {}"
  shows "\<exists>a\<in>B. \<forall>b\<in>B. \<not> waits s a b"
proof -
  have "Max (rank s ` B) \<in> rank s ` B" using assms(2,3) by simp
  then obtain a where a: "a \<in> B" "rank s a = Max (rank s ` B)" by force
  have "\<not> waits s a b" if "b \<in> B" for b
  proof
    assume "waits s a b"
    then have "rank s a < rank s b" by (rule waits_rank [OF assms(1)])
    moreover have "rank s b \<le> rank s a" using a(2) assms(2) that by simp
    ultimately show False by simp
  qed
  with a(1) show ?thesis by blast
qed

end


section \<open>Lock accounting\<close>

text \<open>
  A family of latches and, for every transaction, the list of the keys it holds: a latch is
  taken exactly when one transaction holds it, once.
\<close>

definition locks_ok :: "('k \<Rightarrow> bool) \<Rightarrow> ('t \<Rightarrow> 'k list) \<Rightarrow> bool" where
  "locks_ok latch H \<longleftrightarrow> (\<forall>t. distinct (H t)) \<and> (\<forall>t u. t \<noteq> u \<longrightarrow> set (H t) \<inter> set (H u) = {}) \<and>
     (\<forall>r. latch r \<longleftrightarrow> (\<exists>t. r \<in> set (H t)))"

lemma locks_okI:
  assumes "\<And>t. distinct (H t)" "\<And>t u r. r \<in> set (H t) \<Longrightarrow> r \<in> set (H u) \<Longrightarrow> t = u"
    "\<And>r. latch r \<longleftrightarrow> (\<exists>t. r \<in> set (H t))"
  shows "locks_ok latch H"
  using assms unfolding locks_ok_def by blast

lemma locks_ok_distinct: "locks_ok latch H \<Longrightarrow> distinct (H t)"
  by (simp add: locks_ok_def)

lemma locks_ok_unique: "locks_ok latch H \<Longrightarrow> r \<in> set (H t) \<Longrightarrow> r \<in> set (H u) \<Longrightarrow> t = u"
  by (auto simp: locks_ok_def)

lemma locks_ok_latch: "locks_ok latch H \<Longrightarrow> latch r \<longleftrightarrow> (\<exists>t. r \<in> set (H t))"
  by (simp add: locks_ok_def)

lemma locks_ok_same:
  assumes "locks_ok latch H" "mset xs = mset (H t)"
  shows "locks_ok latch (H(t := xs))"
proof -
  have "set xs = set (H t)" "distinct xs"
    using assms mset_eq_imp_distinct_iff [OF assms(2)] mset_eq_setD [OF assms(2)] by (auto simp: locks_ok_def)
  moreover from this have "latch q \<longleftrightarrow> (\<exists>u. q \<in> set ((H(t := xs)) u))" for q
    using assms(1) unfolding locks_ok_def by (metis fun_upd_apply)
  ultimately show ?thesis using assms(1) by (auto simp: locks_ok_def)
qed

lemma locks_ok_acquire:
  assumes "locks_ok latch H" "\<not> latch r" "mset xs = mset (r # H t)"
  shows "locks_ok (latch(r := True)) (H(t := xs))"
proof -
  have free: "r \<notin> set (H u)" for u using assms(1,2) by (auto simp: locks_ok_def)
  have "set xs = insert r (set (H t))" "distinct xs"
    using assms(1) free mset_eq_imp_distinct_iff [OF assms(3)] mset_eq_setD [OF assms(3)] by (auto simp: locks_ok_def)
  moreover have "(latch(r := True)) q \<longleftrightarrow> (\<exists>u. q \<in> set ((H(t := xs)) u))" for q
    using assms(1) calculation(1) unfolding locks_ok_def by (metis fun_upd_apply insert_iff)
  ultimately show ?thesis using assms(1) free by (auto simp: locks_ok_def)
qed

lemma locks_ok_release:
  assumes "locks_ok latch H" "mset (H t) = mset (r # xs)"
  shows "locks_ok (latch(r := False)) (H(t := xs))"
proof -
  have H: "set (H t) = insert r (set xs)" "distinct (r # xs)"
    using assms(1) mset_eq_imp_distinct_iff [OF assms(2)] mset_eq_setD [OF assms(2)] by (auto simp: locks_ok_def)
  with assms(1) have "r \<notin> set (H u)" if "u \<noteq> t" for u
    using that locks_ok_unique [OF assms(1), of r t u] by auto
  moreover from this have "(latch(r := False)) q \<longleftrightarrow> (\<exists>u. q \<in> set ((H(t := xs)) u))" for q
    using assms(1) H unfolding locks_ok_def by (metis distinct.simps(2) fun_upd_apply insert_iff)
  moreover have "distinct ((H(t := xs)) u)" for u using H(2) locks_ok_distinct [OF assms(1)] by simp
  moreover have "u = v" if "q \<in> set ((H(t := xs)) u)" "q \<in> set ((H(t := xs)) v)" for u v q
    using that H(1) locks_ok_unique [OF assms(1)] by (metis fun_upd_apply insertCI)
  ultimately show ?thesis by (intro locks_okI)
qed

text \<open>One step of a transaction: nothing changes, one latch is taken, or one is given back.\<close>

definition lock_change :: "('k \<Rightarrow> bool) \<Rightarrow> 'k list \<Rightarrow> ('k \<Rightarrow> bool) \<Rightarrow> 'k list \<Rightarrow> bool" where
  "lock_change latch hs latch' hs' \<longleftrightarrow> latch' = latch \<and> mset hs' = mset hs \<or>
     (\<exists>r. \<not> latch r \<and> latch' = latch(r := True) \<and> mset hs' = mset (r # hs)) \<or>
     (\<exists>r. latch' = latch(r := False) \<and> mset hs = mset (r # hs'))"

lemma locks_ok_change:
  "locks_ok latch H \<Longrightarrow> lock_change latch (H t) latch' hs' \<Longrightarrow> locks_ok latch' (H(t := hs'))"
  unfolding lock_change_def by (auto intro: locks_ok_same locks_ok_acquire locks_ok_release)

lemma lock_change_same: "latch' = latch \<Longrightarrow> mset hs' = mset hs \<Longrightarrow> lock_change latch hs latch' hs'"
  by (simp add: lock_change_def)

lemma lock_change_take: "\<not> latch r \<Longrightarrow> mset hs' = mset (r # hs) \<Longrightarrow> latch' = latch(r := True) \<Longrightarrow> lock_change latch hs latch' hs'"
  unfolding lock_change_def by blast

lemma lock_change_give: "mset hs = mset (r # hs') \<Longrightarrow> latch' = latch(r := False) \<Longrightarrow> lock_change latch hs latch' hs'"
  unfolding lock_change_def by blast

section \<open>Tables keyed by a transaction number\<close>

text \<open>
  The contract of the chained hash tables that several components keep (\<open>TimeTable\<close>,
  \<open>InOutTable\<close>): what \<open>find\<close> returns after each operation.
\<close>

locale keyed_table =
  fixes ok :: "'t \<Rightarrow> bool"
    and find :: "'t \<Rightarrow> 'k \<Rightarrow> 'e option"
    and ins :: "'e \<Rightarrow> 'k \<Rightarrow> 't \<Rightarrow> 't"
    and del :: "'k \<Rightarrow> 't \<Rightarrow> 't"
    and upd :: "('e \<Rightarrow> 'e) \<Rightarrow> 'k \<Rightarrow> 't \<Rightarrow> 't"
  assumes ok_ins: "ok t \<Longrightarrow> ok (ins e k t)"
    and ok_del: "ok t \<Longrightarrow> ok (del k t)"
    and ok_upd: "ok t \<Longrightarrow> ok (upd f k t)"
    and find_ins: "ok t \<Longrightarrow> find (ins e k t) j = (if j = k \<and> find t k = None then Some e else find t j)"
    and find_del: "ok t \<Longrightarrow> find (del k t) j = (if j = k then None else find t j)"
    and find_upd: "ok t \<Longrightarrow> find (upd f k t) j = (if j = k then map_option f (find t k) else find t j)"
begin

lemma find_ins_as_map:
  "ok t \<Longrightarrow> find t k = None \<Longrightarrow> find (ins e k t) = (find t)(k \<mapsto> e)"
  by (auto simp: find_ins)

lemma find_del_as_map: "ok t \<Longrightarrow> find (del k t) = (find t)(k := None)"
  by (auto simp: find_del)

lemma find_upd_as_map: "ok t \<Longrightarrow> find (upd f k t) = (find t)(k := map_option f (find t k))"
  by (auto simp: find_upd)

lemma ok_fold_upd: "ok t \<Longrightarrow> ok (fold (upd f) ks t)"
  by (induction ks arbitrary: t) (simp_all add: ok_upd)

text \<open>A sweep of an idempotent update over a list of keys.\<close>

lemma find_fold_upd:
  assumes "ok t" "\<And>e. f (f e) = f e"
  shows "find (fold (upd f) ks t) j = (if j \<in> set ks then map_option f (find t j) else find t j)"
  using assms(1)
proof (induction ks arbitrary: t)
  case (Cons k ks)
  have "find (fold (upd f) ks (upd f k t)) j =
      (if j \<in> set ks then map_option f (find (upd f k t) j) else find (upd f k t) j)"
    using Cons by (simp add: ok_upd)
  then show ?case
    using Cons.prems assms(2) by (simp add: find_upd option.map_comp o_def)
qed simp

end


section \<open>Multi-version rows\<close>

text \<open>
  The contract of a version chain: a version installed with a later stamp, and recycling below
  a threshold, are invisible to a snapshot. Provided by the histories of \<open>Row_mvcc\<close>,
  \<open>Row_ssi\<close> and \<open>Row_wsi\<close>.
\<close>

datatype ('e, 't) version_op = Install 'e | Recycle 't

fun version_run ::
  "('e \<Rightarrow> 's \<Rightarrow> 's) \<Rightarrow> ('t \<Rightarrow> 's \<Rightarrow> 's \<Rightarrow> bool) \<Rightarrow> ('e, 't) version_op list \<Rightarrow> 's \<Rightarrow> 's \<Rightarrow> bool" where
  "version_run install recyc [] s s' \<longleftrightarrow> s' = s"
| "version_run install recyc (Install e # ops) s s' \<longleftrightarrow> version_run install recyc ops (install e s) s'"
| "version_run install recyc (Recycle t # ops) s s' \<longleftrightarrow>
    (\<exists>s1. recyc t s s1 \<and> version_run install recyc ops s1 s')"

lemma version_run_append:
  "version_run install recyc (xs @ ys) s s' \<longleftrightarrow>
     (\<exists>m. version_run install recyc xs s m \<and> version_run install recyc ys m s')"
proof (induction xs arbitrary: s)
  case (Cons x xs)
  then show ?case by (cases x) auto
qed simp

locale version_store =
  fixes ok :: "'s \<Rightarrow> bool"
    and good :: "'e \<Rightarrow> bool"
    and stamp :: "'e \<Rightarrow> 't::linorder"
    and val :: "'e \<Rightarrow> 'v"
    and read :: "'s \<Rightarrow> 't \<Rightarrow> 'v"
    and install :: "'e \<Rightarrow> 's \<Rightarrow> 's"
    and recyc :: "'t \<Rightarrow> 's \<Rightarrow> 's \<Rightarrow> bool"
  assumes ok_install: "ok s \<Longrightarrow> good e \<Longrightarrow> ok (install e s)"
    and read_install_later: "ok s \<Longrightarrow> t < stamp e \<Longrightarrow> read (install e s) t = read s t"
    and read_install_own: "ok s \<Longrightarrow> read (install e s) (stamp e) = val e"
    and ok_recyc: "ok s \<Longrightarrow> recyc t s s' \<Longrightarrow> ok s'"
    and read_recyc: "ok s \<Longrightarrow> recyc t s s' \<Longrightarrow> t \<le> u \<Longrightarrow> read s' u = read s u"
begin

lemma run_ok:
  assumes "version_run install recyc ops s s'" "ok s" "\<And>e. Install e \<in> set ops \<Longrightarrow> good e"
  shows "ok s'"
  using assms
proof (induction ops arbitrary: s)
  case (Cons a ops)
  then show ?case by (cases a) (auto intro: ok_install ok_recyc)
qed simp

lemma snapshot_stable:
  assumes "version_run install recyc ops s s'" "ok s"
    and "\<And>e. Install e \<in> set ops \<Longrightarrow> good e \<and> t < stamp e"
    and "\<And>th. Recycle th \<in> set ops \<Longrightarrow> th \<le> t"
  shows "ok s' \<and> read s' t = read s t"
  using assms
proof (induction ops arbitrary: s)
  case (Cons a ops)
  show ?case
  proof (cases a)
    case (Install e)
    with Cons.prems have e: "good e" "t < stamp e" by auto
    have "ok s' \<and> read s' t = read (install e s) t"
      using Cons.prems Install e by (intro Cons.IH) (auto intro: ok_install)
    with e Cons.prems(2) show ?thesis by (simp add: read_install_later)
  next
    case (Recycle th)
    then obtain s1 where r: "recyc th s s1" "version_run install recyc ops s1 s'"
      using Cons.prems(1) by auto
    have "ok s' \<and> read s' t = read s1 t"
      using Cons.prems r by (intro Cons.IH) (auto intro: ok_recyc)
    moreover have "read s1 t = read s t"
      using Cons.prems(2,4) r(1) Recycle by (auto intro: read_recyc)
    ultimately show ?thesis by simp
  qed
qed simp

end


section \<open>Validation against sets of rows\<close>

text \<open>
  The test that the optimistic schemes apply to two row sets. Provided by \<open>test_valid\<close> of
  \<open>OptCC\<close> and \<open>Bocc\<close>. The history is searched from its newest entry: entries above the finish
  number are skipped, entries above the start number are tested.
\<close>

fun history_check ::
  "('x list \<Rightarrow> 'x list \<Rightarrow> bool) \<Rightarrow> ('h \<Rightarrow> 'n::linorder) \<Rightarrow> ('h \<Rightarrow> 'x list) \<Rightarrow> 'n \<Rightarrow> 'h list \<Rightarrow> 'x list list \<Rightarrow> bool" where
  "history_check test tn rows start [] sets = True"
| "history_check test tn rows start (h # hs) sets =
    (if tn h > start then
       (if (\<forall>s\<in>set sets. test (rows h) s) then history_check test tn rows start hs sets else False)
     else True)"

locale row_set_test =
  fixes test :: "'x list \<Rightarrow> 'x list \<Rightarrow> bool"
  assumes test_iff: "test xs ys \<longleftrightarrow> set xs \<inter> set ys = {}"
begin

lemma history_check_iff:
  assumes "sorted_wrt (\<lambda>a b. tn b \<le> tn a) hs"
  shows "history_check test tn rows start hs sets \<longleftrightarrow>
    (\<forall>h\<in>set hs. start < tn h \<longrightarrow> (\<forall>s\<in>set sets. set (rows h) \<inter> set s = {}))"
  using assms
proof (induction hs)
  case (Cons h hs)
  show ?case
  proof (cases "tn h > start")
    case True
    with Cons show ?thesis by (auto simp: test_iff)
  next
    case False
    then have "\<not> start < tn g" if "g \<in> set (h # hs)" for g
      using that Cons.prems by (auto dest: order_trans)
    with False show ?thesis by auto
  qed
qed simp

lemma history_check_window:
  assumes "sorted_wrt (\<lambda>a b. tn b \<le> tn a) hs"
  shows "history_check test tn rows start (dropWhile (\<lambda>h. tn h > finish) hs) sets \<longleftrightarrow>
    (\<forall>h\<in>set hs. start < tn h \<and> tn h \<le> finish \<longrightarrow> (\<forall>s\<in>set sets. set (rows h) \<inter> set s = {}))"
proof -
  have drop: "set (dropWhile (\<lambda>h. tn h > finish) hs) = {h \<in> set hs. tn h \<le> finish}"
    using assms
  proof (induction hs)
    case (Cons h hs)
    show ?case
    proof (cases "tn h > finish")
      case True
      with Cons show ?thesis by (auto simp: not_less)
    next
      case False
      then have "tn g \<le> finish" if "g \<in> set (h # hs)" for g
        using that Cons.prems by (auto simp: not_less intro: order_trans)
      with False show ?thesis by auto
    qed
  qed simp
  have "sorted_wrt (\<lambda>a b. tn b \<le> tn a) (dropWhile (\<lambda>h. tn h > finish) hs)"
    using assms by (induction hs) auto
  from history_check_iff [OF this, of rows start sets] show ?thesis unfolding drop by blast
qed

end

end
