(* ===== verification/RowLock.thy ===== *)
theory RowLock
imports Interfaces
begin

text \<open>
  The per-row lock manager \<open>Row_lock\<close> of \<open>concurrency_control/row_lock.{h,cpp}\<close> for its three
  algorithms, the wait-die invariant, mutual exclusion, wake-up of waiters and the absence of
  deadlock. Every method runs under the row latch, so a call is one atomic step. A
  \<open>TxnManager*\<close> is an address into a store of the fields the lock manager touches; the
  hash table of owners has one bucket (\<open>owners_size = 1\<close>), so it is one stack. Statistics and
  clock readings are left out.
\<close>

section \<open>Data\<close>

datatype lock_alg = NO_WAIT | WAIT_DIE | CALVIN

type_synonym txn_ref = "64 word"

record LockEntry =
  le_type :: lock_t
  le_txn :: txn_ref

record lock_txn =
  lt_txn_id :: txnid_t
  lt_timestamp :: ts_t
  lt_recon :: bool
  lt_lock_ready :: bool
  lt_lock_ready_cnt :: "32 word"

type_synonym lock_txns = "txn_ref \<Rightarrow> lock_txn"

record Row_lock =
  lock_type :: lock_t
  owner_cnt :: "32 word"
  waiter_cnt :: "32 word"
  owners :: "LockEntry list"
  waiters :: "LockEntry list"
  max_owner_ts :: ts_t

section \<open>Operations\<close>

definition row_lock_init :: Row_lock where
  "row_lock_init = \<lparr>lock_type = LOCK_NONE, owner_cnt = 0, waiter_cnt = 0, owners = [],
     waiters = [], max_owner_ts = 0\<rparr>"

fun conflict_lock :: "lock_t \<Rightarrow> lock_t \<Rightarrow> bool" where
  "conflict_lock l1 l2 =
    (if l1 = LOCK_NONE \<or> l2 = LOCK_NONE then False
     else if l1 = LOCK_EX \<or> l2 = LOCK_EX then True
     else False)"

definition get_entry :: "lock_t \<Rightarrow> txn_ref \<Rightarrow> LockEntry" where
  "get_entry ty t = \<lparr>le_type = ty, le_txn = t\<rparr>"

definition incr_lr :: "lock_txn \<Rightarrow> lock_txn" where
  "incr_lr T = T\<lparr>lt_lock_ready_cnt := lt_lock_ready_cnt T + 1\<rparr>"

definition decr_lr :: "lock_txn \<Rightarrow> lock_txn" where
  "decr_lr T = T\<lparr>lt_lock_ready_cnt := lt_lock_ready_cnt T - 1\<rparr>"

text \<open>The scan of the owners under WAIT_DIE: the two asserts, then the age test, per entry.\<close>

fun canwait :: "lock_txns \<Rightarrow> txn_ref \<Rightarrow> LockEntry list \<Rightarrow> bool result" where
  "canwait H t [] = Inr True"
| "canwait H t (en # es) =
    (if lt_txn_id (H t) = lt_txn_id (H (le_txn en)) then Inl Assert_failed
     else if lt_timestamp (H t) = lt_timestamp (H (le_txn en)) then Inl Assert_failed
     else if lt_timestamp (H t) > lt_timestamp (H (le_txn en)) then Inr False
     else canwait H t es)"

text \<open>The bookkeeping a transaction gets when it joins the waiters.\<close>

definition start_wait :: "lock_txns \<Rightarrow> txn_ref \<Rightarrow> lock_txns" where
  "start_wait H t = H(t := incr_lr ((H t)\<lparr>lt_lock_ready := False\<rparr>))"

definition lock_get_conflict :: "lock_alg \<Rightarrow> lock_t \<Rightarrow> txn_ref \<Rightarrow> Row_lock \<Rightarrow> lock_txns \<Rightarrow> bool" where
  "lock_get_conflict alg ty t rl H =
    (let conflict = conflict_lock (lock_type rl) ty;
         conflict = (if alg = WAIT_DIE \<and> \<not> conflict then
                       (case waiters rl of [] \<Rightarrow> False
                        | w # _ \<Rightarrow> lt_timestamp (H t) < lt_timestamp (H (le_txn w)))
                     else conflict)
     in if alg = CALVIN \<and> \<not> conflict then waiters rl \<noteq> [] else conflict)"

definition lock_get ::
  "lock_alg \<Rightarrow> lock_t \<Rightarrow> txn_ref \<Rightarrow> Row_lock \<Rightarrow> lock_txns \<Rightarrow> (RC \<times> Row_lock \<times> lock_txns) result" where
  "lock_get alg ty t rl H =
    (if lock_get_conflict alg ty t rl H then
       (case alg of
          NO_WAIT \<Rightarrow> Inr (Abort, rl, H)
        | WAIT_DIE \<Rightarrow>
            bind_result (canwait H t (owners rl)) (\<lambda>cw.
              if cw then
                Inr (WAIT,
                     rl\<lparr>waiters := insert_before
                          (\<lambda>en. lt_timestamp (H t) < lt_timestamp (H (le_txn en)))
                          (get_entry ty t) (waiters rl),
                        waiter_cnt := waiter_cnt rl + 1\<rparr>,
                     start_wait H t)
              else Inr (Abort, rl, H))
        | CALVIN \<Rightarrow>
            Inr (WAIT,
                 rl\<lparr>waiters := waiters rl @ [get_entry ty t],
                    waiter_cnt := waiter_cnt rl + 1\<rparr>,
                 start_wait H t))
     else
       bind_result (assert_that (owner_cnt rl > 0 \<longrightarrow> ty = LOCK_SH)) (\<lambda>_.
         Inr (RCOK,
              rl\<lparr>owners := (if alg = NO_WAIT then owners rl else get_entry ty t # owners rl),
                 max_owner_ts := max (max_owner_ts rl) (lt_timestamp (H t)),
                 owner_cnt := owner_cnt rl + 1,
                 lock_type := ty\<rparr>,
              H)))"

text \<open>
  The loop at the end of \<open>lock_release\<close>: a waiter that became compatible joins the owners and its
  transaction is told (\<open>decr_lr\<close>, then \<open>lock_ready\<close> is set when no lock is missing any more). The
  last component collects the transactions handed to \<open>txn_table.restart_txn\<close>.
\<close>

definition grant_row :: "lock_alg \<Rightarrow> LockEntry \<Rightarrow> ts_t \<Rightarrow> Row_lock \<Rightarrow> Row_lock" where
  "grant_row alg en ts rl =
    rl\<lparr>owners := (if alg = NO_WAIT then owners rl else en # owners rl),
       owner_cnt := owner_cnt rl + 1,
       waiter_cnt := waiter_cnt rl - 1,
       max_owner_ts := max (max_owner_ts rl) ts,
       lock_type := le_type en\<rparr>"

definition grant_txn :: "lock_txn \<Rightarrow> lock_txn" where
  "grant_txn T = (let T' = decr_lr T in
     if lt_lock_ready_cnt T' = 0 then T'\<lparr>lt_lock_ready := True\<rparr> else T')"

fun grant_waiters ::
  "lock_alg \<Rightarrow> LockEntry list \<Rightarrow> Row_lock \<Rightarrow> lock_txns \<Rightarrow> txn_ref list \<Rightarrow>
   (Row_lock \<times> lock_txns \<times> txn_ref list) result" where
  "grant_waiters alg [] rl H rs = Inr (rl\<lparr>waiters := []\<rparr>, H, rs)"
| "grant_waiters alg (en # es) rl H rs =
    (if conflict_lock (lock_type rl) (le_type en) then Inr (rl\<lparr>waiters := en # es\<rparr>, H, rs)
     else if lt_lock_ready (H (le_txn en)) then Inl Assert_failed
     else
       grant_waiters alg es
         (grant_row alg en (lt_timestamp (H (le_txn en))) rl)
         (H(le_txn en := grant_txn (H (le_txn en))))
         (if lt_lock_ready (grant_txn (H (le_txn en))) then rs @ [le_txn en] else rs))"

text \<open>Removal of the caller from the owners, with the asserts on the way.\<close>

definition release_owner :: "lock_alg \<Rightarrow> txn_ref \<Rightarrow> Row_lock \<Rightarrow> Row_lock result" where
  "release_owner alg t rl =
    (if alg = NO_WAIT then
       bind_result (assert_that (owner_cnt rl > 0)) (\<lambda>_.
         let cnt = owner_cnt rl - 1 in
         Inr (rl\<lparr>owner_cnt := cnt, lock_type := (if cnt = 0 then LOCK_NONE else lock_type rl)\<rparr>))
     else
       (case extract_first (\<lambda>en. le_txn en = t) (owners rl) of
          None \<Rightarrow> Inl Assert_failed
        | Some (_, os) \<Rightarrow>
            let cnt = owner_cnt rl - 1 in
            Inr (rl\<lparr>owners := os, owner_cnt := cnt,
                    lock_type := (if cnt = 0 then LOCK_NONE else lock_type rl)\<rparr>)))"

definition lock_release ::
  "lock_alg \<Rightarrow> txn_ref \<Rightarrow> Row_lock \<Rightarrow> lock_txns \<Rightarrow>
   (RC \<times> Row_lock \<times> lock_txns \<times> txn_ref list) result" where
  "lock_release alg t rl H =
    (if alg = CALVIN \<and> lt_recon (H t) then Inr (RCOK, rl, H, [])
     else
       bind_result (release_owner alg t rl) (\<lambda>rl1.
       bind_result (assert_that (owner_cnt rl1 = 0 \<longrightarrow> lock_type rl1 = LOCK_NONE)) (\<lambda>_.
       bind_result (grant_waiters alg (waiters rl1) rl1 H []) (\<lambda>(rl2, H2, rs).
         Inr (RCOK, rl2, H2, rs)))))"

section \<open>Invariant\<close>

definition younger :: "lock_txns \<Rightarrow> LockEntry \<Rightarrow> LockEntry \<Rightarrow> bool" where
  "younger H a b \<longleftrightarrow> lt_timestamp (H (le_txn b)) < lt_timestamp (H (le_txn a))"

text \<open>The counters and the lock mode describe the lists; the mode protects exclusive owners.\<close>

definition mode_inv :: "Row_lock \<Rightarrow> bool" where
  "mode_inv rl \<longleftrightarrow>
     owner_cnt rl = of_nat (length (owners rl)) \<and>
     waiter_cnt rl = of_nat (length (waiters rl)) \<and>
     length (owners rl) + length (waiters rl) < 2 ^ 32 \<and>
     (\<forall>e\<in>set (owners rl). le_type e = lock_type rl) \<and>
     (owners rl = [] \<longleftrightarrow> lock_type rl = LOCK_NONE) \<and>
     (lock_type rl = LOCK_EX \<longrightarrow> length (owners rl) = 1) \<and>
     (\<forall>e\<in>set (waiters rl). le_type e \<noteq> LOCK_NONE)"

text \<open>No waiter is left behind: the first waiter conflicts with the current mode.\<close>

definition head_blocked :: "Row_lock \<Rightarrow> bool" where
  "head_blocked rl \<longleftrightarrow>
     (waiters rl \<noteq> [] \<longrightarrow> conflict_lock (lock_type rl) (le_type (hd (waiters rl))))"

text \<open>Wait-die: waiters go from the youngest to the oldest, and each is older than every owner.\<close>

definition age_inv :: "lock_txns \<Rightarrow> Row_lock \<Rightarrow> bool" where
  "age_inv H rl \<longleftrightarrow>
     sorted_wrt (younger H) (waiters rl) \<and>
     (\<forall>w\<in>set (waiters rl). \<forall>e\<in>set (owners rl). younger H e w)"

definition rl_inv :: "lock_alg \<Rightarrow> lock_txns \<Rightarrow> Row_lock \<Rightarrow> bool" where
  "rl_inv alg H rl \<longleftrightarrow>
     mode_inv rl \<and> head_blocked rl \<and> (alg = WAIT_DIE \<longrightarrow> age_inv H rl)"

lemmas rl_inv_defs = rl_inv_def mode_inv_def head_blocked_def age_inv_def

lemma rl_inv_init: "rl_inv alg H row_lock_init"
  by (simp add: rl_inv_defs row_lock_init_def)

lemma transp_younger [simp]: "transp (younger H)"
  by (auto simp: transp_def younger_def)

lemma younger_cong:
  "(\<And>t. lt_timestamp (H' t) = lt_timestamp (H t)) \<Longrightarrow> younger H' = younger H"
  by (simp add: younger_def fun_eq_iff)

lemma timestamp_start_wait [simp]: "lt_timestamp (start_wait H t u) = lt_timestamp (H u)"
  by (simp add: start_wait_def incr_lr_def)

lemma younger_start_wait [simp]: "younger (start_wait H t) = younger H"
  by (rule younger_cong) simp

lemma timestamp_grant_txn [simp]: "lt_timestamp (grant_txn T) = lt_timestamp T"
  by (simp add: grant_txn_def decr_lr_def Let_def)

lemma canwait_True_iff:
  "canwait H t es = Inr True \<longleftrightarrow>
     (\<forall>e\<in>set es. lt_txn_id (H t) \<noteq> lt_txn_id (H (le_txn e)) \<and>
                 lt_timestamp (H t) < lt_timestamp (H (le_txn e)))"
  by (induction es) auto

lemma canwait_False_iff:
  "canwait H t es = Inr False \<Longrightarrow>
     \<exists>e\<in>set es. lt_timestamp (H (le_txn e)) < lt_timestamp (H t)"
  by (induction es) (auto split: if_splits)

text \<open>Counters do not wrap while a row has fewer than \<open>2 ^ 32\<close> entries.\<close>

lemma of_nat_32_eq_0_iff: "n < 2 ^ 32 \<Longrightarrow> (of_nat n :: 32 word) = 0 \<longleftrightarrow> n = 0"
  using of_nat_word_eq_0_iff [where 'a = 32] by simp

lemma conflict_lock_iff:
  "conflict_lock a b \<longleftrightarrow> a \<noteq> LOCK_NONE \<and> b \<noteq> LOCK_NONE \<and> (a = LOCK_EX \<or> b = LOCK_EX)"
  by auto

lemma not_conflict_cases:
  "\<not> conflict_lock a b \<Longrightarrow> b \<noteq> LOCK_NONE \<Longrightarrow> a = LOCK_NONE \<or> (a = LOCK_SH \<and> b = LOCK_SH)"
  by (cases a; cases b) simp_all

declare conflict_lock.simps [simp del]

lemma lock_get_conflict_no_wait:
  "lock_get_conflict NO_WAIT ty t rl H = conflict_lock (lock_type rl) ty"
  by (simp add: lock_get_conflict_def)

lemma lock_get_conflict_wait_die:
  "lock_get_conflict WAIT_DIE ty t rl H \<longleftrightarrow>
     conflict_lock (lock_type rl) ty \<or>
     (waiters rl \<noteq> [] \<and> lt_timestamp (H t) < lt_timestamp (H (le_txn (hd (waiters rl)))))"
  by (auto simp: lock_get_conflict_def split: list.splits)

lemma lock_get_conflict_calvin:
  "lock_get_conflict CALVIN ty t rl H \<longleftrightarrow> conflict_lock (lock_type rl) ty \<or> waiters rl \<noteq> []"
  by (auto simp: lock_get_conflict_def)

lemmas lock_get_conflict_simps =
  lock_get_conflict_no_wait lock_get_conflict_wait_die lock_get_conflict_calvin

text \<open>A compatible request joins the owners without breaking the mode invariant.\<close>

lemma mode_inv_join:
  assumes "mode_inv rl" "\<not> conflict_lock (lock_type rl) (le_type e)" "le_type e \<noteq> LOCK_NONE"
    and "length (owners rl) + length ws + 1 < 2 ^ 32"
    and "c = of_nat (length ws)" "\<forall>w\<in>set ws. le_type w \<noteq> LOCK_NONE"
  shows "mode_inv (rl\<lparr>owners := e # owners rl, owner_cnt := owner_cnt rl + 1, waiters := ws,
                      waiter_cnt := c, max_owner_ts := m, lock_type := le_type e\<rparr>)"
  using assms not_conflict_cases [OF assms(2,3)] by (auto simp: mode_inv_def)

text \<open>A new waiter leaves the owners alone.\<close>

lemma mode_inv_wait:
  assumes "mode_inv rl" "ty \<noteq> LOCK_NONE" "set ws = insert (get_entry ty t) (set (waiters rl))"
    "length ws = Suc (length (waiters rl))" "length (owners rl) + length ws < 2 ^ 32"
  shows "mode_inv (rl\<lparr>waiters := ws, waiter_cnt := waiter_cnt rl + 1\<rparr>)"
  using assms by (auto simp: mode_inv_def get_entry_def)


lemma younger_get_entry:
  "younger H e (get_entry ty t) \<longleftrightarrow> lt_timestamp (H t) < lt_timestamp (H (le_txn e))"
  "younger H (get_entry ty t) e \<longleftrightarrow> lt_timestamp (H (le_txn e)) < lt_timestamp (H t)"
  by (simp_all add: younger_def get_entry_def)

lemma age_inv_wait:
  assumes "age_inv H rl" "canwait H t (owners rl) = Inr True"
    and "\<forall>w\<in>set (waiters rl). lt_timestamp (H (le_txn w)) \<noteq> lt_timestamp (H t)"
  shows "age_inv H (rl\<lparr>waiters := insert_before (\<lambda>en. lt_timestamp (H t) < lt_timestamp (H (le_txn en)))
                      (get_entry ty t) (waiters rl), waiter_cnt := c\<rparr>)"
  using assms
  by (auto simp: age_inv_def canwait_True_iff younger_get_entry intro!: sorted_wrt_insert_before)

lemma head_blocked_insert:
  assumes "head_blocked rl" "conflict_lock (lock_type rl) ty \<or> (waiters rl \<noteq> [] \<and> skip (hd (waiters rl)))"
  shows "head_blocked (rl\<lparr>waiters := insert_before skip (get_entry ty t) (waiters rl), waiter_cnt := c\<rparr>)"
  using assms by (cases "waiters rl") (auto simp: head_blocked_def get_entry_def)

lemma age_inv_join:
  assumes "age_inv H rl" "set ws \<subseteq> set (waiters rl)" "sorted_wrt (younger H) ws"
    "\<forall>w\<in>set ws. younger H e w"
  shows "age_inv H (rl\<lparr>owners := e # owners rl, owner_cnt := oc, waiters := ws,
                      waiter_cnt := c, max_owner_ts := m, lock_type := ty\<rparr>)"
  using assms by (auto simp: age_inv_def)

lemma lock_get_inv:
  assumes inv: "rl_inv alg H rl" and alg: "alg \<noteq> NO_WAIT" and ty: "ty \<noteq> LOCK_NONE"
    and room: "length (owners rl) + length (waiters rl) + 1 < 2 ^ 32"
    and fresh: "alg = WAIT_DIE \<Longrightarrow> \<forall>w\<in>set (waiters rl). lt_timestamp (H (le_txn w)) \<noteq> lt_timestamp (H t)"
    and run: "lock_get alg ty t rl H = Inr (rc, rl', H')"
  shows "rl_inv alg H' rl'"
proof (cases "lock_get_conflict alg ty t rl H")
  case False
  then have nc: "\<not> conflict_lock (lock_type rl) ty"
    using alg by (cases alg) (auto simp: lock_get_conflict_simps)
  from False alg run have rl': "rl' = rl\<lparr>owners := get_entry ty t # owners rl, owner_cnt := owner_cnt rl + 1,
      waiters := waiters rl, waiter_cnt := waiter_cnt rl,
      max_owner_ts := max (max_owner_ts rl) (lt_timestamp (H t)), lock_type := le_type (get_entry ty t)\<rparr>"
    and H': "H' = H"
    by (auto simp: lock_get_def bind_result_Inr_iff get_entry_def)
  have "mode_inv rl'"
    unfolding rl' using inv nc ty room
    by (intro mode_inv_join) (auto simp: rl_inv_def get_entry_def mode_inv_def)
  moreover have "head_blocked rl'"
    using inv not_conflict_cases [OF nc ty] by (auto simp: rl' rl_inv_def head_blocked_def conflict_lock_iff get_entry_def)
  moreover have "age_inv H rl'" if wd: "alg = WAIT_DIE"
  proof -
    have age: "age_inv H rl" using inv wd by (simp add: rl_inv_def)
    have "younger H (get_entry ty t) w" if w: "w \<in> set (waiters rl)" for w
    proof -
      obtain v vs where ws: "waiters rl = v # vs" using w by (cases "waiters rl") auto
      with False wd fresh have "lt_timestamp (H (le_txn v)) < lt_timestamp (H t)"
        by (auto simp: lock_get_conflict_simps)
      then show ?thesis using age ws w by (auto simp: age_inv_def younger_def get_entry_def)
    qed
    with age show ?thesis unfolding rl' by (intro age_inv_join) (auto simp: age_inv_def)
  qed
  ultimately show ?thesis by (simp add: rl_inv_def H')
next
  case True
  show ?thesis
  proof (cases alg)
    case WAIT_DIE
    show ?thesis
    proof (cases "rc = WAIT")
      case True
      with \<open>lock_get_conflict alg ty t rl H\<close> run WAIT_DIE
      have rl': "rl' = rl\<lparr>waiters := insert_before (\<lambda>en. lt_timestamp (H t) < lt_timestamp (H (le_txn en)))
                          (get_entry ty t) (waiters rl), waiter_cnt := waiter_cnt rl + 1\<rparr>"
        and H': "H' = start_wait H t" and cw: "canwait H t (owners rl) = Inr True"
        by (auto simp: lock_get_def bind_result_Inr_iff split: if_splits)
      have "mode_inv rl'" unfolding rl' using inv ty room by (intro mode_inv_wait) (auto simp: rl_inv_def)
      moreover have "head_blocked rl'"
        unfolding rl' using inv \<open>lock_get_conflict alg ty t rl H\<close> WAIT_DIE
        by (intro head_blocked_insert) (auto simp: rl_inv_def lock_get_conflict_simps)
      moreover have "age_inv H rl'"
        unfolding rl' using inv WAIT_DIE fresh cw by (intro age_inv_wait) (auto simp: rl_inv_def)
      ultimately show ?thesis by (simp add: rl_inv_def H' age_inv_def)
    next
      case False
      with True run WAIT_DIE have "rl' = rl" "H' = H"
        by (auto simp: lock_get_def bind_result_Inr_iff split: if_splits)
      with inv show ?thesis by simp
    qed
  next
    case CALVIN
    with True run have rl': "rl' = rl\<lparr>waiters := waiters rl @ [get_entry ty t], waiter_cnt := waiter_cnt rl + 1\<rparr>"
      by (auto simp: lock_get_def)
    have "mode_inv rl'" unfolding rl' using inv ty room by (intro mode_inv_wait) (auto simp: rl_inv_def)
    moreover have "head_blocked rl'"
      using inv True CALVIN
      by (cases "waiters rl") (auto simp: rl' rl_inv_def head_blocked_def lock_get_conflict_simps get_entry_def)
    ultimately show ?thesis using CALVIN by (simp add: rl_inv_def)
  qed (use alg in simp)
qed

lemma grant_waiters_inv:
  assumes "mode_inv (rl\<lparr>waiters := ws\<rparr>)" "alg = WAIT_DIE \<longrightarrow> age_inv H (rl\<lparr>waiters := ws\<rparr>)"
    and "alg \<noteq> NO_WAIT" and "grant_waiters alg ws rl H rs = Inr (rl', H', rs')"
  shows "rl_inv alg H' rl' \<and> (\<forall>u. lt_timestamp (H' u) = lt_timestamp (H u))"
  using assms
proof (induction ws arbitrary: rl H rs)
  case Nil
  then show ?case by (auto simp: rl_inv_def head_blocked_def)
next
  case (Cons en es)
  show ?case
  proof (cases "conflict_lock (lock_type rl) (le_type en)")
    case True
    with Cons.prems show ?thesis by (auto simp: rl_inv_def head_blocked_def)
  next
    case False
    define H1 where "H1 = H(le_txn en := grant_txn (H (le_txn en)))"
    define rl1 where "rl1 = grant_row alg en (lt_timestamp (H (le_txn en))) rl"
    have ts: "lt_timestamp (H1 u) = lt_timestamp (H u)" for u
      by (simp add: H1_def)
    have "mode_inv (rl1\<lparr>waiters := es\<rparr>)"
      using Cons.prems(1,3) not_conflict_cases [OF False]
      by (auto simp: mode_inv_def rl1_def grant_row_def)
    moreover have "alg = WAIT_DIE \<longrightarrow> age_inv H1 (rl1\<lparr>waiters := es\<rparr>)"
      using Cons.prems(2) younger_cong [of H1 H, OF ts] by (auto simp: age_inv_def rl1_def grant_row_def)
    moreover obtain rs1 where "grant_waiters alg es rl1 H1 rs1 = Inr (rl', H', rs')"
      using Cons.prems(4) False
      by (auto simp: rl1_def H1_def simp del: fun_upd_apply split: if_splits)
    ultimately show ?thesis
      using Cons.IH [of rl1 H1] Cons.prems(3) ts by metis
  qed
qed

lemma release_owner_mode_inv:
  assumes "mode_inv rl" "alg \<noteq> NO_WAIT" "release_owner alg t rl = Inr rl1"
  shows "mode_inv rl1 \<and> set (owners rl1) \<subseteq> set (owners rl) \<and> waiters rl1 = waiters rl"
proof -
  from assms obtain e es where ex: "extract_first (\<lambda>en. le_txn en = t) (owners rl) = Some (e, es)"
    and rl1: "rl1 = rl\<lparr>owners := es, owner_cnt := owner_cnt rl - 1,
        lock_type := (if owner_cnt rl - 1 = 0 then LOCK_NONE else lock_type rl)\<rparr>"
    by (auto simp: release_owner_def Let_def split: option.splits)
  have len: "length (owners rl) = Suc (length es)" using ex by (rule extract_first_length)
  have "owner_cnt rl - 1 = of_nat (length es)" using assms(1) len by (simp add: mode_inv_def)
  moreover have "length es < 2 ^ 32" using assms(1) len by (auto simp: mode_inv_def)
  ultimately have "owner_cnt rl - 1 = 0 \<longleftrightarrow> es = []" by (simp add: of_nat_32_eq_0_iff)
  then show ?thesis
    using assms(1) len extract_first_set [OF ex]
    by (auto simp: rl1 mode_inv_def)
qed

lemma lock_release_inv:
  assumes inv: "rl_inv alg H rl" and alg: "alg \<noteq> NO_WAIT"
    and run: "lock_release alg t rl H = Inr (rc, rl', H', rs)"
  shows "rl_inv alg H' rl' \<and> (\<forall>u. lt_timestamp (H' u) = lt_timestamp (H u))"
proof (cases "alg = CALVIN \<and> lt_recon (H t)")
  case True
  with run inv show ?thesis by (auto simp: lock_release_def)
next
  case False
  with run obtain rl1 where rel: "release_owner alg t rl = Inr rl1"
    and gr: "grant_waiters alg (waiters rl1) rl1 H [] = Inr (rl', H', rs)"
    by (auto simp: lock_release_def bind_result_Inr_iff)
  have m: "mode_inv rl1 \<and> set (owners rl1) \<subseteq> set (owners rl) \<and> waiters rl1 = waiters rl"
    using release_owner_mode_inv [OF _ alg rel] inv by (simp add: rl_inv_def)
  then have "alg = WAIT_DIE \<longrightarrow> age_inv H rl1" using inv by (auto simp: rl_inv_def age_inv_def)
  moreover have "rl1\<lparr>waiters := waiters rl1\<rparr> = rl1" by simp
  ultimately show ?thesis using m grant_waiters_inv [OF _ _ alg gr] by metis
qed


section \<open>A system of rows and transactions\<close>

record lock_sys =
  ls_row :: "nat \<Rightarrow> Row_lock"
  ls_txns :: lock_txns

definition waiting_in :: "lock_sys \<Rightarrow> nat \<Rightarrow> txn_ref \<Rightarrow> bool" where
  "waiting_in s r t \<longleftrightarrow> t \<in> le_txn ` set (waiters (ls_row s r))"

definition involved :: "lock_sys \<Rightarrow> txn_ref \<Rightarrow> bool" where
  "involved s t \<longleftrightarrow> (\<exists>r. t \<in> le_txn ` set (owners (ls_row s r) @ waiters (ls_row s r)))"

text \<open>
  One step: a request, a release, or any change of transaction state elsewhere. Under \<open>WAIT_DIE\<close> and
  \<open>NO_WAIT\<close> only a transaction that is not blocked makes a request, transactions carry distinct timestamps
  (\<open>Manager::get_ts\<close>), and one that owns or waits for a lock keeps its timestamp. Under \<open>CALVIN\<close> none of
  this holds: \<open>acquire_locks\<close> goes on to the next row after \<open>WAIT\<close>, and transactions have no timestamps.
\<close>

inductive lock_step :: "lock_alg \<Rightarrow> lock_sys \<Rightarrow> lock_sys \<Rightarrow> bool" for alg where
  acquire: "\<lbrakk>alg = CALVIN \<or> (\<forall>r'. \<not> waiting_in s r' t); ty \<noteq> LOCK_NONE;
      length (owners (ls_row s r)) + length (waiters (ls_row s r)) + 1 < 2 ^ 32;
      lock_get alg ty t (ls_row s r) (ls_txns s) = Inr (rc, rl, H)\<rbrakk>
    \<Longrightarrow> lock_step alg s \<lparr>ls_row = (ls_row s)(r := rl), ls_txns = H\<rparr>"
| release: "lock_release alg t (ls_row s r) (ls_txns s) = Inr (rc, rl, H, rs)
    \<Longrightarrow> lock_step alg s \<lparr>ls_row = (ls_row s)(r := rl), ls_txns = H\<rparr>"
| environment: "alg = CALVIN \<or> inj (\<lambda>t. lt_timestamp (H t)) \<and>
      (\<forall>t. involved s t \<longrightarrow> lt_timestamp (H t) = lt_timestamp (ls_txns s t))
    \<Longrightarrow> lock_step alg s (s\<lparr>ls_txns := H\<rparr>)"

inductive lock_reach :: "lock_alg \<Rightarrow> lock_sys \<Rightarrow> bool" for alg where
  start: "alg = CALVIN \<or> inj (\<lambda>t. lt_timestamp (H t)) \<Longrightarrow>
    lock_reach alg \<lparr>ls_row = (\<lambda>_. row_lock_init), ls_txns = H\<rparr>"
| step: "lock_reach alg s \<Longrightarrow> lock_step alg s s' \<Longrightarrow> lock_reach alg s'"

text \<open>
  \<open>w\<close> waits for \<open>v\<close> when \<open>w\<close> is queued on a row that \<open>v\<close> owns, or behind \<open>v\<close> in its queue.
\<close>

definition waits_for :: "lock_sys \<Rightarrow> txn_ref \<Rightarrow> txn_ref \<Rightarrow> bool" where
  "waits_for s w v \<longleftrightarrow> (\<exists>r.
     (\<exists>a\<in>set (waiters (ls_row s r)). \<exists>e\<in>set (owners (ls_row s r)). le_txn a = w \<and> le_txn e = v) \<or>
     (\<exists>i j. i < j \<and> j < length (waiters (ls_row s r)) \<and>
        le_txn (waiters (ls_row s r) ! j) = w \<and> le_txn (waiters (ls_row s r) ! i) = v))"

definition lock_sys_inv :: "lock_alg \<Rightarrow> lock_sys \<Rightarrow> bool" where
  "lock_sys_inv alg s \<longleftrightarrow>
     (alg = CALVIN \<or> inj (\<lambda>t. lt_timestamp (ls_txns s t))) \<and> (\<forall>r. rl_inv alg (ls_txns s) (ls_row s r))"

lemma rl_inv_cong:
  assumes "rl_inv alg H rl"
    and "\<And>e. alg = WAIT_DIE \<Longrightarrow> e \<in> set (owners rl @ waiters rl) \<Longrightarrow> lt_timestamp (H' (le_txn e)) = lt_timestamp (H (le_txn e))"
  shows "rl_inv alg H' rl"
proof (cases "alg = WAIT_DIE")
  case True
  have "younger H' a b \<longleftrightarrow> younger H a b" if "a \<in> set (owners rl @ waiters rl)" "b \<in> set (owners rl @ waiters rl)" for a b
    using assms(2) True that by (simp add: younger_def)
  then have "age_inv H' rl" if "age_inv H rl"
    using that unfolding age_inv_def by (auto intro: sorted_wrt_mono_rel [of _ "younger H"])
  with assms(1) show ?thesis by (simp add: rl_inv_def)
qed (use assms(1) in \<open>simp add: rl_inv_def\<close>)

lemma timestamp_lock_get:
  "lock_get alg ty t rl H = Inr (rc, rl', H') \<Longrightarrow> lt_timestamp (H' u) = lt_timestamp (H u)"
  by (auto simp: lock_get_def bind_result_Inr_iff split: if_splits lock_alg.splits)

lemma lock_sys_inv_row_step:
  assumes "lock_sys_inv alg s" "rl_inv alg H rl" "\<And>u. lt_timestamp (H u) = lt_timestamp (ls_txns s u)"
  shows "lock_sys_inv alg \<lparr>ls_row = (ls_row s)(r := rl), ls_txns = H\<rparr>"
proof -
  have "rl_inv alg H (ls_row s q)" for q
    using assms(1) by (intro rl_inv_cong [of alg "ls_txns s" "ls_row s q" H] assms(3)) (simp add: lock_sys_inv_def)
  with assms show ?thesis by (simp add: lock_sys_inv_def)
qed

lemma lock_step_inv:
  assumes "lock_step alg s s'" "lock_sys_inv alg s" "alg \<noteq> NO_WAIT"
  shows "lock_sys_inv alg s'"
  using assms(1)
proof cases
  case (acquire t ty r rc rl H)
  have "\<forall>w\<in>set (waiters (ls_row s r)). lt_timestamp (ls_txns s (le_txn w)) \<noteq> lt_timestamp (ls_txns s t)" if "alg = WAIT_DIE"
    using that acquire(2) assms(2) by (auto simp: waiting_in_def lock_sys_inv_def inj_def)
  then have "rl_inv alg H rl"
    using lock_get_inv [OF _ assms(3) acquire(3,4) _ acquire(5)] assms(2) by (simp add: lock_sys_inv_def)
  then show ?thesis
    using lock_sys_inv_row_step [OF assms(2)] timestamp_lock_get [OF acquire(5)] acquire(1) by simp
next
  case (release t r rc rl H rs)
  have "rl_inv alg H rl \<and> (\<forall>u. lt_timestamp (H u) = lt_timestamp (ls_txns s u))"
    using lock_release_inv [OF _ assms(3) release(2)] assms(2) by (simp add: lock_sys_inv_def)
  then show ?thesis using lock_sys_inv_row_step [OF assms(2)] release(1) by simp
next
  case (environment H)
  have "rl_inv alg H (ls_row s r)" for r
    using assms(2) environment(2)
    by (intro rl_inv_cong [of alg "ls_txns s" _ H]) (auto simp: lock_sys_inv_def involved_def)
  then show ?thesis using environment by (auto simp: lock_sys_inv_def)
qed

lemma lock_reach_inv:
  assumes "lock_reach alg s" "alg \<noteq> NO_WAIT"
  shows "lock_sys_inv alg s"
  using assms(1)
proof (induction rule: lock_reach.induct)
  case (start H)
  then show ?case by (simp add: lock_sys_inv_def rl_inv_init)
next
  case (step s s')
  then show ?case using lock_step_inv assms(2) by blast
qed

lemma waits_for_older:
  assumes "lock_reach WAIT_DIE s" "waits_for s w v"
  shows "lt_timestamp (ls_txns s w) < lt_timestamp (ls_txns s v)"
proof -
  have age: "age_inv (ls_txns s) (ls_row s r)" for r
    using lock_reach_inv [OF assms(1)] by (simp add: lock_sys_inv_def rl_inv_def)
  from assms(2) consider
    (owner) r a e where "a \<in> set (waiters (ls_row s r))" "e \<in> set (owners (ls_row s r))"
      "le_txn a = w" "le_txn e = v"
  | (queue) r i j where "i < j" "j < length (waiters (ls_row s r))"
      "le_txn (waiters (ls_row s r) ! j) = w" "le_txn (waiters (ls_row s r) ! i) = v"
    unfolding waits_for_def by blast
  then show ?thesis
  proof cases
    case owner
    with age [of r] show ?thesis by (auto simp: age_inv_def younger_def)
  next
    case queue
    have "sorted_wrt (younger (ls_txns s)) (waiters (ls_row s r))"
      using age [of r] by (simp add: age_inv_def)
    from sorted_wrt_nth_less [OF this queue(1,2)] queue(3,4) show ?thesis
      by (simp add: younger_def)
  qed
qed

interpretation wd: ranked_waits
  "lock_reach WAIT_DIE" "\<lambda>s t. lt_timestamp (ls_txns s t)" waits_for
  by unfold_locales (rule waits_for_older)


section \<open>NO_WAIT as an abstract reader-writer lock\<close>

text \<open>
  The abstract lock is the multiset of granted modes; a mode is granted when it is compatible
  with all of them. Under NO_WAIT the row keeps only a counter and a mode.
\<close>

definition rw_compatible :: "lock_t multiset \<Rightarrow> lock_t \<Rightarrow> bool" where
  "rw_compatible G ty \<longleftrightarrow> (\<forall>m\<in>#G. \<not> conflict_lock m ty)"

definition nw_sim :: "Row_lock \<Rightarrow> lock_t multiset \<Rightarrow> bool" where
  "nw_sim rl G \<longleftrightarrow>
     owner_cnt rl = of_nat (size G) \<and> size G < 2 ^ 32 \<and> waiters rl = [] \<and>
     (\<forall>m\<in>#G. m = lock_type rl) \<and> (G = {#} \<longleftrightarrow> lock_type rl = LOCK_NONE) \<and>
     (lock_type rl = LOCK_EX \<longrightarrow> size G = 1)"

lemma nw_sim_compatible:
  "nw_sim rl G \<Longrightarrow> rw_compatible G ty \<longleftrightarrow> \<not> conflict_lock (lock_type rl) ty"
  by (cases G) (auto simp: nw_sim_def rw_compatible_def conflict_lock_iff)

lemma nw_sim_grant:
  assumes "nw_sim rl G" "rw_compatible G ty" "ty \<noteq> LOCK_NONE" "size G + 1 < 2 ^ 32"
  shows "\<exists>rl'. lock_get NO_WAIT ty t rl H = Inr (RCOK, rl', H) \<and> nw_sim rl' (add_mset ty G)"
proof -
  have nc: "\<not> conflict_lock (lock_type rl) ty" using assms nw_sim_compatible by blast
  have "owner_cnt rl > 0 \<longrightarrow> ty = LOCK_SH"
    using not_conflict_cases [OF nc assms(3)] assms(1) by (auto simp: nw_sim_def)
  then show ?thesis
    using nc assms not_conflict_cases [OF nc assms(3)]
    by (auto simp: lock_get_def lock_get_conflict_simps assert_that_def nw_sim_def)
qed

lemma nw_sim_release:
  assumes "nw_sim rl G" "m \<in># G"
  shows "\<exists>rl'. lock_release NO_WAIT t rl H = Inr (RCOK, rl', H, []) \<and> nw_sim rl' (G - {#m#})"
proof -
  obtain G' where G: "G = add_mset m G'" using assms(2) by (metis mset_add)
  have cnt: "owner_cnt rl - 1 = of_nat (size G')" "size G' < 2 ^ 32"
    using assms(1) by (auto simp: nw_sim_def G)
  have "owner_cnt rl \<noteq> 0"
    using assms(1) of_nat_32_eq_0_iff [of "size G"] by (auto simp: nw_sim_def G)
  then show ?thesis
    using assms(1) cnt of_nat_32_eq_0_iff [OF cnt(2)]
    by (auto simp: lock_release_def release_owner_def assert_that_def Let_def nw_sim_def G word_greater_zero_iff)
qed

section \<open>Release\<close>

lemma grant_waiters_prefix:
  assumes "grant_waiters alg ws rl H rs = Inr (rl', H', rs')" "alg \<noteq> NO_WAIT"
  shows "\<exists>gs. ws = gs @ waiters rl' \<and> owners rl' = rev gs @ owners rl"
  using assms
proof (induction ws arbitrary: rl H rs)
  case (Cons en es)
  show ?case
  proof (cases "conflict_lock (lock_type rl) (le_type en)")
    case True
    with Cons.prems show ?thesis by auto
  next
    case False
    with Cons.prems(1) Cons.IH [OF _ Cons.prems(2)] obtain gs where
      "es = gs @ waiters rl'" "owners rl' = rev gs @ owners (grant_row alg en (lt_timestamp (H (le_txn en))) rl)"
      by (auto simp del: fun_upd_apply split: if_splits)
    then have "en # es = (en # gs) @ waiters rl' \<and> owners rl' = rev (en # gs) @ owners rl"
      using Cons.prems(2) by (simp add: grant_row_def)
    then show ?thesis by blast
  qed
qed auto

lemma grant_waiters_total:
  assumes "distinct (map le_txn ws)" "\<forall>w\<in>set ws. \<not> lt_lock_ready (H (le_txn w))"
  shows "\<exists>x. grant_waiters alg ws rl H rs = Inr x"
  using assms
proof (induction ws arbitrary: rl H rs)
  case (Cons en es)
  have "\<forall>w\<in>set es. \<not> lt_lock_ready ((H(le_txn en := grant_txn (H (le_txn en)))) (le_txn w))"
    using Cons.prems by (auto simp: image_iff)
  moreover have "distinct (map le_txn es)" using Cons.prems by simp
  ultimately show ?case using Cons.IH Cons.prems(2) by simp
qed simp


section \<open>Properties\<close>

text \<open>A store for the concrete instances: transaction \<open>t\<close> has number and timestamp \<open>t\<close>.\<close>

definition sample_txns :: lock_txns where
  "sample_txns = (\<lambda>t. \<lparr>lt_txn_id = t, lt_timestamp = t, lt_recon = False, lt_lock_ready = False,
     lt_lock_ready_cnt = 0\<rparr>)"

text \<open>Transaction 7 owns row 0 exclusively, transaction 5 waits for it.\<close>

definition sample_waiting :: lock_sys where
  "sample_waiting = \<lparr>ls_row = (\<lambda>_. row_lock_init)(0 :=
      \<lparr>lock_type = LOCK_EX, owner_cnt = 1, waiter_cnt = 1, owners = [get_entry LOCK_EX 7],
       waiters = [get_entry LOCK_SH 5], max_owner_ts = 7\<rparr>),
     ls_txns = start_wait sample_txns 5\<rparr>"

lemma inj_sample_txns: "inj (\<lambda>t. lt_timestamp (sample_txns t))"
  by (simp add: sample_txns_def)

lemma sample_waiting_reach: "alg \<noteq> NO_WAIT \<Longrightarrow> lock_reach alg sample_waiting"
proof -
  assume alg: "alg \<noteq> NO_WAIT"
  let ?s0 = "\<lparr>ls_row = (\<lambda>_. row_lock_init), ls_txns = sample_txns\<rparr>"
  let ?r1 = "\<lparr>lock_type = LOCK_EX, owner_cnt = 1, waiter_cnt = 0, owners = [get_entry LOCK_EX 7],
       waiters = [], max_owner_ts = 7\<rparr>"
  let ?s1 = "\<lparr>ls_row = (ls_row ?s0)(0 := ?r1), ls_txns = sample_txns\<rparr>"
  let ?r2 = "ls_row sample_waiting 0"
  have "lock_reach alg ?s0" by (rule lock_reach.start [OF disjI2 [OF inj_sample_txns]])
  moreover have "lock_step alg ?s0 ?s1"
    using alg by (intro lock_step.acquire [where t = 7 and ty = LOCK_EX and rc = RCOK])
      (cases alg; auto simp: waiting_in_def row_lock_init_def lock_get_def lock_get_conflict_simps
        conflict_lock_iff assert_that_def sample_txns_def)+
  ultimately have "lock_reach alg ?s1" by (rule lock_reach.step)
  moreover have "lock_step alg ?s1 \<lparr>ls_row = (ls_row ?s1)(0 := ?r2), ls_txns = start_wait sample_txns 5\<rparr>"
    using alg by (intro lock_step.acquire [where t = 5 and ty = LOCK_SH and rc = WAIT])
      (cases alg; auto simp: waiting_in_def row_lock_init_def lock_get_def lock_get_conflict_simps
        conflict_lock_iff assert_that_def sample_txns_def get_entry_def sample_waiting_def)+
  ultimately have "lock_reach alg \<lparr>ls_row = (ls_row ?s1)(0 := ?r2), ls_txns = start_wait sample_txns 5\<rparr>"
    by (rule lock_reach.step)
  then show ?thesis by (simp add: sample_waiting_def)
qed



text \<open>
  Claim C3. Wait-die never deadlocks: in every reachable state of any number of rows and
  transactions the waits-for relation (waiting for an owner, or behind an earlier waiter) has
  no cycle, and among any finite set of transactions one waits for none of the set.
\<close>

theorem wait_die_no_deadlock:
  assumes "lock_reach WAIT_DIE s"
  shows "acyclic {(w, v). waits_for s w v} \<and>
    (\<forall>B. finite B \<and> B \<noteq> {} \<longrightarrow> (\<exists>w\<in>B. \<forall>v\<in>B. \<not> waits_for s w v))"
  using wd.waits_acyclic [OF assms] wd.some_unblocked [OF assms] by blast

theorem wait_die_no_deadlock_witness:
  "waits_for sample_waiting 5 7 \<and> acyclic {(w, v). waits_for sample_waiting w v}"
  using wait_die_no_deadlock [OF sample_waiting_reach [of WAIT_DIE]]
  by (auto simp: waits_for_def sample_waiting_def get_entry_def intro!: exI [of _ 0])



text \<open>
  Claim C22. No lost wake-up: while a reachable row has waiters, some owner holds the row in a mode
  that conflicts with the first waiter's request, so a release is still to come.
\<close>

theorem lock_waiter_blocked_by_owner:
  assumes "lock_reach alg s" "alg \<noteq> NO_WAIT" "waiters (ls_row s r) \<noteq> []"
  shows "\<exists>e\<in>set (owners (ls_row s r)). conflict_lock (le_type e) (le_type (hd (waiters (ls_row s r))))"
proof -
  have "rl_inv alg (ls_txns s) (ls_row s r)"
    using lock_reach_inv [OF assms(1,2)] by (simp add: lock_sys_inv_def)
  then have m: "mode_inv (ls_row s r)"
    and c: "conflict_lock (lock_type (ls_row s r)) (le_type (hd (waiters (ls_row s r))))"
    using assms(3) by (auto simp: rl_inv_def head_blocked_def)
  then have "owners (ls_row s r) \<noteq> []" by (auto simp: mode_inv_def conflict_lock_iff)
  with m c show ?thesis by (cases "owners (ls_row s r)") (auto simp: mode_inv_def)
qed

theorem lock_waiter_blocked_by_owner_witness:
  "waiters (ls_row sample_waiting 0) \<noteq> [] \<and>
   (\<exists>e\<in>set (owners (ls_row sample_waiting 0)).
      conflict_lock (le_type e) (le_type (hd (waiters (ls_row sample_waiting 0)))))"
  using lock_waiter_blocked_by_owner [OF sample_waiting_reach [of CALVIN], of 0]
  by (simp add: sample_waiting_def)


text \<open>
  Claim C18. Under NO_WAIT the counter and mode of a row implement the abstract reader-writer lock:
  a request succeeds exactly when it is compatible with every granted mode, is aborted without
  any change otherwise, and a release gives back one granted mode and never fails.
\<close>

theorem no_wait_refines_rw_lock:
  assumes "nw_sim rl G" "ty \<noteq> LOCK_NONE" "size G + 1 < 2 ^ 32"
  shows "(rw_compatible G ty \<longrightarrow>
            (\<exists>rl'. lock_get NO_WAIT ty t rl H = Inr (RCOK, rl', H) \<and> nw_sim rl' (add_mset ty G))) \<and>
         (\<not> rw_compatible G ty \<longrightarrow> lock_get NO_WAIT ty t rl H = Inr (Abort, rl, H)) \<and>
         (\<forall>m\<in>#G. \<exists>rl'. lock_release NO_WAIT t rl H = Inr (RCOK, rl', H, []) \<and> nw_sim rl' (G - {#m#}))"
  using nw_sim_grant [OF assms(1) _ assms(2,3)] nw_sim_release [OF assms(1)] nw_sim_compatible [OF assms(1)]
  by (auto simp: lock_get_def lock_get_conflict_simps)

theorem no_wait_refines_rw_lock_witness:
  "(\<exists>rl'. lock_get NO_WAIT LOCK_EX 3 row_lock_init sample_txns = Inr (RCOK, rl', sample_txns) \<and>
          nw_sim rl' {#LOCK_EX#})"
  using no_wait_refines_rw_lock [of row_lock_init "{#}" LOCK_EX 3 sample_txns]
  by (simp add: nw_sim_def row_lock_init_def rw_compatible_def)

text \<open>
  A release by an owner never fails while the queued transactions are not marked ready;
  it removes the owner's entry, hands the row to a prefix of the queue in queue order, and leaves
  the rest of the queue as it was, blocked by the new mode.
\<close>

theorem lock_release_grants_prefix:
  assumes inv: "rl_inv alg H rl" and alg: "alg \<noteq> NO_WAIT" and rec: "\<not> lt_recon (H t)"
    and own: "t \<in> le_txn ` set (owners rl)"
    and ready: "distinct (map le_txn (waiters rl))" "\<forall>w\<in>set (waiters rl). \<not> lt_lock_ready (H (le_txn w))"
  shows "\<exists>rl' H' rs gs. lock_release alg t rl H = Inr (RCOK, rl', H', rs) \<and>
    waiters rl = gs @ waiters rl' \<and>
    owners rl' = rev gs @ remove_first (\<lambda>e. le_txn e = t) (owners rl) \<and> rl_inv alg H' rl'"
proof -
  obtain e es where ex: "extract_first (\<lambda>en. le_txn en = t) (owners rl) = Some (e, es)"
    using own extract_first_None_iff [of "\<lambda>en. le_txn en = t" "owners rl"] by fastforce
  define rl1 where "rl1 = rl\<lparr>owners := es, owner_cnt := owner_cnt rl - 1,
     lock_type := (if owner_cnt rl - 1 = 0 then LOCK_NONE else lock_type rl)\<rparr>"
  have rel: "release_owner alg t rl = Inr rl1"
    using ex alg by (simp add: release_owner_def rl1_def Let_def)
  obtain rl' H' rs where gr: "grant_waiters alg (waiters rl1) rl1 H [] = Inr (rl', H', rs)"
    using grant_waiters_total [OF ready, of alg rl1 "[]"] by (auto simp: rl1_def)
  have run: "lock_release alg t rl H = Inr (RCOK, rl', H', rs)"
    using rec rel gr by (simp add: lock_release_def assert_that_def rl1_def)
  obtain gs where "waiters rl = gs @ waiters rl'" "owners rl' = rev gs @ es"
    using grant_waiters_prefix [OF gr alg] by (auto simp: rl1_def)
  then show ?thesis
    using run ex lock_release_inv [OF inv alg run] by (auto simp: remove_first_def)
qed

theorem lock_release_grants_prefix_witness:
  "\<exists>rl' H' rs gs.
     lock_release WAIT_DIE 7 (ls_row sample_waiting 0) (ls_txns sample_waiting) = Inr (RCOK, rl', H', rs) \<and>
     waiters (ls_row sample_waiting 0) = gs @ waiters rl' \<and>
     owners rl' = rev gs @ remove_first (\<lambda>e. le_txn e = 7) (owners (ls_row sample_waiting 0)) \<and>
     rl_inv WAIT_DIE H' rl'"
proof -
  have "rl_inv WAIT_DIE (ls_txns sample_waiting) (ls_row sample_waiting 0)"
    using lock_reach_inv [OF sample_waiting_reach] by (simp add: lock_sys_inv_def)
  then show ?thesis
    by (rule lock_release_grants_prefix)
      (simp_all add: sample_waiting_def get_entry_def start_wait_def incr_lr_def sample_txns_def)
qed

end
