(* ===== verification/VersionChain.thy ===== *)
theory VersionChain
imports Interfaces
begin

text \<open>
  The version histories that \<open>Row_mvcc\<close>, \<open>Row_ssi\<close> and \<open>Row_wsi\<close> keep with the same code
  (\<open>insert_history\<close>, \<open>clear_history\<close>, the version search of a read and the recycling at the end
  of \<open>access\<close>): doubly linked lists in descending timestamp order over a base row. The contents
  of a row are a type parameter; \<open>None\<close> is the null row pointer of read-history entries.
\<close>

section \<open>Data\<close>

record 'r his_entry =
  he_ts :: ts_t
  he_row :: "'r option"

record ('r, 'z) version_row =
  vr_row :: 'r
  readhis :: "('r, 'z) his_entry_scheme list"
  writehis :: "('r, 'z) his_entry_scheme list"
  whis_len :: "64 word"
  rhis_len :: "64 word"

text \<open>The limits of \<open>config.h\<close>, as the globals that hold them.\<close>

record his_cfg =
  g_max_read_req :: "64 word"
  g_max_pre_req :: "64 word"
  g_his_recycle_len :: "64 word"

section \<open>Operations\<close>

text \<open>\<open>while (whis != NULL && whis->ts > ts) whis = whis->next;\<close>\<close>

fun his_find :: "ts_t \<Rightarrow> ('r, 'z) his_entry_scheme list \<Rightarrow> ('r, 'z) his_entry_scheme option" where
  "his_find ts [] = None"
| "his_find ts (h # hs) = (if he_ts h > ts then his_find ts hs else Some h)"

definition version_read :: "('r, 'z, 'y) version_row_scheme \<Rightarrow> ts_t \<Rightarrow> 'r option" where
  "version_read v ts = (case his_find ts (writehis v) of None \<Rightarrow> Some (vr_row v) | Some h \<Rightarrow> he_row h)"

definition his_insert ::
  "('r, 'z) his_entry_scheme \<Rightarrow> ('r, 'z) his_entry_scheme list \<Rightarrow> ('r, 'z) his_entry_scheme list" where
  "his_insert e q = insert_before (\<lambda>h. he_ts e < he_ts h) e q"

definition insert_writehis ::
  "('r, 'z) his_entry_scheme \<Rightarrow> ('r, 'z, 'y) version_row_scheme \<Rightarrow> ('r, 'z, 'y) version_row_scheme" where
  "insert_writehis e v = v\<lparr>writehis := his_insert e (writehis v), whis_len := whis_len v + 1\<rparr>"

definition insert_readhis ::
  "('r, 'z) his_entry_scheme \<Rightarrow> ('r, 'z, 'y) version_row_scheme \<Rightarrow> ('r, 'z, 'y) version_row_scheme" where
  "insert_readhis e v = v\<lparr>readhis := his_insert e (readhis v), rhis_len := rhis_len v + 1\<rparr>"

definition insert_history ::
  "('r, 'z) his_entry_scheme \<Rightarrow> ('r, 'z, 'y) version_row_scheme \<Rightarrow> ('r, 'z, 'y) version_row_scheme" where
  "insert_history e v = (if he_row e \<noteq> None then insert_writehis e v else insert_readhis e v)"

text \<open>
  The loop of \<open>clear_history\<close>, on the list read from its tail: drop the last entry while the one
  before it is older than the threshold; return the row of the last entry dropped.
\<close>

fun clear_loop ::
  "ts_t \<Rightarrow> ('r, 'z) his_entry_scheme list \<Rightarrow> 'r option \<Rightarrow>
   (('r, 'z) his_entry_scheme list \<times> 'r option) result" where
  "clear_loop ts (h # p # hs) row =
    (if he_ts p < ts then
       (if he_ts p \<ge> he_ts h then clear_loop ts (p # hs) (he_row h) else Inl Assert_failed)
     else Inr (h # p # hs, row))"
| "clear_loop ts [h] row = Inr ([h], row)"
| "clear_loop ts [] row = Inr ([], row)"

fun clear_history ::
  "TsType \<Rightarrow> ts_t \<Rightarrow> ('r, 'z, 'y) version_row_scheme \<Rightarrow>
   (('r, 'z, 'y) version_row_scheme \<times> 'r option) result" where
  "clear_history R_REQ ts v =
    bind_result (clear_loop ts (rev (readhis v)) None) (\<lambda>(hs, row).
      Inr (v\<lparr>readhis := rev hs,
             rhis_len := rhis_len v - of_nat (length (readhis v) - length hs)\<rparr>, row))"
| "clear_history W_REQ ts v =
    bind_result (clear_loop ts (rev (writehis v)) None) (\<lambda>(hs, row).
      Inr (v\<lparr>writehis := rev hs,
             whis_len := whis_len v - of_nat (length (writehis v) - length hs)\<rparr>, row))"
| "clear_history _ ts v = Inl Assert_failed"

text \<open>The end of \<open>access\<close>: recycle the histories when one of them is longer than allowed.\<close>

definition recycle_reads ::
  "ts_t \<Rightarrow> ('r, 'z, 'y) version_row_scheme \<Rightarrow> ('r, 'z, 'y) version_row_scheme result" where
  "recycle_reads t_th v =
    (if readhis v \<noteq> [] \<and> he_ts (last (readhis v)) < t_th then
       bind_result (clear_history R_REQ t_th v) (\<lambda>(v', _). Inr v')
     else Inr v)"

definition recycle_writes ::
  "ts_t \<Rightarrow> ('r, 'z, 'y) version_row_scheme \<Rightarrow> ('r, 'z, 'y) version_row_scheme result" where
  "recycle_writes t_th v =
    (if whis_len v > 1 then
       (case rev (writehis v) of
          h # p # hs \<Rightarrow>
            if he_ts p < t_th then
              bind_result (clear_history W_REQ t_th v) (\<lambda>(v', latest).
                Inr (case latest of None \<Rightarrow> v' | Some r \<Rightarrow> v'\<lparr>vr_row := r\<rparr>))
            else Inr v
        | _ \<Rightarrow> Inl Null_deref)
     else Inr v)"

definition recycle ::
  "64 word \<Rightarrow> ts_t \<Rightarrow> ('r, 'z, 'y) version_row_scheme \<Rightarrow> ('r, 'z, 'y) version_row_scheme result" where
  "recycle max_len t_th v =
    (if whis_len v > max_len \<or> rhis_len v > max_len then
       bind_result (recycle_reads t_th v) (recycle_writes t_th)
     else Inr v)"

section \<open>Invariant\<close>

definition his_sorted :: "('r, 'z) his_entry_scheme list \<Rightarrow> bool" where
  "his_sorted q \<longleftrightarrow> sorted_wrt (\<lambda>a b. he_ts b \<le> he_ts a) q"

definition version_inv :: "('r, 'z, 'y) version_row_scheme \<Rightarrow> bool" where
  "version_inv v \<longleftrightarrow>
     his_sorted (readhis v) \<and> his_sorted (writehis v) \<and>
     whis_len v = of_nat (length (writehis v)) \<and> rhis_len v = of_nat (length (readhis v)) \<and>
     (\<forall>h\<in>set (writehis v). he_row h \<noteq> None) \<and> (\<forall>h\<in>set (readhis v). he_row h = None)"

lemma his_sorted_insert: "his_sorted q \<Longrightarrow> his_sorted (his_insert e q)"
  unfolding his_sorted_def his_insert_def
  by (rule sorted_wrt_insert_before) (auto simp: transp_def)

lemma set_his_insert [simp]: "set (his_insert e q) = insert e (set q)"
  by (simp add: his_insert_def)

lemma length_his_insert [simp]: "length (his_insert e q) = Suc (length q)"
  by (simp add: his_insert_def)

lemma version_inv_insert_writehis:
  "version_inv v \<Longrightarrow> he_row e \<noteq> None \<Longrightarrow> version_inv (insert_writehis e v)"
  by (auto simp: version_inv_def insert_writehis_def his_sorted_insert)

lemma version_inv_insert_readhis:
  "version_inv v \<Longrightarrow> he_row e = None \<Longrightarrow> version_inv (insert_readhis e v)"
  by (auto simp: version_inv_def insert_readhis_def his_sorted_insert)

lemma version_inv_insert_history: "version_inv v \<Longrightarrow> version_inv (insert_history e v)"
  by (simp add: insert_history_def version_inv_insert_writehis version_inv_insert_readhis)

section \<open>What a read finds\<close>

lemma his_find_None_iff: "his_find ts q = None \<longleftrightarrow> (\<forall>h\<in>set q. ts < he_ts h)"
  by (induction q) auto

lemma his_find_Some:
  assumes "his_sorted q" "his_find ts q = Some h"
  shows "h \<in> set q \<and> he_ts h \<le> ts \<and> (\<forall>g\<in>set q. he_ts g \<le> ts \<longrightarrow> he_ts g \<le> he_ts h)"
  using assms by (induction q) (auto simp: his_sorted_def split: if_splits)

lemma his_find_append:
  "his_find ts (p @ q) = (case his_find ts p of None \<Rightarrow> his_find ts q | Some h \<Rightarrow> Some h)"
  by (induction p) auto

lemma his_find_insert:
  assumes "his_sorted q"
  shows "his_find ts (his_insert e q) =
    (if he_ts e \<le> ts \<and> (\<forall>g\<in>set q. he_ts g \<le> ts \<longrightarrow> he_ts g \<le> he_ts e) then Some e else his_find ts q)"
  using assms
proof (induction q)
  case (Cons h hs)
  have tl: "his_sorted hs" and hd: "\<forall>g\<in>set hs. he_ts g \<le> he_ts h"
    using Cons.prems by (simp_all add: his_sorted_def)
  show ?case
  proof (cases "he_ts e < he_ts h")
    case True
    then have "his_insert e (h # hs) = h # his_insert e hs" by (simp add: his_insert_def)
    with True Cons.IH [OF tl] show ?thesis by auto
  next
    case False
    then have "his_insert e (h # hs) = e # h # hs" by (simp add: his_insert_def)
    moreover have "\<forall>g\<in>set (h # hs). he_ts g \<le> he_ts e" using False hd by fastforce
    ultimately show ?thesis by (auto simp: not_less)
  qed
qed (auto simp: his_insert_def not_less)

lemma his_find_insert_later: "ts < he_ts e \<Longrightarrow> his_find ts (his_insert e q) = his_find ts q"
  unfolding his_insert_def by (induction q) auto


section \<open>Recycling\<close>

text \<open>
  On a sorted list (oldest first here) the loop never trips its assertion; it drops a prefix,
  keeps at least one entry, and if it drops anything then the oldest entry kept is below the
  threshold.
\<close>

lemma clear_loop_spec:
  assumes "sorted_wrt (\<lambda>a b. he_ts a \<le> he_ts b) hs"
  shows "\<exists>rem keep. clear_loop ts hs row = Inr (keep, if rem = [] then row else he_row (last rem)) \<and>
    hs = rem @ keep \<and> (rem \<noteq> [] \<longrightarrow> keep \<noteq> [] \<and> he_ts (hd keep) < ts) \<and>
    (\<forall>h\<in>set (tl keep). ts \<le> he_ts h)"
  using assms
proof (induction ts hs row rule: clear_loop.induct)
  case (1 ts h p hs row)
  show ?case
  proof (cases "he_ts p < ts")
    case True
    have "he_ts h \<le> he_ts p" "sorted_wrt (\<lambda>a b. he_ts a \<le> he_ts b) (p # hs)" using 1(2) by simp_all
    from 1(1) [OF True this] obtain rem keep where IH:
      "clear_loop ts (p # hs) (he_row h) = Inr (keep, if rem = [] then he_row h else he_row (last rem))"
      "p # hs = rem @ keep" "rem \<noteq> [] \<longrightarrow> keep \<noteq> [] \<and> he_ts (hd keep) < ts"
      "\<forall>h\<in>set (tl keep). ts \<le> he_ts h"
      by blast
    have "clear_loop ts (h # p # hs) row =
        Inr (keep, if h # rem = [] then row else he_row (last (h # rem)))"
      using True 1(2) IH(1) by simp
    moreover have "keep \<noteq> [] \<and> he_ts (hd keep) < ts"
      using IH(2,3) True by (cases rem) auto
    ultimately show ?thesis
      using IH(2,4) by (intro exI [of _ "h # rem"] exI [of _ keep]) simp
  next
    case False
    with 1(2) have "\<forall>g\<in>set (p # hs). ts \<le> he_ts g" by (auto simp: not_less)
    with False show ?thesis by (intro exI [of _ "[]"] exI [of _ "h # p # hs"]) simp
  qed
qed auto

lemma clear_history_spec:
  assumes "his_sorted q"
  shows "\<exists>keep rem. clear_loop ts (rev q) None = Inr (rev keep, if rem = [] then None else he_row (hd rem)) \<and>
    q = keep @ rem \<and> (rem \<noteq> [] \<longrightarrow> keep \<noteq> [] \<and> he_ts (last keep) < ts) \<and>
    (\<forall>h\<in>set (butlast keep). ts \<le> he_ts h)"
proof -
  have "sorted_wrt (\<lambda>a b. he_ts a \<le> he_ts b) (rev q)"
    using assms by (simp add: his_sorted_def sorted_wrt_rev)
  then obtain rem keep where r:
    "clear_loop ts (rev q) None = Inr (keep, if rem = [] then None else he_row (last rem))"
    "rev q = rem @ keep" "rem \<noteq> [] \<longrightarrow> keep \<noteq> [] \<and> he_ts (hd keep) < ts" "\<forall>h\<in>set (tl keep). ts \<le> he_ts h"
    using clear_loop_spec [of "rev q" ts None] by blast
  have "q = rev keep @ rev rem" using r(2) by (metis rev_append rev_rev_ident)
  moreover have "set (butlast (rev keep)) = set (tl keep)"
    by (cases keep) auto
  ultimately show ?thesis
    using r by (intro exI [of _ "rev keep"] exI [of _ "rev rem"]) (auto simp: hd_rev last_rev)
qed

lemma recycle_reads_spec:
  assumes "version_inv v"
  shows "\<exists>keep rem. recycle_reads t_th v =
      Inr (v\<lparr>readhis := keep, rhis_len := of_nat (length keep)\<rparr>) \<and> readhis v = keep @ rem \<and>
      (\<forall>h\<in>set rem. he_ts h < t_th)"
proof (cases "readhis v \<noteq> [] \<and> he_ts (last (readhis v)) < t_th")
  case True
  have sorted: "his_sorted (readhis v)" using assms by (simp add: version_inv_def)
  then obtain keep rem where k:
    "clear_loop t_th (rev (readhis v)) None = Inr (rev keep, if rem = [] then None else he_row (hd rem))"
    "readhis v = keep @ rem" "rem \<noteq> [] \<longrightarrow> keep \<noteq> [] \<and> he_ts (last keep) < t_th"
    using clear_history_spec by blast
  have "\<forall>h\<in>set rem. he_ts h < t_th"
  proof
    fix h assume "h \<in> set rem"
    then have "keep \<noteq> []" "he_ts (last keep) < t_th" "he_ts h \<le> he_ts (last keep)"
      using k(2,3) sorted by (auto simp: his_sorted_def sorted_wrt_append)
    then show "he_ts h < t_th" by simp
  qed
  moreover have "recycle_reads t_th v = Inr (v\<lparr>readhis := keep, rhis_len := of_nat (length keep)\<rparr>)"
    using True k(1,2) assms by (simp add: recycle_reads_def version_inv_def)
  ultimately show ?thesis using k(2) by blast
next
  case False
  then have "recycle_reads t_th v = Inr (v\<lparr>readhis := readhis v, rhis_len := of_nat (length (readhis v))\<rparr>)"
    using assms by (auto simp: recycle_reads_def version_inv_def simp del: clear_history.simps)
  then show ?thesis by force
qed


lemma of_nat_gt_1:
  assumes "(1 :: 64 word) < of_nat n"
  shows "2 \<le> n"
proof -
  have "unat (1 :: 64 word) < unat (of_nat n :: 64 word)"
    using assms by (simp only: word_less_nat_alt)
  also have "\<dots> \<le> n" by (simp only: unat_of_nat mod_less_eq_dividend)
  finally show ?thesis by simp
qed

lemma his_find_drop_old:
  assumes "keep \<noteq> []" "he_ts (last keep) < t_th" "t_th \<le> u"
  shows "his_find u (keep @ rem) = his_find u keep"
proof -
  have "he_ts (last keep) \<le> u" using assms(2,3) by simp
  then have "his_find u keep \<noteq> None"
    using last_in_set [OF assms(1)] by (auto simp: his_find_None_iff not_less)
  then show ?thesis by (auto simp: his_find_append)
qed

text \<open>
  Recycling the write history keeps every version at or above the threshold and the newest one
  below it; the base row becomes the newest version dropped.
\<close>

lemma recycle_writes_spec:
  assumes inv: "version_inv v"
  shows "\<exists>keep rem base. recycle_writes t_th v =
      Inr (v\<lparr>writehis := keep, whis_len := of_nat (length keep), vr_row := base\<rparr>) \<and>
      writehis v = keep @ rem \<and> (rem \<noteq> [] \<longrightarrow> keep \<noteq> [] \<and> he_ts (last keep) < t_th) \<and>
      Some base = (if rem = [] then Some (vr_row v) else he_row (hd rem))"
    (is "\<exists>keep rem base. ?P keep rem base")
proof -
  have len: "whis_len v = of_nat (length (writehis v))" using inv by (simp add: version_inv_def)
  have same: "?P (writehis v) [] (vr_row v)" if "recycle_writes t_th v = Inr v"
    using that len by simp
  show ?thesis
  proof (cases "whis_len v > 1")
    case False
    then have "recycle_writes t_th v = Inr v" by (simp add: recycle_writes_def)
    from same [OF this] show ?thesis by blast
  next
    case True
    then have "(1 :: 64 word) < of_nat (length (writehis v))" using len by simp
    then have "2 \<le> length (rev (writehis v))" unfolding length_rev by (rule of_nat_gt_1)
    then obtain h p hs where r: "rev (writehis v) = h # p # hs"
      by (metis Suc_le_length_iff numeral_2_eq_2)
    show ?thesis
    proof (cases "he_ts p < t_th")
      case False
      then have "recycle_writes t_th v = Inr v" using r by (simp add: recycle_writes_def)
      from same [OF this] show ?thesis by blast
    next
      case old: True
      obtain keep rem where k:
        "clear_loop t_th (rev (writehis v)) None = Inr (rev keep, if rem = [] then None else he_row (hd rem))"
        "writehis v = keep @ rem" "rem \<noteq> [] \<longrightarrow> keep \<noteq> [] \<and> he_ts (last keep) < t_th"
        using clear_history_spec inv unfolding version_inv_def by blast
      obtain base where base: "Some base = (if rem = [] then Some (vr_row v) else he_row (hd rem))"
        using inv k(2) unfolding version_inv_def by (cases rem) auto
      have "clear_history W_REQ t_th v = Inr (v\<lparr>writehis := keep, whis_len := of_nat (length keep)\<rparr>,
          if rem = [] then None else he_row (hd rem))"
        using k len by simp
      then have "recycle_writes t_th v =
          Inr (v\<lparr>writehis := keep, whis_len := of_nat (length keep), vr_row := base\<rparr>)"
        using True old r base [symmetric] by (cases "rem = []") (simp_all add: recycle_writes_def del: clear_history.simps)
      with k(2,3) base show ?thesis by blast
    qed
  qed
qed

lemma recycle_spec:
  assumes "version_inv v"
  shows "\<exists>wkeep wrem rkeep rrem base. recycle len t_th v =
      Inr (v\<lparr>readhis := rkeep, rhis_len := of_nat (length rkeep),
             writehis := wkeep, whis_len := of_nat (length wkeep), vr_row := base\<rparr>) \<and>
      readhis v = rkeep @ rrem \<and> (\<forall>h\<in>set rrem. he_ts h < t_th) \<and>
      writehis v = wkeep @ wrem \<and> (wrem \<noteq> [] \<longrightarrow> wkeep \<noteq> [] \<and> he_ts (last wkeep) < t_th) \<and>
      Some base = (if wrem = [] then Some (vr_row v) else he_row (hd wrem))"
proof (cases "whis_len v > len \<or> rhis_len v > len")
  case False
  then have "recycle len t_th v = Inr (v\<lparr>readhis := readhis v, rhis_len := of_nat (length (readhis v)),
      writehis := writehis v, whis_len := of_nat (length (writehis v)), vr_row := vr_row v\<rparr>)"
    using assms by (simp add: recycle_def version_inv_def)
  then show ?thesis
    by (intro exI [of _ "writehis v"] exI [of _ "[]"] exI [of _ "readhis v"] exI [of _ "vr_row v"]) simp
next
  case True
  obtain rkeep rrem where r: "recycle_reads t_th v = Inr (v\<lparr>readhis := rkeep, rhis_len := of_nat (length rkeep)\<rparr>)"
    "readhis v = rkeep @ rrem" "\<forall>h\<in>set rrem. he_ts h < t_th"
    using recycle_reads_spec [OF assms] by blast
  define v1 where "v1 = v\<lparr>readhis := rkeep, rhis_len := of_nat (length rkeep)\<rparr>"
  have "version_inv v1"
    using assms r(2) by (auto simp: v1_def version_inv_def his_sorted_def sorted_wrt_append)
  then obtain keep rem base where w: "recycle_writes t_th v1 =
      Inr (v1\<lparr>writehis := keep, whis_len := of_nat (length keep), vr_row := base\<rparr>)"
      "writehis v1 = keep @ rem" "rem \<noteq> [] \<longrightarrow> keep \<noteq> [] \<and> he_ts (last keep) < t_th"
      "Some base = (if rem = [] then Some (vr_row v1) else he_row (hd rem))"
    using recycle_writes_spec by blast
  have "recycle len t_th v = recycle_writes t_th v1"
    using True r(1) by (simp add: recycle_def v1_def)
  with r w show ?thesis unfolding v1_def
    by (intro exI [of _ keep] exI [of _ rem] exI [of _ rkeep] exI [of _ rrem] exI [of _ base]) simp
qed

lemma recycle_inv:
  assumes "version_inv v" "recycle len t_th v = Inr v'"
  shows "version_inv v'"
  using recycle_spec [OF assms(1), of len t_th] assms
  by (auto simp: version_inv_def his_sorted_def sorted_wrt_append)

lemma recycle_read:
  assumes "version_inv v" "recycle len t_th v = Inr v'" "t_th \<le> u"
  shows "version_read v' u = version_read v u"
proof -
  obtain wkeep wrem rkeep base where r:
    "v' = v\<lparr>readhis := rkeep, rhis_len := of_nat (length rkeep),
             writehis := wkeep, whis_len := of_nat (length wkeep), vr_row := base\<rparr>"
    "writehis v = wkeep @ wrem" "wrem \<noteq> [] \<longrightarrow> wkeep \<noteq> [] \<and> he_ts (last wkeep) < t_th"
    "Some base = (if wrem = [] then Some (vr_row v) else he_row (hd wrem))"
    using recycle_spec [OF assms(1), of len t_th] assms(2) by auto
  show ?thesis
  proof (cases "wrem = []")
    case True
    with r show ?thesis by (simp add: version_read_def split: option.splits)
  next
    case False
    then have k: "wkeep \<noteq> []" "he_ts (last wkeep) < t_th" using r(3) by simp_all
    then have "he_ts (last wkeep) \<le> u" using assms(3) by simp
    then have "his_find u wkeep \<noteq> None"
      using last_in_set [OF k(1)] by (auto simp: his_find_None_iff not_less)
    moreover have "his_find u (writehis v) = his_find u wkeep"
      using his_find_drop_old [OF k assms(3)] r(2) by simp
    ultimately show ?thesis using r(1) by (auto simp: version_read_def)
  qed
qed

lemma version_read_insert_writehis:
  assumes "version_inv v"
  shows "version_read (insert_writehis e v) u =
    (if he_ts e \<le> u \<and> (\<forall>g\<in>set (writehis v). he_ts g \<le> u \<longrightarrow> he_ts g \<le> he_ts e) then he_row e
     else version_read v u)"
proof -
  have "his_sorted (writehis v)" using assms by (simp add: version_inv_def)
  from his_find_insert [OF this, of u e] show ?thesis
    by (auto simp: version_read_def insert_writehis_def split: option.splits)
qed

lemma version_read_insert_readhis [simp]: "version_read (insert_readhis e v) u = version_read v u"
  by (simp add: version_read_def insert_readhis_def split: option.splits)

text \<open>
  What a call does besides installing a version: it may record a read and may recycle.
\<close>

definition maintain ::
  "ts_t \<Rightarrow> ('r, 'z, 'y) version_row_scheme \<Rightarrow> ('r, 'z, 'y) version_row_scheme \<Rightarrow> bool" where
  "maintain t_th v v' \<longleftrightarrow>
     (\<exists>v1 len. (v1 = v \<or> (\<exists>e. he_row e = None \<and> v1 = insert_readhis e v)) \<and>
        (v' = v1 \<or> recycle len t_th v1 = Inr v'))"

lemma maintain_inv: "version_inv v \<Longrightarrow> maintain t_th v v' \<Longrightarrow> version_inv v'"
  by (auto simp: maintain_def version_inv_insert_readhis intro: recycle_inv
      recycle_inv [OF version_inv_insert_readhis])

lemma maintain_read:
  assumes "version_inv v" "maintain t_th v v'" "t_th \<le> u"
  shows "version_read v' u = version_read v u"
proof -
  from assms(2) obtain v1 len where v1: "v1 = v \<or> (\<exists>e. he_row e = None \<and> v1 = insert_readhis e v)"
    "v' = v1 \<or> recycle len t_th v1 = Inr v'" by (auto simp: maintain_def)
  have i: "version_inv v1" and r: "version_read v1 u = version_read v u"
    using v1(1) assms(1) by (auto simp: version_inv_insert_readhis)
  show ?thesis using v1(2) r recycle_read [OF i _ assms(3)] by metis
qed

interpretation vc: version_store version_inv "\<lambda>e. he_row e \<noteq> None" he_ts he_row version_read
  insert_writehis maintain
proof
  show "version_read (insert_writehis e v) (he_ts e) = he_row e" if "version_inv v"
    for v :: "('a, 'b, 'c) version_row_scheme" and e
    using that by (simp add: version_read_insert_writehis)
qed (auto simp: version_inv_insert_writehis version_read_insert_writehis intro: maintain_inv maintain_read)

section \<open>The version store inside a row manager\<close>

text \<open>
  The row managers extend \<open>version_row\<close> with request queues and locks; \<open>vpart\<close> forgets these.
\<close>

definition vpart :: "('r, 'z, 'y) version_row_scheme \<Rightarrow> ('r, 'z) version_row" where
  "vpart v = \<lparr>vr_row = vr_row v, readhis = readhis v, writehis = writehis v,
     whis_len = whis_len v, rhis_len = rhis_len v\<rparr>"

lemma vpart_fields [simp]:
  "vr_row (vpart v) = vr_row v" "readhis (vpart v) = readhis v" "writehis (vpart v) = writehis v"
  "whis_len (vpart v) = whis_len v" "rhis_len (vpart v) = rhis_len v"
  by (simp_all add: vpart_def)

lemma version_inv_vpart [simp]: "version_inv (vpart v) = version_inv v"
  by (simp add: version_inv_def)

lemma version_read_vpart [simp]: "version_read (vpart v) = version_read v"
  by (simp add: version_read_def fun_eq_iff split: option.splits)

lemma vpart_insert_writehis: "vpart (insert_writehis e v) = insert_writehis e (vpart v)"
  by (simp add: insert_writehis_def vpart_def)

lemma vpart_insert_readhis: "vpart (insert_readhis e v) = insert_readhis e (vpart v)"
  by (simp add: insert_readhis_def vpart_def)

lemma vpart_recycle:
  assumes "version_inv v" "recycle len t_th v = Inr v'"
  shows "recycle len t_th (vpart v) = Inr (vpart v')"
proof -
  have rd: "recycle_reads t_th (vpart w) = (case recycle_reads t_th w of Inl e \<Rightarrow> Inl e | Inr w' \<Rightarrow> Inr (vpart w'))"
    for w :: "('a, 'b, 'c) version_row_scheme"
    by (auto simp: recycle_reads_def bind_result_def vpart_def split: sum.splits)
  have wr: "recycle_writes t_th (vpart w) = (case recycle_writes t_th w of Inl e \<Rightarrow> Inl e | Inr w' \<Rightarrow> Inr (vpart w'))"
    for w :: "('a, 'b, 'c) version_row_scheme"
    by (auto simp: recycle_writes_def bind_result_def vpart_def split: sum.splits list.splits option.splits)
  show ?thesis
    using assms(2) by (auto simp: recycle_def rd wr bind_result_Inr_iff split: if_splits)
qed


text \<open>The end of a call, seen through \<open>vpart\<close>.\<close>

lemma maintain_vpart:
  assumes "version_inv v" "recycle len t_th v = Inr v'"
  shows "maintain t_th (vpart v) (vpart v')"
  using vpart_recycle [OF assms] by (auto simp: maintain_def)

lemma maintain_vpart_read:
  assumes "version_inv v" "he_row e = None" "recycle len t_th (insert_readhis e v) = Inr v'"
  shows "maintain t_th (vpart v) (vpart v')"
  using vpart_recycle [OF _ assms(3)] assms(1,2)
  by (auto simp: maintain_def version_inv_insert_readhis vpart_insert_readhis)

lemma maintain_refl: "maintain t_th v v"
  by (auto simp: maintain_def)

end
