(* ===== verification/RowMvcc.thy ===== *)
theory RowMvcc
imports VersionChain
begin

text \<open>
  Multi-version timestamp ordering, \<open>Row_mvcc\<close> of \<open>concurrency_control/row_mvcc.{h,cpp}\<close> (the
  \<open>access\<close> that is compiled, not the one under \<open>#if 0\<close>). A call runs under the row latch. The
  threshold that \<open>glob_manager.get_min_ts\<close> returns is an argument of \<open>access\<close>, since it depends
  on the transaction table. Assertions about table names and schemas, which compare a version
  with the row it is a version of, and statistics are left out.
\<close>

section \<open>Data\<close>

type_synonym mv_txn_ref = "64 word"

record MVReqEntry =
  mq_txn :: mv_txn_ref
  mq_ts :: ts_t

record 'r Row_mvcc = "('r, unit) version_row" +
  readreq_mvcc :: "MVReqEntry list"
  prereq_mvcc :: "MVReqEntry list"
  rreq_len :: "64 word"
  preq_len :: "64 word"

record 'r mv_txn =
  mt_timestamp :: ts_t
  mt_cur_row :: "'r option"
  mt_ts_ready :: bool

type_synonym 'r mv_txns = "mv_txn_ref \<Rightarrow> 'r mv_txn"

section \<open>Operations\<close>

definition mvcc_init :: "'r \<Rightarrow> 'r Row_mvcc" where
  "mvcc_init row = \<lparr>vr_row = row, readhis = [], writehis = [], whis_len = 0, rhis_len = 0,
     readreq_mvcc = [], prereq_mvcc = [], rreq_len = 0, preq_len = 0\<rparr>"

definition mvcc_clear_history :: "TsType \<Rightarrow> ts_t \<Rightarrow> 'r Row_mvcc \<Rightarrow> ('r Row_mvcc \<times> 'r option) result" where
  "mvcc_clear_history type ts m = clear_history type ts m"

definition mvcc_insert_history :: "ts_t \<Rightarrow> 'r option \<Rightarrow> 'r Row_mvcc \<Rightarrow> 'r Row_mvcc" where
  "mvcc_insert_history ts row m = insert_history \<lparr>he_ts = ts, he_row = row\<rparr> m"

fun mvcc_buffer_req :: "TsType \<Rightarrow> mv_txn_ref \<Rightarrow> ts_t \<Rightarrow> 'r Row_mvcc \<Rightarrow> 'r Row_mvcc" where
  "mvcc_buffer_req R_REQ t ts m =
    m\<lparr>rreq_len := rreq_len m + 1, readreq_mvcc := \<lparr>mq_txn = t, mq_ts = ts\<rparr> # readreq_mvcc m\<rparr>"
| "mvcc_buffer_req P_REQ t ts m =
    m\<lparr>preq_len := preq_len m + 1, prereq_mvcc := \<lparr>mq_txn = t, mq_ts = ts\<rparr> # prereq_mvcc m\<rparr>"
| "mvcc_buffer_req _ t ts m = m"

text \<open>\<open>debuffer_req(P_REQ, txn)\<close>: unlink the first prewrite of the transaction.\<close>

definition debuffer_prewrite :: "mv_txn_ref \<Rightarrow> 'r Row_mvcc \<Rightarrow> 'r Row_mvcc result" where
  "debuffer_prewrite t m =
    (case extract_first (\<lambda>q. mq_txn q = t) (prereq_mvcc m) of
       None \<Rightarrow> Inl Assert_failed
     | Some (_, qs) \<Rightarrow> Inr (m\<lparr>prereq_mvcc := qs, preq_len := preq_len m - 1\<rparr>))"

text \<open>\<open>debuffer_req(R_REQ, NULL)\<close>: unlink every read not above the smallest pending prewrite.\<close>

fun min_pts :: "MVReqEntry list \<Rightarrow> ts_t \<Rightarrow> ts_t" where
  "min_pts [] m = m"
| "min_pts (q # qs) m = min_pts qs (if mq_ts q < m then mq_ts q else m)"

fun debuffer_loop :: "ts_t \<Rightarrow> MVReqEntry list \<Rightarrow> MVReqEntry list \<Rightarrow> MVReqEntry list \<times> MVReqEntry list" where
  "debuffer_loop mp [] ret = ([], ret)"
| "debuffer_loop mp (q # qs) ret =
    (if mq_ts q \<le> mp then debuffer_loop mp qs (q # ret)
     else (let (rest, ret') = debuffer_loop mp qs ret in (q # rest, ret')))"

definition debuffer_reads :: "'r Row_mvcc \<Rightarrow> MVReqEntry list \<times> 'r Row_mvcc" where
  "debuffer_reads m =
    (let mp = min_pts (prereq_mvcc m) UINT64_MAX;
         (rest, ready) = debuffer_loop mp (readreq_mvcc m) []
     in (ready, m\<lparr>readreq_mvcc := rest, rreq_len := rreq_len m - of_nat (length ready)\<rparr>))"

text \<open>The scan of the write history that decides a conflict between \<open>pts\<close> and \<open>rts\<close>.\<close>

fun no_version_between :: "ts_t \<Rightarrow> ts_t \<Rightarrow> 'r his_entry list \<Rightarrow> bool" where
  "no_version_between pts rts [] = True"
| "no_version_between pts rts (h # hs) =
    (if he_ts h > pts then (if he_ts h < rts then False else no_version_between pts rts hs) else True)"

fun last_prewrite_before :: "ts_t \<Rightarrow> MVReqEntry list \<Rightarrow> ts_t \<Rightarrow> ts_t" where
  "last_prewrite_before ts [] pts = pts"
| "last_prewrite_before ts (q # qs) pts =
    last_prewrite_before ts qs (if mq_ts q < ts \<and> mq_ts q > pts then mq_ts q else pts)"

fun first_read_after :: "ts_t \<Rightarrow> 'r his_entry list \<Rightarrow> ts_t \<Rightarrow> ts_t" where
  "first_read_after ts [] rts = rts"
| "first_read_after ts (h # hs) rts = (if he_ts h > ts then first_read_after ts hs (he_ts h) else rts)"

definition mvcc_conflict_read :: "ts_t \<Rightarrow> 'r Row_mvcc \<Rightarrow> bool" where
  "mvcc_conflict_read ts m =
    (let pts = last_prewrite_before ts (prereq_mvcc m) 0
     in if pts = 0 then False else no_version_between pts ts (writehis m))"

definition mvcc_conflict_prewrite :: "ts_t \<Rightarrow> 'r Row_mvcc \<Rightarrow> bool" where
  "mvcc_conflict_prewrite ts m =
    (let rts = first_read_after ts (readhis m) 0
     in if rts = 0 then False else no_version_between ts rts (writehis m))"

text \<open>
  \<open>update_buffer\<close>: serve the released reads; the last component lists the transactions handed to
  \<open>restart_txn\<close>.
\<close>

fun serve_reads ::
  "MVReqEntry list \<Rightarrow> 'r Row_mvcc \<Rightarrow> 'r mv_txns \<Rightarrow> mv_txn_ref list \<Rightarrow>
   ('r Row_mvcc \<times> 'r mv_txns \<times> mv_txn_ref list) result" where
  "serve_reads [] m H rs = Inr (m, H, rs)"
| "serve_reads (q # qs) m H rs =
    (case version_read m (mq_ts q) of
       None \<Rightarrow> Inl Null_deref
     | Some row \<Rightarrow>
         serve_reads qs (mvcc_insert_history (mq_ts q) None m)
           (H(mq_txn q := (H (mq_txn q))\<lparr>mt_cur_row := Some row, mt_ts_ready := True\<rparr>))
           (rs @ [mq_txn q]))"

definition mvcc_update_buffer ::
  "'r Row_mvcc \<Rightarrow> 'r mv_txns \<Rightarrow> ('r Row_mvcc \<times> 'r mv_txns \<times> mv_txn_ref list) result" where
  "mvcc_update_buffer m H = (let (ready, m') = debuffer_reads m in serve_reads ready m' H [])"

definition mvcc_read ::
  "his_cfg \<Rightarrow> mv_txn_ref \<Rightarrow> 'r Row_mvcc \<Rightarrow> 'r mv_txns \<Rightarrow>
   (RC \<times> 'r Row_mvcc \<times> 'r mv_txns \<times> mv_txn_ref list) result" where
  "mvcc_read cfg t m H =
    (let ts = mt_timestamp (H t); conf = mvcc_conflict_read ts m in
     if conf \<and> rreq_len m < g_max_read_req cfg then
       Inr (WAIT, mvcc_buffer_req R_REQ t ts m, H(t := (H t)\<lparr>mt_ts_ready := False\<rparr>), [])
     else if conf then Inr (Abort, m, H, [])
     else
       (case version_read m ts of
          None \<Rightarrow> Inl Null_deref
        | Some row \<Rightarrow>
            Inr (RCOK, mvcc_insert_history ts None m, H(t := (H t)\<lparr>mt_cur_row := Some row\<rparr>), [])))"

definition mvcc_prewrite ::
  "his_cfg \<Rightarrow> mv_txn_ref \<Rightarrow> 'r Row_mvcc \<Rightarrow> 'r mv_txns \<Rightarrow>
   (RC \<times> 'r Row_mvcc \<times> 'r mv_txns \<times> mv_txn_ref list) result" where
  "mvcc_prewrite cfg t m H =
    (let ts = mt_timestamp (H t) in
     if mvcc_conflict_prewrite ts m then Inr (Abort, m, H, [])
     else if preq_len m < g_max_pre_req cfg then Inr (RCOK, mvcc_buffer_req P_REQ t ts m, H, [])
     else Inr (Abort, m, H, []))"

text \<open>The end of a prewrite, by commit (\<open>W_REQ\<close>, after the version is installed) or abort (\<open>XP_REQ\<close>).\<close>

definition mvcc_finish ::
  "mv_txn_ref \<Rightarrow> 'r Row_mvcc \<Rightarrow> 'r mv_txns \<Rightarrow>
   (RC \<times> 'r Row_mvcc \<times> 'r mv_txns \<times> mv_txn_ref list) result" where
  "mvcc_finish t m H =
    bind_result (debuffer_prewrite t m) (\<lambda>m1.
    bind_result (mvcc_update_buffer m1 H) (\<lambda>(m2, H2, rs). Inr (RCOK, m2, H2, rs)))"

definition mvcc_access ::
  "his_cfg \<Rightarrow> ts_t \<Rightarrow> mv_txn_ref \<Rightarrow> TsType \<Rightarrow> 'r option \<Rightarrow> 'r Row_mvcc \<Rightarrow> 'r mv_txns \<Rightarrow>
   (RC \<times> 'r Row_mvcc \<times> 'r mv_txns \<times> mv_txn_ref list) result" where
  "mvcc_access cfg t_th t type row m H =
    bind_result
      (case type of
         R_REQ \<Rightarrow> mvcc_read cfg t m H
       | P_REQ \<Rightarrow> mvcc_prewrite cfg t m H
       | W_REQ \<Rightarrow> mvcc_finish t (mvcc_insert_history (mt_timestamp (H t)) row m) H
       | XP_REQ \<Rightarrow> mvcc_finish t m H)
      (\<lambda>(rc, m1, H1, rs).
        if rc = RCOK then
          bind_result (recycle (g_his_recycle_len cfg) t_th m1) (\<lambda>m2. Inr (RCOK, m2, H1, rs))
        else Inr (rc, m1, H1, rs))"


section \<open>What the scans compute\<close>

lemma last_prewrite_before_spec:
  "pts \<le> last_prewrite_before ts qs pts \<and>
   (\<forall>q\<in>set qs. mq_ts q < ts \<longrightarrow> mq_ts q \<le> last_prewrite_before ts qs pts) \<and>
   (last_prewrite_before ts qs pts = pts \<or>
    (\<exists>q\<in>set qs. mq_ts q = last_prewrite_before ts qs pts \<and> mq_ts q < ts))"
proof (induction qs arbitrary: pts)
  case (Cons q qs)
  let ?p = "if mq_ts q < ts \<and> mq_ts q > pts then mq_ts q else pts"
  have p: "pts \<le> ?p" "mq_ts q < ts \<longrightarrow> mq_ts q \<le> ?p" by (auto simp: not_less)
  have "?p \<le> last_prewrite_before ts qs ?p" using Cons.IH by blast
  with p have "pts \<le> last_prewrite_before ts qs ?p"
    "mq_ts q < ts \<longrightarrow> mq_ts q \<le> last_prewrite_before ts qs ?p" by auto
  then show ?case using Cons.IH [of ?p] by (auto split: if_splits)
qed simp

lemma first_read_after_spec:
  assumes "his_sorted hs"
  shows "(\<forall>h\<in>set hs. ts < he_ts h \<longrightarrow> first_read_after ts hs rts \<le> he_ts h) \<and>
    (if \<exists>h\<in>set hs. ts < he_ts h then ts < first_read_after ts hs rts
     else first_read_after ts hs rts = rts)"
  using assms
proof (induction hs arbitrary: rts)
  case (Cons h hs)
  have tl: "his_sorted hs" and hd: "\<forall>g\<in>set hs. he_ts g \<le> he_ts h"
    using Cons.prems by (simp_all add: his_sorted_def)
  show ?case
  proof (cases "he_ts h > ts")
    case True
    have "first_read_after ts hs (he_ts h) \<le> he_ts h"
    proof (cases "\<exists>g\<in>set hs. ts < he_ts g")
      case True
      then obtain g where "g \<in> set hs" "ts < he_ts g" by blast
      with Cons.IH [OF tl, of "he_ts h"] hd show ?thesis by fastforce
    next
      case False
      with Cons.IH [OF tl, of "he_ts h"] show ?thesis by auto
    qed
    with True Cons.IH [OF tl, of "he_ts h"] show ?thesis by (auto split: if_splits)
  next
    case False
    with hd have "\<forall>g\<in>set (h # hs). \<not> ts < he_ts g" by fastforce
    with False show ?thesis by auto
  qed
qed simp

lemma no_version_between_iff:
  assumes "his_sorted hs"
  shows "no_version_between pts rts hs \<longleftrightarrow> \<not> (\<exists>w\<in>set hs. pts < he_ts w \<and> he_ts w < rts)"
  using assms
proof (induction hs)
  case (Cons h hs)
  then have tl: "his_sorted hs" and hd: "\<forall>g\<in>set hs. he_ts g \<le> he_ts h"
    by (simp_all add: his_sorted_def)
  show ?case
  proof (cases "he_ts h > pts")
    case True
    with Cons.IH [OF tl] show ?thesis by auto
  next
    case False
    have "\<not> pts < he_ts w" if "w \<in> set (h # hs)" for w
    proof -
      have "he_ts w \<le> he_ts h" using that hd by auto
      with False show ?thesis by (meson less_le_trans)
    qed
    with False show ?thesis by auto
  qed
qed simp

lemma min_pts_spec:
  "min_pts qs m \<le> m \<and> (\<forall>q\<in>set qs. min_pts qs m \<le> mq_ts q) \<and>
   (min_pts qs m = m \<or> (\<exists>q\<in>set qs. mq_ts q = min_pts qs m))"
proof (induction qs arbitrary: m)
  case (Cons q qs)
  let ?m = "if mq_ts q < m then mq_ts q else m"
  have "?m \<le> m" "?m \<le> mq_ts q" by (auto simp: not_less)
  moreover have "min_pts qs ?m \<le> ?m" using Cons.IH by blast
  ultimately have "min_pts qs ?m \<le> m" "min_pts qs ?m \<le> mq_ts q" by auto
  then show ?case using Cons.IH [of ?m] by (auto split: if_splits)
qed simp

lemma debuffer_loop_conv:
  "debuffer_loop mp qs ret = (filter (\<lambda>q. \<not> mq_ts q \<le> mp) qs, rev (filter (\<lambda>q. mq_ts q \<le> mp) qs) @ ret)"
  by (induction qs arbitrary: ret) simp_all

lemma version_read_Some: "version_inv v \<Longrightarrow> \<exists>r. version_read v ts = Some r"
  unfolding version_read_def version_inv_def
  by (auto split: option.splits dest: his_find_Some)

section \<open>Invariant\<close>

text \<open>
  A recorded read is protected from every pending prewrite with a smaller timestamp: some
  version lies strictly between the two, so installing the prewrite cannot change what was read.
\<close>

definition reads_protected :: "'r Row_mvcc \<Rightarrow> bool" where
  "reads_protected m \<longleftrightarrow>
     (\<forall>r\<in>set (readhis m). \<forall>p\<in>set (prereq_mvcc m). mq_ts p < he_ts r \<longrightarrow>
        (\<exists>w\<in>set (writehis m). mq_ts p < he_ts w \<and> he_ts w < he_ts r))"

text \<open>A buffered read is there for a reason: a pending prewrite with a smaller timestamp.\<close>

definition readers_blocked :: "'r Row_mvcc \<Rightarrow> bool" where
  "readers_blocked m \<longleftrightarrow>
     (\<forall>q\<in>set (readreq_mvcc m). \<exists>p\<in>set (prereq_mvcc m). mq_ts p < mq_ts q)"

definition mvcc_inv :: "'r mv_txns \<Rightarrow> 'r Row_mvcc \<Rightarrow> bool" where
  "mvcc_inv H m \<longleftrightarrow>
     version_inv m \<and> rreq_len m = of_nat (length (readreq_mvcc m)) \<and>
     preq_len m = of_nat (length (prereq_mvcc m)) \<and>
     (\<forall>p\<in>set (prereq_mvcc m). mq_ts p = mt_timestamp (H (mq_txn p)) \<and> 0 < mq_ts p) \<and>
     reads_protected m \<and> readers_blocked m"

lemma mvcc_inv_init: "mvcc_inv H (mvcc_init row)"
  by (simp add: mvcc_inv_def mvcc_init_def version_inv_def his_sorted_def reads_protected_def
      readers_blocked_def)

lemma conflict_read_False:
  assumes "version_inv m" "\<not> mvcc_conflict_read ts m" "p \<in> set (prereq_mvcc m)" "mq_ts p < ts" "0 < mq_ts p"
  shows "\<exists>w\<in>set (writehis m). mq_ts p < he_ts w \<and> he_ts w < ts"
proof -
  define pts where "pts = last_prewrite_before ts (prereq_mvcc m) 0"
  have le: "mq_ts p \<le> pts" using last_prewrite_before_spec assms(3,4) unfolding pts_def by blast
  with assms(5) have "pts \<noteq> 0" by auto
  with assms(1,2) obtain w where "w \<in> set (writehis m)" "pts < he_ts w" "he_ts w < ts"
    unfolding mvcc_conflict_read_def Let_def pts_def [symmetric]
    by (auto simp: no_version_between_iff version_inv_def)
  with le show ?thesis by (meson le_less_trans)
qed

lemma conflict_read_True:
  assumes "mvcc_conflict_read ts m"
  shows "\<exists>p\<in>set (prereq_mvcc m). mq_ts p < ts"
  using assms last_prewrite_before_spec [of 0 ts "prereq_mvcc m"]
  by (auto simp: mvcc_conflict_read_def Let_def split: if_splits)

lemma conflict_prewrite_False:
  assumes "version_inv m" "\<not> mvcc_conflict_prewrite ts m" "r \<in> set (readhis m)" "ts < he_ts r"
  shows "\<exists>w\<in>set (writehis m). ts < he_ts w \<and> he_ts w < he_ts r"
proof -
  define rts where "rts = first_read_after ts (readhis m) 0"
  have "his_sorted (readhis m)" using assms(1) by (simp add: version_inv_def)
  from first_read_after_spec [OF this, of ts 0] assms(3,4)
  have le: "rts \<le> he_ts r" and gt: "ts < rts" unfolding rts_def by (auto split: if_splits)
  from gt have "rts \<noteq> 0" by auto
  with assms(1,2) obtain w where "w \<in> set (writehis m)" "ts < he_ts w" "he_ts w < rts"
    unfolding mvcc_conflict_prewrite_def Let_def rts_def [symmetric]
    by (auto simp: no_version_between_iff version_inv_def)
  with le show ?thesis by (meson less_le_trans)
qed


section \<open>Steps\<close>

lemma mvcc_insert_read_fields [simp]:
  "writehis (mvcc_insert_history ts None m) = writehis m"
  "set (readhis (mvcc_insert_history ts None m)) = insert \<lparr>he_ts = ts, he_row = None\<rparr> (set (readhis m))"
  "prereq_mvcc (mvcc_insert_history ts None m) = prereq_mvcc m"
  "readreq_mvcc (mvcc_insert_history ts None m) = readreq_mvcc m"
  "rreq_len (mvcc_insert_history ts None m) = rreq_len m"
  "preq_len (mvcc_insert_history ts None m) = preq_len m"
  by (simp_all add: mvcc_insert_history_def insert_history_def insert_readhis_def)

lemma mvcc_insert_write_fields [simp]:
  "set (writehis (mvcc_insert_history ts (Some row) m)) =
     insert \<lparr>he_ts = ts, he_row = Some row\<rparr> (set (writehis m))"
  "readhis (mvcc_insert_history ts (Some row) m) = readhis m"
  "prereq_mvcc (mvcc_insert_history ts (Some row) m) = prereq_mvcc m"
  "readreq_mvcc (mvcc_insert_history ts (Some row) m) = readreq_mvcc m"
  "rreq_len (mvcc_insert_history ts (Some row) m) = rreq_len m"
  "preq_len (mvcc_insert_history ts (Some row) m) = preq_len m"
  by (simp_all add: mvcc_insert_history_def insert_history_def insert_writehis_def)

lemma version_inv_mvcc_insert: "version_inv m \<Longrightarrow> version_inv (mvcc_insert_history ts row m)"
  by (simp add: mvcc_insert_history_def version_inv_insert_history)

lemma version_read_mvcc_insert_read [simp]:
  "version_read (mvcc_insert_history ts None m) u = version_read m u"
  by (simp add: mvcc_insert_history_def insert_history_def)

lemma version_read_mvcc_insert_write:
  "version_inv m \<Longrightarrow> version_read (mvcc_insert_history ts (Some row) m) u =
    (if ts \<le> u \<and> (\<forall>g\<in>set (writehis m). he_ts g \<le> u \<longrightarrow> he_ts g \<le> ts) then Some row else version_read m u)"
  by (auto simp: mvcc_insert_history_def insert_history_def version_read_insert_writehis)

text \<open>Serving the released reads cannot fail and only adds to the read history.\<close>

lemma serve_reads_spec:
  assumes "version_inv m"
  shows "\<exists>m' H'. serve_reads qs m H rs = Inr (m', H', rs @ map mq_txn qs) \<and> version_inv m' \<and>
    set (readhis m') = set (readhis m) \<union> (\<lambda>q. \<lparr>he_ts = mq_ts q, he_row = None\<rparr>) ` set qs \<and>
    writehis m' = writehis m \<and> prereq_mvcc m' = prereq_mvcc m \<and> readreq_mvcc m' = readreq_mvcc m \<and>
    rreq_len m' = rreq_len m \<and> preq_len m' = preq_len m \<and>
    (\<forall>u. version_read m' u = version_read m u) \<and> (\<forall>u. mt_timestamp (H' u) = mt_timestamp (H u))"
  using assms
proof (induction qs arbitrary: m H rs)
  case (Cons q qs)
  obtain row where row: "version_read m (mq_ts q) = Some row"
    using version_read_Some [OF Cons.prems] by blast
  let ?m = "mvcc_insert_history (mq_ts q) None m"
  let ?H = "H(mq_txn q := (H (mq_txn q))\<lparr>mt_cur_row := Some row, mt_ts_ready := True\<rparr>)"
  obtain m' H' where IH: "serve_reads qs ?m ?H (rs @ [mq_txn q]) = Inr (m', H', (rs @ [mq_txn q]) @ map mq_txn qs)"
    "version_inv m'" "set (readhis m') = set (readhis ?m) \<union> (\<lambda>q. \<lparr>he_ts = mq_ts q, he_row = None\<rparr>) ` set qs"
    "writehis m' = writehis ?m" "prereq_mvcc m' = prereq_mvcc ?m" "readreq_mvcc m' = readreq_mvcc ?m"
    "rreq_len m' = rreq_len ?m" "preq_len m' = preq_len ?m"
    "\<forall>u. version_read m' u = version_read ?m u" "\<forall>u. mt_timestamp (H' u) = mt_timestamp (?H u)"
    using Cons.IH [OF version_inv_mvcc_insert [OF Cons.prems], of "mq_ts q" None ?H "rs @ [mq_txn q]"] by blast
  show ?case
    using row IH by (intro exI [of _ m'] exI [of _ H']) auto
qed auto

text \<open>The state between the removal of a prewrite and \<open>update_buffer\<close> lacks only the wake-ups.\<close>

lemma mvcc_update_buffer_inv:
  assumes "version_inv m" "rreq_len m = of_nat (length (readreq_mvcc m))"
    "preq_len m = of_nat (length (prereq_mvcc m))"
    "\<forall>p\<in>set (prereq_mvcc m). mq_ts p = mt_timestamp (H (mq_txn p)) \<and> 0 < mq_ts p" "reads_protected m"
  shows "\<exists>m' H' rs. mvcc_update_buffer m H = Inr (m', H', rs) \<and> mvcc_inv H' m' \<and>
    set (readhis m) \<subseteq> set (readhis m') \<and> prereq_mvcc m' = prereq_mvcc m \<and>
    (\<forall>u. version_read m' u = version_read m u) \<and> (\<forall>u. mt_timestamp (H' u) = mt_timestamp (H u))"
proof -
  define mp where "mp = min_pts (prereq_mvcc m) UINT64_MAX"
  define ready where "ready = rev (filter (\<lambda>q. mq_ts q \<le> mp) (readreq_mvcc m))"
  define rest where "rest = filter (\<lambda>q. \<not> mq_ts q \<le> mp) (readreq_mvcc m)"
  define m1 where "m1 = m\<lparr>readreq_mvcc := rest, rreq_len := rreq_len m - of_nat (length ready)\<rparr>"
  have deb: "debuffer_reads m = (ready, m1)"
    by (simp add: debuffer_reads_def Let_def mp_def [symmetric] debuffer_loop_conv ready_def rest_def m1_def)
  have len: "length (readreq_mvcc m) = length rest + length ready"
    using sum_length_filter_compl [of "\<lambda>q. mq_ts q \<le> mp" "readreq_mvcc m"]
    by (simp add: ready_def rest_def)
  have v1: "version_inv m1" using assms(1) by (simp add: m1_def version_inv_def)
  obtain m' H' where sv: "serve_reads ready m1 H [] = Inr (m', H', [] @ map mq_txn ready)" "version_inv m'"
    "set (readhis m') = set (readhis m1) \<union> (\<lambda>q. \<lparr>he_ts = mq_ts q, he_row = None\<rparr>) ` set ready"
    "writehis m' = writehis m1" "prereq_mvcc m' = prereq_mvcc m1" "readreq_mvcc m' = readreq_mvcc m1"
    "rreq_len m' = rreq_len m1" "preq_len m' = preq_len m1"
    "\<forall>u. version_read m' u = version_read m1 u" "\<forall>u. mt_timestamp (H' u) = mt_timestamp (H u)"
    using serve_reads_spec [OF v1, of ready H "[]"] by blast
  have mp: "mp \<le> mq_ts p" if "p \<in> set (prereq_mvcc m)" for p
    using min_pts_spec that unfolding mp_def by blast
  have "reads_protected m'"
    unfolding reads_protected_def
  proof (intro ballI impI)
    fix r p assume r: "r \<in> set (readhis m')" and p: "p \<in> set (prereq_mvcc m')" and lt: "mq_ts p < he_ts r"
    have p': "p \<in> set (prereq_mvcc m)" using p sv(5) by (simp add: m1_def)
    show "\<exists>w\<in>set (writehis m'). mq_ts p < he_ts w \<and> he_ts w < he_ts r"
    proof (cases "r \<in> set (readhis m)")
      case True
      with p' lt assms(5) show ?thesis unfolding reads_protected_def sv(4) by (simp add: m1_def)
    next
      case False
      with r sv(3) have "he_ts r \<le> mp" by (auto simp: m1_def ready_def)
      with mp [OF p'] lt show ?thesis by (meson le_less_trans less_irrefl)
    qed
  qed
  moreover have "readers_blocked m'"
    unfolding readers_blocked_def
  proof
    fix q assume "q \<in> set (readreq_mvcc m')"
    then have q: "\<not> mq_ts q \<le> mp" using sv(6) by (simp add: m1_def rest_def)
    then have "mp \<noteq> UINT64_MAX" by auto
    then obtain p where "p \<in> set (prereq_mvcc m)" "mq_ts p = mp"
      using min_pts_spec [of "prereq_mvcc m" UINT64_MAX] unfolding mp_def by blast
    with q show "\<exists>p\<in>set (prereq_mvcc m'). mq_ts p < mq_ts q"
      unfolding sv(5) by (auto simp: m1_def not_le)
  qed
  moreover have "rreq_len m' = of_nat (length (readreq_mvcc m'))"
    using assms(2) len sv(6,7) by (simp add: m1_def)
  moreover have "\<forall>p\<in>set (prereq_mvcc m'). mq_ts p = mt_timestamp (H' (mq_txn p)) \<and> 0 < mq_ts p"
    using assms(4) sv(10) unfolding sv(5) by (auto simp: m1_def)
  ultimately have "mvcc_inv H' m'"
    using sv(2,5,8) assms(3) by (auto simp: mvcc_inv_def m1_def)
  moreover have "version_read m1 u = version_read m u" for u
    by (simp add: m1_def version_read_def split: option.splits)
  ultimately show ?thesis
    using sv deb by (intro exI [of _ m'] exI [of _ H'] exI [of _ "map mq_txn ready"])
      (auto simp: mvcc_update_buffer_def m1_def)
qed


lemma mvcc_finish_inv:
  assumes "version_inv m" "rreq_len m = of_nat (length (readreq_mvcc m))"
    "preq_len m = of_nat (length (prereq_mvcc m))"
    "\<forall>p\<in>set (prereq_mvcc m). mq_ts p = mt_timestamp (H (mq_txn p)) \<and> 0 < mq_ts p" "reads_protected m"
    and t: "t \<in> mq_txn ` set (prereq_mvcc m)"
  shows "\<exists>m' H' rs. mvcc_finish t m H = Inr (RCOK, m', H', rs) \<and> mvcc_inv H' m' \<and>
    set (readhis m) \<subseteq> set (readhis m') \<and> set (prereq_mvcc m') \<subseteq> set (prereq_mvcc m) \<and>
    (\<forall>u. version_read m' u = version_read m u) \<and> (\<forall>u. mt_timestamp (H' u) = mt_timestamp (H u))"
proof -
  obtain q qs where ex: "extract_first (\<lambda>q. mq_txn q = t) (prereq_mvcc m) = Some (q, qs)"
    using t extract_first_None_iff [of "\<lambda>q. mq_txn q = t" "prereq_mvcc m"] by fastforce
  define m1 where "m1 = m\<lparr>prereq_mvcc := qs, preq_len := preq_len m - 1\<rparr>"
  have deb: "debuffer_prewrite t m = Inr m1" using ex by (simp add: debuffer_prewrite_def m1_def)
  have sub: "set qs \<subseteq> set (prereq_mvcc m)" using extract_first_set [OF ex] by auto
  have p1: "prereq_mvcc m1 = qs" "writehis m1 = writehis m" "readhis m1 = readhis m"
    "readreq_mvcc m1 = readreq_mvcc m" "rreq_len m1 = rreq_len m" by (simp_all add: m1_def)
  have v1: "version_inv m1" using assms(1) by (simp add: m1_def version_inv_def)
  have l1: "rreq_len m1 = of_nat (length (readreq_mvcc m1))" using assms(2) by (simp add: p1)
  have l2: "preq_len m1 = of_nat (length (prereq_mvcc m1))"
    using assms(3) extract_first_length [OF ex] by (simp add: m1_def)
  have l3: "\<forall>p\<in>set (prereq_mvcc m1). mq_ts p = mt_timestamp (H (mq_txn p)) \<and> 0 < mq_ts p"
    using assms(4) sub by (auto simp: p1)
  have l4: "reads_protected m1" using assms(5) sub unfolding reads_protected_def p1 by blast
  obtain m' H' rs where u: "mvcc_update_buffer m1 H = Inr (m', H', rs)" "mvcc_inv H' m'"
    "set (readhis m1) \<subseteq> set (readhis m')" "prereq_mvcc m' = prereq_mvcc m1"
    "\<forall>u. version_read m' u = version_read m1 u" "\<forall>u. mt_timestamp (H' u) = mt_timestamp (H u)"
    using mvcc_update_buffer_inv [OF v1 l1 l2 l3 l4] by blast
  have "version_read m1 w = version_read m w" for w
    by (simp add: m1_def version_read_def split: option.splits)
  with u sub show ?thesis
    by (intro exI [of _ m'] exI [of _ H'] exI [of _ rs]) (simp add: mvcc_finish_def deb p1)
qed

lemma mvcc_recycle_inv:
  assumes inv: "mvcc_inv H m" and th: "\<forall>p\<in>set (prereq_mvcc m). t_th \<le> mq_ts p"
  shows "\<exists>m'. recycle len t_th m = Inr m' \<and> mvcc_inv H m' \<and>
    (\<forall>r\<in>set (readhis m). t_th \<le> he_ts r \<longrightarrow>
       r \<in> set (readhis m') \<and> version_read m' (he_ts r) = version_read m (he_ts r))"
proof -
  have v: "version_inv m" using inv by (simp add: mvcc_inv_def)
  obtain wkeep wrem rkeep rrem base m' where m': "recycle len t_th m = Inr m'"
    "m' = m\<lparr>readhis := rkeep, rhis_len := of_nat (length rkeep),
           writehis := wkeep, whis_len := of_nat (length wkeep), vr_row := base\<rparr>"
    and rd: "readhis m = rkeep @ rrem" "\<forall>h\<in>set rrem. he_ts h < t_th"
    and wr: "writehis m = wkeep @ wrem" "wrem \<noteq> [] \<longrightarrow> wkeep \<noteq> [] \<and> he_ts (last wkeep) < t_th"
    using recycle_spec [OF v, of len t_th] by blast
  have f: "readhis m' = rkeep" "writehis m' = wkeep" "prereq_mvcc m' = prereq_mvcc m"
    "readreq_mvcc m' = readreq_mvcc m" "rreq_len m' = rreq_len m" "preq_len m' = preq_len m"
    by (simp_all add: m'(2))
  have old: "he_ts w < t_th" if "w \<in> set wrem" for w
  proof -
    have "wkeep \<noteq> []" "he_ts (last wkeep) < t_th" using wr(2) that by auto
    moreover have "he_ts w \<le> he_ts (last wkeep)"
      using v that calculation(1) unfolding version_inv_def wr(1) his_sorted_def sorted_wrt_append by auto
    ultimately show ?thesis by (meson le_less_trans)
  qed
  have "reads_protected m'"
    unfolding reads_protected_def f
  proof (intro ballI impI)
    fix r p assume r: "r \<in> set rkeep" and p: "p \<in> set (prereq_mvcc m)" and lt: "mq_ts p < he_ts r"
    have "r \<in> set (readhis m)" using r rd(1) by simp
    then obtain w where w: "w \<in> set (writehis m)" "mq_ts p < he_ts w" "he_ts w < he_ts r"
      using inv p lt unfolding mvcc_inv_def reads_protected_def by blast
    have "t_th \<le> mq_ts p" using th p by blast
    with w(2) old [of w] have "w \<notin> set wrem" by (meson le_less_trans less_asym not_less)
    with w wr(1) show "\<exists>w\<in>set wkeep. mq_ts p < he_ts w \<and> he_ts w < he_ts r" by auto
  qed
  moreover have "version_inv m'" using v m'(1) by (rule recycle_inv)
  ultimately have "mvcc_inv H m'" using inv by (auto simp: mvcc_inv_def f readers_blocked_def)
  moreover have "r \<in> set rkeep" if "r \<in> set (readhis m)" "t_th \<le> he_ts r" for r
    using that rd by (auto simp: not_less [symmetric])
  ultimately show ?thesis
    using m'(1) recycle_read [OF v m'(1)] f(1) by (intro exI [of _ m']) simp
qed


text \<open>
  What a branch of \<open>access\<close> leaves behind before recycling: the invariant, every recorded read,
  and what the reads at a set of timestamps find.
\<close>

definition mvcc_post ::
  "ts_t set \<Rightarrow> 'r Row_mvcc \<Rightarrow> 'r mv_txns \<Rightarrow> MVReqEntry set \<Rightarrow> 'r Row_mvcc \<Rightarrow> 'r mv_txns \<Rightarrow> bool" where
  "mvcc_post U m H P m' H' \<longleftrightarrow>
     mvcc_inv H' m' \<and> set (readhis m) \<subseteq> set (readhis m') \<and> set (prereq_mvcc m') \<subseteq> P \<and>
     (\<forall>u\<in>U. version_read m' u = version_read m u) \<and>
     (\<forall>u. mt_timestamp (H' u) = mt_timestamp (H u))"

lemma mvcc_post_refl: "mvcc_inv H m \<Longrightarrow> set (prereq_mvcc m) \<subseteq> P \<Longrightarrow> mvcc_post U m H P m H"
  by (simp add: mvcc_post_def)

lemma version_read_buffer_req [simp]:
  "version_read (mvcc_buffer_req ty t ts m) u = version_read m u"
  by (cases ty) (simp_all add: version_read_def split: option.splits)

lemma version_inv_buffer_req [simp]: "version_inv (mvcc_buffer_req ty t ts m) = version_inv m"
  by (cases ty) (simp_all add: version_inv_def)

lemma mvcc_read_post:
  assumes inv: "mvcc_inv H m"
  shows "\<exists>rc m' H'. mvcc_read cfg t m H = Inr (rc, m', H', []) \<and>
    mvcc_post UNIV m H (set (prereq_mvcc m)) m' H'"
proof -
  define ts where "ts = mt_timestamp (H t)"
  have v: "version_inv m" and prot: "reads_protected m" and pos: "\<forall>p\<in>set (prereq_mvcc m). 0 < mq_ts p"
    using inv by (auto simp: mvcc_inv_def)
  show ?thesis
  proof (cases "mvcc_conflict_read ts m")
    case True
    let ?m = "mvcc_buffer_req R_REQ t ts m" and ?H = "H(t := (H t)\<lparr>mt_ts_ready := False\<rparr>)"
    have "readers_blocked ?m"
      using inv conflict_read_True [OF True] by (auto simp: mvcc_inv_def readers_blocked_def)
    then have "mvcc_post UNIV m H (set (prereq_mvcc m)) ?m ?H"
      using inv by (auto simp: mvcc_post_def mvcc_inv_def reads_protected_def version_inv_def
          version_read_def split: option.splits)
    moreover have "mvcc_read cfg t m H = Inr (WAIT, ?m, ?H, []) \<or> mvcc_read cfg t m H = Inr (Abort, m, H, [])"
      using True by (auto simp: mvcc_read_def Let_def ts_def)
    ultimately show ?thesis using mvcc_post_refl [OF inv] by blast
  next
    case False
    obtain row where row: "version_read m ts = Some row" using version_read_Some [OF v] by blast
    let ?m = "mvcc_insert_history ts None m" and ?H = "H(t := (H t)\<lparr>mt_cur_row := Some row\<rparr>)"
    have "reads_protected ?m"
      using prot conflict_read_False [OF v False] pos by (auto simp: reads_protected_def)
    then have "mvcc_post UNIV m H (set (prereq_mvcc m)) ?m ?H"
      using inv version_inv_mvcc_insert [OF v, of ts None]
      by (auto simp: mvcc_post_def mvcc_inv_def readers_blocked_def)
    moreover have "mvcc_read cfg t m H = Inr (RCOK, ?m, ?H, [])"
      using False row by (simp add: mvcc_read_def Let_def ts_def)
    ultimately show ?thesis by blast
  qed
qed

lemma mvcc_prewrite_post:
  assumes inv: "mvcc_inv H m" and ts: "0 < mt_timestamp (H t)"
  shows "\<exists>rc m'. mvcc_prewrite cfg t m H = Inr (rc, m', H, []) \<and>
    mvcc_post UNIV m H (insert \<lparr>mq_txn = t, mq_ts = mt_timestamp (H t)\<rparr> (set (prereq_mvcc m))) m' H"
proof (cases "mvcc_conflict_prewrite (mt_timestamp (H t)) m \<or> \<not> preq_len m < g_max_pre_req cfg")
  case True
  then have "mvcc_prewrite cfg t m H = Inr (Abort, m, H, [])" by (auto simp: mvcc_prewrite_def Let_def)
  then show ?thesis using mvcc_post_refl [OF inv] by blast
next
  case False
  let ?m = "mvcc_buffer_req P_REQ t (mt_timestamp (H t)) m"
  have v: "version_inv m" using inv by (simp add: mvcc_inv_def)
  have "reads_protected ?m"
    using inv conflict_prewrite_False [OF v, of "mt_timestamp (H t)"] False
    by (auto simp: mvcc_inv_def reads_protected_def)
  then have "mvcc_post UNIV m H (insert \<lparr>mq_txn = t, mq_ts = mt_timestamp (H t)\<rparr> (set (prereq_mvcc m))) ?m H"
    using inv ts by (auto simp: mvcc_post_def mvcc_inv_def readers_blocked_def version_inv_def
        version_read_def split: option.splits)
  moreover have "mvcc_prewrite cfg t m H = Inr (RCOK, ?m, H, [])"
    using False by (simp add: mvcc_prewrite_def Let_def)
  ultimately show ?thesis by blast
qed

lemma mvcc_abort_post:
  assumes "mvcc_inv H m" "t \<in> mq_txn ` set (prereq_mvcc m)"
  shows "\<exists>m' H' rs. mvcc_finish t m H = Inr (RCOK, m', H', rs) \<and>
    mvcc_post UNIV m H (set (prereq_mvcc m)) m' H'"
  using mvcc_finish_inv [of m H t] assms unfolding mvcc_inv_def [of H m] mvcc_post_def by blast

lemma mvcc_write_post:
  assumes inv: "mvcc_inv H m" and t: "t \<in> mq_txn ` set (prereq_mvcc m)"
  shows "\<exists>m' H' rs. mvcc_finish t (mvcc_insert_history (mt_timestamp (H t)) (Some row) m) H =
      Inr (RCOK, m', H', rs) \<and>
    mvcc_post (he_ts ` set (readhis m) - {mt_timestamp (H t)}) m H (set (prereq_mvcc m)) m' H'"
proof -
  define ts where "ts = mt_timestamp (H t)"
  define m1 where "m1 = mvcc_insert_history ts (Some row) m"
  have v: "version_inv m" and prot: "reads_protected m" using inv by (auto simp: mvcc_inv_def)
  have f: "readhis m1 = readhis m" "prereq_mvcc m1 = prereq_mvcc m" "readreq_mvcc m1 = readreq_mvcc m"
    "rreq_len m1 = rreq_len m" "preq_len m1 = preq_len m" "set (writehis m) \<subseteq> set (writehis m1)"
    by (auto simp: m1_def)
  have v1: "version_inv m1" unfolding m1_def using v by (rule version_inv_mvcc_insert)
  have p1: "reads_protected m1" using prot f(6) unfolding reads_protected_def f by blast
  have len: "rreq_len m1 = of_nat (length (readreq_mvcc m1))" "preq_len m1 = of_nat (length (prereq_mvcc m1))"
    "\<forall>p\<in>set (prereq_mvcc m1). mq_ts p = mt_timestamp (H (mq_txn p)) \<and> 0 < mq_ts p"
    using inv by (auto simp: mvcc_inv_def f)
  obtain m' H' rs where fin: "mvcc_finish t m1 H = Inr (RCOK, m', H', rs)" "mvcc_inv H' m'"
    "set (readhis m1) \<subseteq> set (readhis m')" "set (prereq_mvcc m') \<subseteq> set (prereq_mvcc m1)"
    "\<forall>u. version_read m' u = version_read m1 u" "\<forall>u. mt_timestamp (H' u) = mt_timestamp (H u)"
    using mvcc_finish_inv [OF v1 len p1] t f(2) by metis
  obtain p where p: "p \<in> set (prereq_mvcc m)" "mq_ts p = ts"
    using t inv by (auto simp: mvcc_inv_def ts_def)
  have "version_read m1 (he_ts r) = version_read m (he_ts r)"
    if r: "r \<in> set (readhis m)" "he_ts r \<noteq> ts" for r
  proof (cases "ts < he_ts r")
    case True
    then obtain w where "w \<in> set (writehis m)" "ts < he_ts w" "he_ts w < he_ts r"
      using prot r(1) p unfolding reads_protected_def by blast
    then show ?thesis unfolding m1_def version_read_mvcc_insert_write [OF v] by (auto simp: not_le [symmetric] dest: less_imp_le)
  next
    case False
    with r(2) have "\<not> ts \<le> he_ts r" by auto
    then show ?thesis unfolding m1_def version_read_mvcc_insert_write [OF v] by simp
  qed
  then have "\<forall>u\<in>he_ts ` set (readhis m) - {ts}. version_read m1 u = version_read m u" by blast
  with fin f show ?thesis unfolding m1_def [symmetric] ts_def [symmetric] mvcc_post_def by simp
qed


section \<open>Calls and sequences of calls\<close>

text \<open>
  What a caller guarantees: timestamps are positive, the recycling threshold is at most the
  timestamp of every transaction that is still active on the row, a write carries a row, and
  a write or an abort ends a prewrite of the same transaction.
\<close>

definition mvcc_call_ok :: "ts_t \<Rightarrow> mv_txn_ref \<Rightarrow> TsType \<Rightarrow> 'r option \<Rightarrow> 'r Row_mvcc \<Rightarrow> 'r mv_txns \<Rightarrow> bool" where
  "mvcc_call_ok t_th t type row m H \<longleftrightarrow>
     0 < mt_timestamp (H t) \<and> t_th \<le> mt_timestamp (H t) \<and>
     (\<forall>p\<in>set (prereq_mvcc m). t_th \<le> mq_ts p) \<and>
     (type = W_REQ \<longrightarrow> row \<noteq> None) \<and>
     (type = W_REQ \<or> type = XP_REQ \<longrightarrow> t \<in> mq_txn ` set (prereq_mvcc m))"

lemma mvcc_access_branch:
  assumes inv: "mvcc_inv H m" and ok: "mvcc_call_ok t_th t type row m H"
  shows "\<exists>rc m1 H1 rs. (case type of
         R_REQ \<Rightarrow> mvcc_read cfg t m H
       | P_REQ \<Rightarrow> mvcc_prewrite cfg t m H
       | W_REQ \<Rightarrow> mvcc_finish t (mvcc_insert_history (mt_timestamp (H t)) row m) H
       | XP_REQ \<Rightarrow> mvcc_finish t m H) = Inr (rc, m1, H1, rs) \<and>
    mvcc_post (if type = W_REQ then he_ts ` set (readhis m) - {mt_timestamp (H t)} else UNIV) m H
      (insert \<lparr>mq_txn = t, mq_ts = mt_timestamp (H t)\<rparr> (set (prereq_mvcc m))) m1 H1"
proof -
  have mono: "mvcc_post U m H (set (prereq_mvcc m)) m1 H1 \<Longrightarrow>
      mvcc_post U m H (insert \<lparr>mq_txn = t, mq_ts = mt_timestamp (H t)\<rparr> (set (prereq_mvcc m))) m1 H1" for U m1 H1
    by (auto simp: mvcc_post_def)
  show ?thesis
  proof (cases type)
    case R_REQ
    then show ?thesis using mvcc_read_post [OF inv, of cfg t] mono by auto
  next
    case P_REQ
    then show ?thesis using mvcc_prewrite_post [OF inv, of t cfg] ok by (auto simp: mvcc_call_ok_def)
  next
    case W_REQ
    with ok obtain r where "row = Some r" "t \<in> mq_txn ` set (prereq_mvcc m)" by (auto simp: mvcc_call_ok_def)
    then show ?thesis using W_REQ mvcc_write_post [OF inv, of t r] mono by auto
  next
    case XP_REQ
    with ok have t: "t \<in> mq_txn ` set (prereq_mvcc m)" by (simp add: mvcc_call_ok_def)
    from mvcc_abort_post [OF inv t] XP_REQ mono show ?thesis by fastforce
  qed
qed

lemma mvcc_access_step:
  assumes inv: "mvcc_inv H m" and ok: "mvcc_call_ok t_th t type row m H"
  shows "\<exists>rc m' H' rs. mvcc_access cfg t_th t type row m H = Inr (rc, m', H', rs) \<and> mvcc_inv H' m' \<and>
    (\<forall>u. mt_timestamp (H' u) = mt_timestamp (H u)) \<and>
    (\<forall>r\<in>set (readhis m). t_th \<le> he_ts r \<and> (type = W_REQ \<longrightarrow> he_ts r \<noteq> mt_timestamp (H t)) \<longrightarrow>
       r \<in> set (readhis m') \<and> version_read m' (he_ts r) = version_read m (he_ts r))"
proof -
  let ?U = "if type = W_REQ then he_ts ` set (readhis m) - {mt_timestamp (H t)} else UNIV"
  obtain rc m1 H1 rs where b: "(case type of
         R_REQ \<Rightarrow> mvcc_read cfg t m H
       | P_REQ \<Rightarrow> mvcc_prewrite cfg t m H
       | W_REQ \<Rightarrow> mvcc_finish t (mvcc_insert_history (mt_timestamp (H t)) row m) H
       | XP_REQ \<Rightarrow> mvcc_finish t m H) = Inr (rc, m1, H1, rs)"
    and post: "mvcc_post ?U m H (insert \<lparr>mq_txn = t, mq_ts = mt_timestamp (H t)\<rparr> (set (prereq_mvcc m))) m1 H1"
    using mvcc_access_branch [OF assms] by blast
  have inv1: "mvcc_inv H1 m1" and sub: "set (readhis m) \<subseteq> set (readhis m1)"
    and ts: "\<forall>u. mt_timestamp (H1 u) = mt_timestamp (H u)"
    using post by (auto simp: mvcc_post_def)
  have same: "version_read m1 (he_ts r) = version_read m (he_ts r)"
    if "r \<in> set (readhis m)" "type = W_REQ \<longrightarrow> he_ts r \<noteq> mt_timestamp (H t)" for r
    using post that by (auto simp: mvcc_post_def split: if_splits)
  have "\<forall>p\<in>set (prereq_mvcc m1). t_th \<le> mq_ts p"
    using post ok by (auto simp: mvcc_post_def mvcc_call_ok_def)
  then obtain m2 where rec: "recycle (g_his_recycle_len cfg) t_th m1 = Inr m2" "mvcc_inv H1 m2"
    "\<forall>r\<in>set (readhis m1). t_th \<le> he_ts r \<longrightarrow>
       r \<in> set (readhis m2) \<and> version_read m2 (he_ts r) = version_read m1 (he_ts r)"
    using mvcc_recycle_inv [OF inv1] by blast
  show ?thesis
  proof (cases "rc = RCOK")
    case True
    then have "mvcc_access cfg t_th t type row m H = Inr (RCOK, m2, H1, rs)"
      using b rec(1) by (simp add: mvcc_access_def)
    with rec(2,3) ts sub same show ?thesis
      by (intro exI [of _ RCOK] exI [of _ m2] exI [of _ H1] exI [of _ rs]) auto
  next
    case False
    then have "mvcc_access cfg t_th t type row m H = Inr (rc, m1, H1, rs)"
      using b by (simp add: mvcc_access_def)
    with inv1 ts sub same show ?thesis
      by (intro exI [of _ rc] exI [of _ m1] exI [of _ H1] exI [of _ rs]) auto
  qed
qed


text \<open>A sequence of calls: transaction, request, row and threshold of each.\<close>

type_synonym 'r mvcc_call = "mv_txn_ref \<times> TsType \<times> 'r option \<times> ts_t"

fun mvcc_run :: "his_cfg \<Rightarrow> 'r mvcc_call list \<Rightarrow> 'r Row_mvcc \<Rightarrow> 'r mv_txns \<Rightarrow> ('r Row_mvcc \<times> 'r mv_txns) result" where
  "mvcc_run cfg [] m H = Inr (m, H)"
| "mvcc_run cfg ((t, type, row, t_th) # cs) m H =
    bind_result (mvcc_access cfg t_th t type row m H) (\<lambda>(_, m', H', _). mvcc_run cfg cs m' H')"

text \<open>Every call of the sequence keeps its side of the contract in the state it is made in.\<close>

fun mvcc_calls_ok :: "his_cfg \<Rightarrow> 'r mvcc_call list \<Rightarrow> 'r Row_mvcc \<Rightarrow> 'r mv_txns \<Rightarrow> bool" where
  "mvcc_calls_ok cfg [] m H = True"
| "mvcc_calls_ok cfg ((t, type, row, t_th) # cs) m H =
    (mvcc_call_ok t_th t type row m H \<and>
     (case mvcc_access cfg t_th t type row m H of
        Inl _ \<Rightarrow> True | Inr (_, m', H', _) \<Rightarrow> mvcc_calls_ok cfg cs m' H'))"

lemma mvcc_run_inv:
  assumes "mvcc_inv H m" "mvcc_calls_ok cfg cs m H"
  shows "\<exists>m' H'. mvcc_run cfg cs m H = Inr (m', H') \<and> mvcc_inv H' m' \<and>
    (\<forall>u. mt_timestamp (H' u) = mt_timestamp (H u)) \<and>
    (\<forall>r\<in>set (readhis m).
       (\<forall>(t, type, row, t_th)\<in>set cs. t_th \<le> he_ts r \<and> (type = W_REQ \<longrightarrow> he_ts r \<noteq> mt_timestamp (H t))) \<longrightarrow>
       r \<in> set (readhis m') \<and> version_read m' (he_ts r) = version_read m (he_ts r))"
  using assms
proof (induction cs arbitrary: m H)
  case Nil
  then show ?case by simp
next
  case (Cons c cs)
  obtain t type row t_th where c: "c = (t, type, row, t_th)" by (cases c)
  have ok: "mvcc_call_ok t_th t type row m H" using Cons.prems(2) by (simp add: c)
  obtain rc m1 H1 rs where a: "mvcc_access cfg t_th t type row m H = Inr (rc, m1, H1, rs)" "mvcc_inv H1 m1"
    "\<forall>u. mt_timestamp (H1 u) = mt_timestamp (H u)"
    "\<forall>r\<in>set (readhis m). t_th \<le> he_ts r \<and> (type = W_REQ \<longrightarrow> he_ts r \<noteq> mt_timestamp (H t)) \<longrightarrow>
       r \<in> set (readhis m1) \<and> version_read m1 (he_ts r) = version_read m (he_ts r)"
    using mvcc_access_step [OF Cons.prems(1) ok, of cfg] by blast
  have "mvcc_calls_ok cfg cs m1 H1" using Cons.prems(2) a(1) by (simp add: c)
  then obtain m' H' where r: "mvcc_run cfg cs m1 H1 = Inr (m', H')" "mvcc_inv H' m'"
    "\<forall>u. mt_timestamp (H' u) = mt_timestamp (H1 u)"
    "\<forall>r\<in>set (readhis m1).
       (\<forall>(t, type, row, t_th)\<in>set cs. t_th \<le> he_ts r \<and> (type = W_REQ \<longrightarrow> he_ts r \<noteq> mt_timestamp (H1 t))) \<longrightarrow>
       r \<in> set (readhis m') \<and> version_read m' (he_ts r) = version_read m1 (he_ts r)"
    using Cons.IH [OF a(2)] by blast
  have "r \<in> set (readhis m') \<and> version_read m' (he_ts r) = version_read m (he_ts r)"
    if "r \<in> set (readhis m)"
      "\<forall>(t, type, row, t_th)\<in>set (c # cs). t_th \<le> he_ts r \<and> (type = W_REQ \<longrightarrow> he_ts r \<noteq> mt_timestamp (H t))" for r
  proof -
    have r1: "r \<in> set (readhis m1)" "version_read m1 (he_ts r) = version_read m (he_ts r)"
      using a(4) that by (auto simp: c)
    moreover have "\<forall>(t, type, row, t_th)\<in>set cs. t_th \<le> he_ts r \<and> (type = W_REQ \<longrightarrow> he_ts r \<noteq> mt_timestamp (H1 t))"
      using that(2) a(3) by auto
    ultimately show ?thesis using r(4) by simp
  qed
  with a r show ?case by (intro exI [of _ m'] exI [of _ H']) (simp add: c)
qed


section \<open>Wake-ups\<close>

text \<open>A read that leaves the buffer is served: its transaction is restarted, is ready, and has the version at its timestamp.\<close>

definition served :: "bool \<Rightarrow> MVReqEntry \<Rightarrow> 'r Row_mvcc \<Rightarrow> 'r mv_txns \<Rightarrow> mv_txn_ref list \<Rightarrow> bool" where
  "served single q m H rs \<longleftrightarrow> mq_txn q \<in> set rs \<and> mt_ts_ready (H (mq_txn q)) \<and>
     (single \<longrightarrow> mt_cur_row (H (mq_txn q)) = version_read m (mq_ts q))"

lemma serve_reads_txns:
  assumes "version_inv m" "serve_reads qs m H rs = Inr (m', H', rs')"
  shows "(\<forall>t. t \<notin> mq_txn ` set qs \<longrightarrow> H' t = H t) \<and> (\<forall>q\<in>set qs. mt_ts_ready (H' (mq_txn q))) \<and>
    (distinct (map mq_txn qs) \<longrightarrow> (\<forall>q\<in>set qs. mt_cur_row (H' (mq_txn q)) = version_read m (mq_ts q)))"
  using assms
proof (induction qs arbitrary: m H rs)
  case (Cons q qs)
  obtain row where row: "version_read m (mq_ts q) = Some row" using version_read_Some [OF Cons.prems(1)] by blast
  let ?H = "H(mq_txn q := (H (mq_txn q))\<lparr>mt_cur_row := Some row, mt_ts_ready := True\<rparr>)"
  have run: "serve_reads qs (mvcc_insert_history (mq_ts q) None m) ?H (rs @ [mq_txn q]) = Inr (m', H', rs')" using Cons.prems(2) row by simp
  note IH = Cons.IH [OF version_inv_mvcc_insert [OF Cons.prems(1)] run]
  show ?case
  proof (cases "mq_txn q \<in> mq_txn ` set qs")
    case True
    then show ?thesis using IH by auto
  next
    case False
    then have "H' (mq_txn q) = ?H (mq_txn q)" using IH by blast
    then show ?thesis using IH row by auto
  qed
qed simp

lemma update_buffer_served:
  assumes v: "version_inv m" and run: "mvcc_update_buffer m H = Inr (m', H', rs)" and q: "q \<in> set (readreq_mvcc m)"
  shows "q \<in> set (readreq_mvcc m') \<or>
    served (distinct (map mq_txn (readreq_mvcc m))) q m' H' rs \<and> \<lparr>he_ts = mq_ts q, he_row = None\<rparr> \<in> set (readhis m')"
proof -
  define mp where "mp = min_pts (prereq_mvcc m) UINT64_MAX"
  define ready where "ready = rev (filter (\<lambda>q. mq_ts q \<le> mp) (readreq_mvcc m))"
  define m1 where "m1 = m\<lparr>readreq_mvcc := filter (\<lambda>q. \<not> mq_ts q \<le> mp) (readreq_mvcc m), rreq_len := rreq_len m - of_nat (length ready)\<rparr>"
  have sr: "serve_reads ready m1 H [] = Inr (m', H', rs)"
    using run by (simp add: mvcc_update_buffer_def debuffer_reads_def Let_def mp_def [symmetric] debuffer_loop_conv ready_def m1_def)
  have v1: "version_inv m1" using v by (simp add: m1_def version_inv_def)
  have sp: "rs = map mq_txn ready" "readreq_mvcc m' = readreq_mvcc m1" "\<forall>u. version_read m' u = version_read m1 u"
    "set (readhis m') = set (readhis m1) \<union> (\<lambda>q. \<lparr>he_ts = mq_ts q, he_row = None\<rparr>) ` set ready"
    using serve_reads_spec [OF v1, of ready H "[]"] sr by auto
  show ?thesis
  proof (cases "mq_ts q \<le> mp")
    case True
    then have r: "q \<in> set ready" using q by (simp add: ready_def)
    have "distinct (map mq_txn ready)" if "distinct (map mq_txn (readreq_mvcc m))"
      using that by (simp add: ready_def distinct_map_filter rev_map [symmetric])
    then show ?thesis using serve_reads_txns [OF v1 sr] r sp by (auto simp: served_def)
  next
    case False
    then show ?thesis using q sp(2) by (simp add: m1_def)
  qed
qed

lemma mvcc_finish_served:
  assumes v: "version_inv m" and run: "mvcc_finish t m H = Inr (rc, m', H', rs)" and q: "q \<in> set (readreq_mvcc m)"
  shows "q \<in> set (readreq_mvcc m') \<or>
    served (distinct (map mq_txn (readreq_mvcc m))) q m' H' rs \<and> \<lparr>he_ts = mq_ts q, he_row = None\<rparr> \<in> set (readhis m')"
proof -
  obtain m1 where d: "debuffer_prewrite t m = Inr m1" and u: "mvcc_update_buffer m1 H = Inr (m', H', rs)"
    using run by (auto simp: mvcc_finish_def bind_result_Inr_iff)
  have "version_inv m1" "readreq_mvcc m1 = readreq_mvcc m"
    using d v by (auto simp: debuffer_prewrite_def version_inv_def split: option.splits)
  then show ?thesis using update_buffer_served [OF _ u, of q] q by simp
qed

lemma recycle_readreq: "version_inv m \<Longrightarrow> recycle len t_th m = Inr m' \<Longrightarrow> readreq_mvcc m' = readreq_mvcc m"
  using recycle_spec [of m len t_th] by auto

lemma mvcc_branch_served:
  assumes inv: "mvcc_inv H m" and q: "q \<in> set (readreq_mvcc m)"
    and run: "(case type of R_REQ \<Rightarrow> mvcc_read cfg t m H | P_REQ \<Rightarrow> mvcc_prewrite cfg t m H
       | W_REQ \<Rightarrow> mvcc_finish t (mvcc_insert_history (mt_timestamp (H t)) row m) H
       | XP_REQ \<Rightarrow> mvcc_finish t m H) = Inr (rc, m1, H1, rs)"
  shows "q \<in> set (readreq_mvcc m1) \<or>
    served (distinct (map mq_txn (readreq_mvcc m))) q m1 H1 rs \<and> \<lparr>he_ts = mq_ts q, he_row = None\<rparr> \<in> set (readhis m1)"
proof (cases type)
  case R_REQ
  then show ?thesis using run q by (auto simp: mvcc_read_def Let_def split: if_splits option.splits)
next
  case P_REQ
  then show ?thesis using run q by (auto simp: mvcc_prewrite_def Let_def split: if_splits)
next
  case W_REQ
  let ?m = "mvcc_insert_history (mt_timestamp (H t)) row m"
  have "version_inv ?m" "readreq_mvcc ?m = readreq_mvcc m" using inv by (cases row; simp add: mvcc_inv_def version_inv_mvcc_insert)+
  then show ?thesis using mvcc_finish_served [of ?m t H rc m1 H1 rs q] run q W_REQ by simp
next
  case XP_REQ
  then show ?thesis using mvcc_finish_served [of m t H rc m1 H1 rs q] run q inv by (simp add: mvcc_inv_def)
qed

lemma mvcc_access_served:
  assumes inv: "mvcc_inv H m" and ok: "mvcc_call_ok t_th t type row m H" and q: "q \<in> set (readreq_mvcc m)"
    and run: "mvcc_access cfg t_th t type row m H = Inr (rc, m', H', rs)"
  shows "q \<in> set (readreq_mvcc m') \<or> served (distinct (map mq_txn (readreq_mvcc m))) q m' H' rs"
proof -
  obtain m1 where b: "(case type of R_REQ \<Rightarrow> mvcc_read cfg t m H | P_REQ \<Rightarrow> mvcc_prewrite cfg t m H
       | W_REQ \<Rightarrow> mvcc_finish t (mvcc_insert_history (mt_timestamp (H t)) row m) H
       | XP_REQ \<Rightarrow> mvcc_finish t m H) = Inr (rc, m1, H', rs)"
    and m': "if rc = RCOK then recycle (g_his_recycle_len cfg) t_th m1 = Inr m' else m' = m1"
    using run by (auto simp: mvcc_access_def bind_result_Inr_iff split: if_splits)
  have post: "mvcc_inv H' m1" "set (prereq_mvcc m1) \<subseteq> insert \<lparr>mq_txn = t, mq_ts = mt_timestamp (H t)\<rparr> (set (prereq_mvcc m))"
    using mvcc_access_branch [OF inv ok, of cfg] b by (auto simp: mvcc_post_def)
  note sv = mvcc_branch_served [OF inv q b]
  show ?thesis
  proof (cases "rc = RCOK")
    case True
    have v1: "version_inv m1" using post(1) by (simp add: mvcc_inv_def)
    have th: "\<forall>p\<in>set (prereq_mvcc m1). t_th \<le> mq_ts p" using post(2) ok by (auto simp: mvcc_call_ok_def)
    have rec: "recycle (g_his_recycle_len cfg) t_th m1 = Inr m'" using m' True by simp
    then have r: "\<forall>r\<in>set (readhis m1). t_th \<le> he_ts r \<longrightarrow> version_read m' (he_ts r) = version_read m1 (he_ts r)"
      using mvcc_recycle_inv [OF post(1) th, of "g_his_recycle_len cfg"] by auto
    obtain p where "p \<in> set (prereq_mvcc m)" "mq_ts p < mq_ts q" using inv q by (auto simp: mvcc_inv_def readers_blocked_def)
    then have "t_th \<le> mq_ts q" using ok by (auto simp: mvcc_call_ok_def)
    then show ?thesis using sv r recycle_readreq [OF v1 rec] by (force simp: served_def)
  next
    case False
    then show ?thesis using sv m' by auto
  qed
qed

section \<open>Properties\<close>

definition sample_mv_cfg :: his_cfg where
  "sample_mv_cfg = \<lparr>g_max_read_req = 8, g_max_pre_req = 8, g_his_recycle_len = 10\<rparr>"

text \<open>Transaction \<open>t\<close> has timestamp \<open>t\<close>; the rows of the concrete instances are numbers.\<close>

definition sample_mv_txns :: "nat mv_txns" where
  "sample_mv_txns = (\<lambda>t. \<lparr>mt_timestamp = t, mt_cur_row = None, mt_ts_ready = False\<rparr>)"

lemmas mvcc_eval =
  mvcc_access_def mvcc_read_def mvcc_prewrite_def mvcc_finish_def mvcc_update_buffer_def
  debuffer_reads_def debuffer_prewrite_def mvcc_conflict_read_def mvcc_conflict_prewrite_def
  mvcc_insert_history_def insert_history_def insert_readhis_def insert_writehis_def his_insert_def
  mvcc_call_ok_def mvcc_init_def recycle_def recycle_reads_def recycle_writes_def version_read_def
  sample_mv_cfg_def sample_mv_txns_def Let_def

text \<open>
  Claim C5. Timestamp-ordered reads are final: whatever sequence of reads, prewrites, commits and
  aborts of other transactions follows, a read recorded on a row keeps finding the same version
  at its timestamp, as long as the recycling thresholds stay at or below it; and none of the calls
  fails an assertion.
\<close>

theorem mvcc_reads_stable:
  assumes "mvcc_calls_ok cfg before (mvcc_init row) H"
    and "mvcc_run cfg before (mvcc_init row) H = Inr (m, H1)"
    and "mvcc_calls_ok cfg after m H1" and "r \<in> set (readhis m)"
    and "\<forall>(t, type, w, t_th)\<in>set after. t_th \<le> he_ts r \<and> (type = W_REQ \<longrightarrow> he_ts r \<noteq> mt_timestamp (H1 t))"
  shows "\<exists>m' H2. mvcc_run cfg after m H1 = Inr (m', H2) \<and> r \<in> set (readhis m') \<and>
    version_read m' (he_ts r) = version_read m (he_ts r)"
proof -
  have "mvcc_inv H1 m"
    using mvcc_run_inv [OF mvcc_inv_init assms(1)] assms(2) by auto
  from mvcc_run_inv [OF this assms(3)] assms(4,5) show ?thesis by blast
qed

theorem mvcc_reads_stable_witness:
  "\<exists>m H1 m' H2. mvcc_run sample_mv_cfg [(10, R_REQ, None, 0)] (mvcc_init (1 :: nat)) sample_mv_txns = Inr (m, H1) \<and>
     mvcc_run sample_mv_cfg [(20, P_REQ, None, 0), (20, W_REQ, Some 2, 0)] m H1 = Inr (m', H2) \<and>
     version_read m' 10 = version_read m 10 \<and> version_read m' 20 = Some 2"
proof -
  let ?before = "[(10, R_REQ, None, 0)] :: nat mvcc_call list"
  let ?after = "[(20, P_REQ, None, 0), (20, W_REQ, Some 2, 0)] :: nat mvcc_call list"
  let ?r = "\<lparr>he_ts = 10, he_row = None\<rparr> :: nat his_entry"
  obtain m H1 where b: "mvcc_run sample_mv_cfg ?before (mvcc_init (1 :: nat)) sample_mv_txns = Inr (m, H1)"
    and m: "m = mvcc_insert_history 10 None (mvcc_init 1)"
      "H1 = sample_mv_txns(10 := (sample_mv_txns 10)\<lparr>mt_cur_row := Some 1\<rparr>)"
    by (simp add: mvcc_eval)
  have ok: "mvcc_calls_ok sample_mv_cfg ?before (mvcc_init (1 :: nat)) sample_mv_txns"
    by (simp add: mvcc_eval)
  have ok': "mvcc_calls_ok sample_mv_cfg ?after m H1" by (simp add: m mvcc_eval)
  obtain m' H2 where a: "mvcc_run sample_mv_cfg ?after m H1 = Inr (m', H2)"
    "version_read m' (he_ts ?r) = version_read m (he_ts ?r)"
    using mvcc_reads_stable [OF ok b ok', of ?r] by (auto simp: m mvcc_eval)
  moreover have "version_read m' 20 = Some 2"
    using a(1) by (auto simp: m mvcc_eval)
  ultimately show ?thesis using b by auto
qed

text \<open>
  Claim C23. No reader is forgotten. After any sequence of calls every buffered read waits for a pending
  prewrite with a smaller timestamp, and the counters are the lengths of the buffers. In any further call a
  buffered read stays in the buffer only if such a prewrite is still pending; otherwise it is served in
  this very call: its transaction is restarted and marked ready, and, if no transaction is
  buffered twice, it has got the version of its timestamp.
\<close>

theorem mvcc_buffered_reads_blocked:
  assumes "mvcc_calls_ok cfg cs (mvcc_init row) H" "mvcc_run cfg cs (mvcc_init row) H = Inr (m, H1)"
    and "mvcc_call_ok t_th t type w m H1"
  shows "(\<forall>q\<in>set (readreq_mvcc m). \<exists>p\<in>set (prereq_mvcc m). mq_ts p < mq_ts q) \<and>
    rreq_len m = of_nat (length (readreq_mvcc m)) \<and> preq_len m = of_nat (length (prereq_mvcc m)) \<and>
    (\<exists>rc m' H2 rs. mvcc_access cfg t_th t type w m H1 = Inr (rc, m', H2, rs) \<and>
      (\<forall>q\<in>set (readreq_mvcc m).
        q \<in> set (readreq_mvcc m') \<and> (\<exists>p\<in>set (prereq_mvcc m'). mq_ts p < mq_ts q) \<or>
        mq_txn q \<in> set rs \<and> mt_ts_ready (H2 (mq_txn q)) \<and>
        (distinct (map mq_txn (readreq_mvcc m)) \<longrightarrow> mt_cur_row (H2 (mq_txn q)) = version_read m' (mq_ts q))))"
proof -
  have inv: "mvcc_inv H1 m" using mvcc_run_inv [OF mvcc_inv_init assms(1)] assms(2) by auto
  obtain rc m' H2 rs where a: "mvcc_access cfg t_th t type w m H1 = Inr (rc, m', H2, rs)" "mvcc_inv H2 m'"
    using mvcc_access_step [OF inv assms(3), of cfg] by blast
  have "q \<in> set (readreq_mvcc m') \<and> (\<exists>p\<in>set (prereq_mvcc m'). mq_ts p < mq_ts q) \<or>
      served (distinct (map mq_txn (readreq_mvcc m))) q m' H2 rs" if "q \<in> set (readreq_mvcc m)" for q
    using mvcc_access_served [OF inv assms(3) that a(1)] a(2) by (auto simp: mvcc_inv_def readers_blocked_def)
  then show ?thesis using a(1) inv unfolding mvcc_inv_def readers_blocked_def served_def by blast
qed

theorem mvcc_buffered_reads_blocked_witness:
  "\<exists>m H1 rc m' H2 rs. mvcc_run sample_mv_cfg [(5, P_REQ, None, 0), (10, R_REQ, None, 0)] (mvcc_init (1 :: nat)) sample_mv_txns =
       Inr (m, H1) \<and> readreq_mvcc m = [\<lparr>mq_txn = 10, mq_ts = 10\<rparr>] \<and>
     mvcc_access sample_mv_cfg 0 5 XP_REQ None m H1 = Inr (rc, m', H2, rs) \<and> 10 \<in> set rs \<and> mt_ts_ready (H2 10)"
proof -
  let ?cs = "[(5, P_REQ, None, 0), (10, R_REQ, None, 0)] :: nat mvcc_call list"
  have ok: "mvcc_calls_ok sample_mv_cfg ?cs (mvcc_init (1 :: nat)) sample_mv_txns"
    by (simp add: mvcc_eval)
  obtain m H1 where r: "mvcc_run sample_mv_cfg ?cs (mvcc_init (1 :: nat)) sample_mv_txns = Inr (m, H1)"
    "readreq_mvcc m = [\<lparr>mq_txn = 10, mq_ts = 10\<rparr>]" "prereq_mvcc m = [\<lparr>mq_txn = 5, mq_ts = 5\<rparr>]" "mt_timestamp (H1 5) = 5"
    by (simp add: mvcc_eval)
  have c: "mvcc_call_ok 0 5 XP_REQ None m H1" using r by (simp add: mvcc_call_ok_def)
  obtain rc m' H2 rs where a: "mvcc_access sample_mv_cfg 0 5 XP_REQ None m H1 = Inr (rc, m', H2, rs)"
    "\<forall>q\<in>set (readreq_mvcc m). q \<in> set (readreq_mvcc m') \<and> (\<exists>p\<in>set (prereq_mvcc m'). mq_ts p < mq_ts q) \<or> mq_txn q \<in> set rs \<and> mt_ts_ready (H2 (mq_txn q))"
    using mvcc_buffered_reads_blocked [OF ok r(1) c] by blast
  have "prereq_mvcc m' = []" using a(1) r(1) by (auto simp: mvcc_eval)
  then show ?thesis using a r by auto
qed

text \<open>
  A read that succeeds returns the newest version not younger than the reader, or the
  base row when every version is younger.
\<close>

theorem mvcc_read_newest:
  assumes "mvcc_inv H m" "mvcc_read cfg t m H = Inr (RCOK, m', H', rs)"
  shows "\<exists>row. mt_cur_row (H' t) = Some row \<and>
    ((\<exists>w\<in>set (writehis m). he_row w = Some row \<and> he_ts w \<le> mt_timestamp (H t) \<and>
        (\<forall>g\<in>set (writehis m). he_ts g \<le> mt_timestamp (H t) \<longrightarrow> he_ts g \<le> he_ts w)) \<or>
     (row = vr_row m \<and> (\<forall>g\<in>set (writehis m). mt_timestamp (H t) < he_ts g)))"
proof -
  have sorted: "his_sorted (writehis m)" using assms(1) by (simp add: mvcc_inv_def version_inv_def)
  obtain row where row: "version_read m (mt_timestamp (H t)) = Some row" "mt_cur_row (H' t) = Some row"
    using assms(2) by (auto simp: mvcc_read_def Let_def split: if_splits option.splits)
  show ?thesis
  proof (cases "his_find (mt_timestamp (H t)) (writehis m)")
    case None
    with row have "row = vr_row m" by (simp add: version_read_def)
    with None row(2) show ?thesis by (auto simp: his_find_None_iff)
  next
    case (Some w)
    with row(1) have "he_row w = Some row" by (simp add: version_read_def)
    with his_find_Some [OF sorted Some] row(2) show ?thesis by blast
  qed
qed

theorem mvcc_read_newest_witness:
  "\<exists>m H1 m' H' rs.
     mvcc_run sample_mv_cfg [(5, P_REQ, None, 0), (5, W_REQ, Some 7, 0)] (mvcc_init (1 :: nat)) sample_mv_txns =
       Inr (m, H1) \<and>
     mvcc_read sample_mv_cfg 10 m H1 = Inr (RCOK, m', H', rs) \<and> mt_cur_row (H' 10) = Some 7"
proof -
  let ?cs = "[(5, P_REQ, None, 0), (5, W_REQ, Some 7, 0)] :: nat mvcc_call list"
  have ok: "mvcc_calls_ok sample_mv_cfg ?cs (mvcc_init (1 :: nat)) sample_mv_txns"
    by (simp add: mvcc_eval)
  obtain m H1 where r: "mvcc_run sample_mv_cfg ?cs (mvcc_init (1 :: nat)) sample_mv_txns = Inr (m, H1)"
    and inv: "mvcc_inv H1 m" and ts: "mt_timestamp (H1 10) = 10"
    using mvcc_run_inv [OF mvcc_inv_init ok] by (auto simp: sample_mv_txns_def)
  have w: "writehis m = [\<lparr>he_ts = 5, he_row = Some 7\<rparr>]"
    using r by (auto simp: mvcc_eval)
  obtain m' H' rs where q: "mvcc_read sample_mv_cfg 10 m H1 = Inr (RCOK, m', H', rs)"
    using r by (auto simp: mvcc_eval)
  from mvcc_read_newest [OF inv q] have "mt_cur_row (H' 10) = Some 7" by (auto simp: w ts)
  with r q show ?thesis by blast
qed

end
