(* ===== verification/KeyedTable.thy ===== *)
theory KeyedTable
imports Interfaces
begin

text \<open>
  The chained hash table shared by \<open>TimeTable\<close> (\<open>maat.cpp\<close>) and \<open>InOutTable\<close> (\<open>ssi.cpp\<close>): an
  array of buckets, a key hashed by its remainder modulo the array size, each bucket a linked
  list searched from its head. A bucket operation runs under the bucket's mutex. The two classes
  differ only in the payload of an entry, which is a type parameter here.
\<close>

type_synonym 'e bucket_table = "(64 word \<times> 'e) list list"

definition table_hash :: "'e bucket_table \<Rightarrow> 64 word \<Rightarrow> nat" where
  "table_hash tbl key = unat key mod length tbl"

definition table_empty :: "nat \<Rightarrow> 'e bucket_table" where
  "table_empty inflight_max = replicate (inflight_max + 1) []"

fun bucket_find :: "(64 word \<times> 'e) list \<Rightarrow> 64 word \<Rightarrow> 'e option" where
  "bucket_find [] key = None"
| "bucket_find ((k, e) # es) key = (if k = key then Some e else bucket_find es key)"

definition table_find :: "'e bucket_table \<Rightarrow> 64 word \<Rightarrow> 'e option" where
  "table_find tbl key = bucket_find (tbl ! table_hash tbl key) key"

definition table_init_key :: "'e \<Rightarrow> 64 word \<Rightarrow> 'e bucket_table \<Rightarrow> 'e bucket_table" where
  "table_init_key e key tbl =
    (let idx = table_hash tbl key in
     if table_find tbl key = None then tbl[idx := tbl ! idx @ [(key, e)]] else tbl)"

definition table_release :: "64 word \<Rightarrow> 'e bucket_table \<Rightarrow> 'e bucket_table" where
  "table_release key tbl =
    (let idx = table_hash tbl key in
     if table_find tbl key = None then tbl
     else tbl[idx := remove_first (\<lambda>(k, _). k = key) (tbl ! idx)])"

fun bucket_update :: "('e \<Rightarrow> 'e) \<Rightarrow> 64 word \<Rightarrow> (64 word \<times> 'e) list \<Rightarrow> (64 word \<times> 'e) list" where
  "bucket_update f key [] = []"
| "bucket_update f key ((k, e) # es) =
    (if k = key then (k, f e) # es else (k, e) # bucket_update f key es)"

text \<open>\<open>entry = find(key); if (entry) entry->field = ...\<close>\<close>

definition table_update :: "('e \<Rightarrow> 'e) \<Rightarrow> 64 word \<Rightarrow> 'e bucket_table \<Rightarrow> 'e bucket_table" where
  "table_update f key tbl =
    (let idx = table_hash tbl key in tbl[idx := bucket_update f key (tbl ! idx)])"

text \<open>Every entry is in the bucket of its key, and no key occurs twice.\<close>

definition table_ok :: "'e bucket_table \<Rightarrow> bool" where
  "table_ok tbl \<longleftrightarrow> tbl \<noteq> [] \<and>
     (\<forall>i<length tbl. distinct (map fst (tbl ! i)) \<and> (\<forall>(k, _)\<in>set (tbl ! i). table_hash tbl k = i))"

lemma table_ok_empty: "table_ok (table_empty n)"
  by (auto simp: table_ok_def table_empty_def simp del: replicate_Suc)

lemma table_find_empty [simp]: "table_find (table_empty n) key = None"
  by (simp add: table_find_def table_empty_def table_hash_def del: replicate_Suc)

lemma table_hash_less: "table_ok tbl \<Longrightarrow> table_hash tbl key < length tbl"
  by (simp add: table_ok_def table_hash_def)

lemma table_hash_update [simp]: "table_hash (tbl[i := b]) = table_hash tbl"
  by (simp add: table_hash_def fun_eq_iff)

lemma bucket_find_None_iff: "bucket_find es key = None \<longleftrightarrow> key \<notin> fst ` set es"
  by (induction es key rule: bucket_find.induct) auto

lemma bucket_find_append:
  "bucket_find (es @ fs) key = (case bucket_find es key of None \<Rightarrow> bucket_find fs key | Some e \<Rightarrow> Some e)"
  by (induction es key rule: bucket_find.induct) simp_all

lemma bucket_find_update:
  "bucket_find (bucket_update f key es) j = (if j = key then map_option f (bucket_find es key) else bucket_find es j)"
  by (induction f key es rule: bucket_update.induct) auto

lemma keys_bucket_update [simp]: "map fst (bucket_update f key es) = map fst es"
  by (induction f key es rule: bucket_update.induct) auto

lemma bucket_find_remove_first:
  "distinct (map fst es) \<Longrightarrow>
   bucket_find (remove_first (\<lambda>(k, _). k = key) es) j = (if j = key then None else bucket_find es j)"
proof (induction es)
  case (Cons p es)
  obtain k e where p: "p = (k, e)" by (cases p)
  show ?case
  proof (cases "k = key")
    case True
    with Cons.prems p have "bucket_find es key = None" by (simp add: bucket_find_None_iff)
    with True p show ?thesis by (auto simp: remove_first_def)
  next
    case False
    then have "remove_first (\<lambda>(k, _). k = key) (p # es) = p # remove_first (\<lambda>(k, _). k = key) es"
      by (auto simp: remove_first_def p split: option.splits)
    with False Cons p show ?thesis by auto
  qed
qed (simp add: remove_first_def)

lemma distinct_keys_remove_first:
  "distinct (map fst es) \<Longrightarrow> distinct (map fst (remove_first P es))"
  unfolding remove_first_def
  by (auto split: option.splits elim: extract_first_SomeE)

lemma table_ok_upd_bucket:
  assumes "table_ok tbl" "distinct (map fst b)" "\<And>k e. (k, e) \<in> set b \<Longrightarrow> table_hash tbl k = i"
  shows "table_ok (tbl[i := b])"
  using assms by (cases "i < length tbl") (auto simp: table_ok_def nth_list_update)

lemma bucket_ok:
  assumes "table_ok tbl"
  shows "distinct (map fst (tbl ! table_hash tbl key))"
    and "(k, e) \<in> set (tbl ! table_hash tbl key) \<Longrightarrow> table_hash tbl k = table_hash tbl key"
  using table_hash_less [OF assms, of key] assms by (auto simp: table_ok_def)

interpretation kt: keyed_table table_ok table_find table_init_key table_release table_update
proof
  fix tbl :: "'a bucket_table" and e k j f
  assume ok: "table_ok tbl"
  note b = bucket_ok [OF ok, where key = k]
  show "table_ok (table_init_key e k tbl)"
    using ok b by (auto simp: table_init_key_def Let_def table_find_def bucket_find_None_iff
        intro!: table_ok_upd_bucket)
  have keys: "p \<in> set (bucket_update f k (tbl ! table_hash tbl k)) \<Longrightarrow> fst p \<in> fst ` set (tbl ! table_hash tbl k)" for p
    by (metis image_eqI keys_bucket_update list.set_map)
  show "table_ok (table_update f k tbl)"
    unfolding table_update_def Let_def
    using ok b keys by (intro table_ok_upd_bucket) (fastforce simp del: map_map)+
  show "table_ok (table_release k tbl)"
    using ok b set_remove_first_subset [of "\<lambda>(k', _). k' = k" "tbl ! table_hash tbl k"]
    by (auto simp: table_release_def Let_def intro!: table_ok_upd_bucket distinct_keys_remove_first)
  show "table_find (table_init_key e k tbl) j = (if j = k \<and> table_find tbl k = None then Some e else table_find tbl j)"
    using table_hash_less [OF ok]
    by (auto simp: table_init_key_def Let_def bucket_find_append table_find_def nth_list_update
        split: option.splits)
  show "table_find (table_release k tbl) j = (if j = k then None else table_find tbl j)"
    using table_hash_less [OF ok]
    by (auto simp: table_release_def Let_def bucket_find_remove_first [OF bucket_ok(1) [OF ok]] table_find_def
        nth_list_update)
  show "table_find (table_update f k tbl) j = (if j = k then map_option f (table_find tbl k) else table_find tbl j)"
    using table_hash_less [OF ok]
    by (auto simp: table_update_def Let_def bucket_find_update table_find_def nth_list_update)
qed

end
