(* ===== verification/InOutTable.thy ===== *)
theory InOutTable
imports KeyedTable
begin

text \<open>
  The table of read-write conflicts of serializable snapshot isolation, \<open>InOutTable\<close> of
  \<open>concurrency_control/ssi.{h,cpp}\<close>, and the validation \<open>ssi::validate\<close>. An entry starts with
  empty conflict sets (\<open>std::set\<close> members of a fresh entry). A \<open>std::set<uint64_t>\<close> is a set of
  words, iterated in increasing order.
\<close>

section \<open>Data\<close>

datatype SSIState = SSI_RUNNING | SSI_COMMITTED | SSI_ABORTED

record InOutTableEntry =
  inConflict :: "64 word set"
  outConflict :: "64 word set"
  io_state :: SSIState
  io_commit_ts :: ts_t

type_synonym inout_table = "InOutTableEntry bucket_table"

section \<open>Operations\<close>

definition inout_entry_init :: InOutTableEntry where
  "inout_entry_init = \<lparr>inConflict = {}, outConflict = {}, io_state = SSI_RUNNING, io_commit_ts = 0\<rparr>"

definition inout_table_init :: "nat \<Rightarrow> inout_table" where
  "inout_table_init g_inflight_max = table_empty g_inflight_max"

definition inout_hash :: "inout_table \<Rightarrow> 64 word \<Rightarrow> nat" where
  "inout_hash tbl key = table_hash tbl key"

definition inout_find :: "inout_table \<Rightarrow> 64 word \<Rightarrow> InOutTableEntry option" where
  "inout_find tbl key = table_find tbl key"

definition inout_init :: "64 word \<Rightarrow> inout_table \<Rightarrow> inout_table" where
  "inout_init key tbl = table_init_key inout_entry_init key tbl"

definition inout_release :: "64 word \<Rightarrow> inout_table \<Rightarrow> inout_table" where
  "inout_release key tbl = table_release key tbl"

definition get_inConflict :: "64 word \<Rightarrow> inout_table \<Rightarrow> bool" where
  "get_inConflict key tbl =
    (case inout_find tbl key of None \<Rightarrow> False | Some e \<Rightarrow> inConflict e \<noteq> {})"

text \<open>The default is \<open>bool value = UINT64_MAX\<close>, that is, true.\<close>

definition get_outConflict :: "64 word \<Rightarrow> inout_table \<Rightarrow> bool" where
  "get_outConflict key tbl =
    (case inout_find tbl key of None \<Rightarrow> True | Some e \<Rightarrow> outConflict e \<noteq> {})"

definition set_inConflict :: "64 word \<Rightarrow> 64 word \<Rightarrow> inout_table \<Rightarrow> inout_table" where
  "set_inConflict key v tbl =
    table_update (\<lambda>e. e\<lparr>inConflict := insert v (inConflict e)\<rparr>) key tbl"

definition set_outConflict :: "64 word \<Rightarrow> 64 word \<Rightarrow> inout_table \<Rightarrow> inout_table" where
  "set_outConflict key v tbl =
    table_update (\<lambda>e. e\<lparr>outConflict := insert v (outConflict e)\<rparr>) key tbl"

definition down_inConflict :: "64 word \<Rightarrow> 64 word \<Rightarrow> inout_table \<Rightarrow> inout_table" where
  "down_inConflict key v tbl =
    table_update (\<lambda>e. e\<lparr>inConflict := inConflict e - {v}\<rparr>) key tbl"

definition down_outConflict :: "64 word \<Rightarrow> 64 word \<Rightarrow> inout_table \<Rightarrow> inout_table" where
  "down_outConflict key v tbl =
    table_update (\<lambda>e. e\<lparr>outConflict := outConflict e - {v}\<rparr>) key tbl"

text \<open>
  The second loop reads the entry's own \<open>outConflict\<close> after the first one, which may have
  removed the key from it.
\<close>

definition clear_Conflict :: "64 word \<Rightarrow> inout_table \<Rightarrow> inout_table" where
  "clear_Conflict key tbl =
    (case inout_find tbl key of
       None \<Rightarrow> tbl
     | Some e \<Rightarrow>
         let tbl1 = fold (\<lambda>k. down_outConflict k key) (sorted_list_of_set (inConflict e)) tbl
         in (case inout_find tbl1 key of
               None \<Rightarrow> tbl1
             | Some e1 \<Rightarrow> fold (\<lambda>k. down_inConflict k key) (sorted_list_of_set (outConflict e1)) tbl1))"

definition get_state :: "64 word \<Rightarrow> inout_table \<Rightarrow> SSIState" where
  "get_state key tbl = (case inout_find tbl key of None \<Rightarrow> SSI_RUNNING | Some e \<Rightarrow> io_state e)"

definition set_state :: "64 word \<Rightarrow> SSIState \<Rightarrow> inout_table \<Rightarrow> inout_table" where
  "set_state key v tbl = table_update (\<lambda>e. e\<lparr>io_state := v\<rparr>) key tbl"

definition get_commit_ts :: "64 word \<Rightarrow> inout_table \<Rightarrow> ts_t" where
  "get_commit_ts key tbl = (case inout_find tbl key of None \<Rightarrow> 0 | Some e \<Rightarrow> io_commit_ts e)"

definition set_commit_ts :: "64 word \<Rightarrow> ts_t \<Rightarrow> inout_table \<Rightarrow> inout_table" where
  "set_commit_ts key v tbl = table_update (\<lambda>e. e\<lparr>io_commit_ts := v\<rparr>) key tbl"

definition ssi_validate :: "64 word \<Rightarrow> inout_table \<Rightarrow> RC" where
  "ssi_validate txnid tbl =
    (if get_inConflict txnid tbl \<and> get_outConflict txnid tbl then Abort else RCOK)"

section \<open>The table as a map\<close>

lemmas inout_updates =
  set_inConflict_def set_outConflict_def down_inConflict_def down_outConflict_def set_state_def
  set_commit_ts_def

lemma inout_ok [simp, intro]:
  assumes "table_ok tbl"
  shows "table_ok (set_inConflict k v tbl)" "table_ok (set_outConflict k v tbl)"
    "table_ok (down_inConflict k v tbl)" "table_ok (down_outConflict k v tbl)"
    "table_ok (set_state k st tbl)" "table_ok (set_commit_ts k ts tbl)"
    "table_ok (inout_init k tbl)" "table_ok (inout_release k tbl)"
  using assms
  by (simp_all add: inout_updates inout_init_def inout_release_def kt.ok_upd kt.ok_ins kt.ok_del)

lemma inout_find_simps:
  assumes "table_ok tbl"
  shows "inout_find (set_inConflict k v tbl) j =
      (if j = k then map_option (\<lambda>e. e\<lparr>inConflict := insert v (inConflict e)\<rparr>) (inout_find tbl k) else inout_find tbl j)"
    "inout_find (set_outConflict k v tbl) j =
      (if j = k then map_option (\<lambda>e. e\<lparr>outConflict := insert v (outConflict e)\<rparr>) (inout_find tbl k) else inout_find tbl j)"
    "inout_find (down_inConflict k v tbl) j =
      (if j = k then map_option (\<lambda>e. e\<lparr>inConflict := inConflict e - {v}\<rparr>) (inout_find tbl k) else inout_find tbl j)"
    "inout_find (down_outConflict k v tbl) j =
      (if j = k then map_option (\<lambda>e. e\<lparr>outConflict := outConflict e - {v}\<rparr>) (inout_find tbl k) else inout_find tbl j)"
    "inout_find (set_state k st tbl) j =
      (if j = k then map_option (\<lambda>e. e\<lparr>io_state := st\<rparr>) (inout_find tbl k) else inout_find tbl j)"
    "inout_find (set_commit_ts k ts tbl) j =
      (if j = k then map_option (\<lambda>e. e\<lparr>io_commit_ts := ts\<rparr>) (inout_find tbl k) else inout_find tbl j)"
    "inout_find (inout_init k tbl) j =
      (if j = k \<and> inout_find tbl k = None then Some inout_entry_init else inout_find tbl j)"
    "inout_find (inout_release k tbl) j = (if j = k then None else inout_find tbl j)"
  using assms
  by (simp_all add: inout_updates inout_find_def inout_init_def inout_release_def
      kt.find_upd kt.find_ins kt.find_del)

text \<open>The two sweeps of \<open>clear_Conflict\<close>.\<close>

lemma fold_down_out:
  assumes "table_ok tbl"
  shows "table_ok (fold (\<lambda>k. down_outConflict k key) ks tbl)"
    and "inout_find (fold (\<lambda>k. down_outConflict k key) ks tbl) j =
      (if j \<in> set ks then map_option (\<lambda>e. e\<lparr>outConflict := outConflict e - {key}\<rparr>) (inout_find tbl j)
       else inout_find tbl j)"
  using kt.ok_fold_upd [OF assms, of "\<lambda>e. e\<lparr>outConflict := outConflict e - {key}\<rparr>" ks]
    kt.find_fold_upd [OF assms, of "\<lambda>e. e\<lparr>outConflict := outConflict e - {key}\<rparr>" ks j]
  by (simp_all add: down_outConflict_def [abs_def] inout_find_def)

lemma fold_down_in:
  assumes "table_ok tbl"
  shows "table_ok (fold (\<lambda>k. down_inConflict k key) ks tbl)"
    and "inout_find (fold (\<lambda>k. down_inConflict k key) ks tbl) j =
      (if j \<in> set ks then map_option (\<lambda>e. e\<lparr>inConflict := inConflict e - {key}\<rparr>) (inout_find tbl j)
       else inout_find tbl j)"
  using kt.ok_fold_upd [OF assms, of "\<lambda>e. e\<lparr>inConflict := inConflict e - {key}\<rparr>" ks]
    kt.find_fold_upd [OF assms, of "\<lambda>e. e\<lparr>inConflict := inConflict e - {key}\<rparr>" ks j]
  by (simp_all add: down_inConflict_def [abs_def] inout_find_def)


section \<open>The conflict graph\<close>

text \<open>Both ends of a recorded read-write dependency know about it.\<close>

definition conflict_sym :: "inout_table \<Rightarrow> bool" where
  "conflict_sym tbl \<longleftrightarrow>
     (\<forall>u v eu ev. inout_find tbl u = Some eu \<longrightarrow> inout_find tbl v = Some ev \<longrightarrow>
        (v \<in> outConflict eu \<longleftrightarrow> u \<in> inConflict ev))"

lemma conflict_sym_init: "conflict_sym (inout_table_init n)"
  by (simp add: conflict_sym_def inout_table_init_def inout_find_def)

text \<open>The read-write dependency from reader \<open>r\<close> to writer \<open>w\<close>, in the two orders the code uses.\<close>

lemma conflict_sym_edge:
  assumes "table_ok tbl" "conflict_sym tbl"
  shows "conflict_sym (set_outConflict r w (set_inConflict w r tbl))"
    and "conflict_sym (set_inConflict w r (set_outConflict r w tbl))"
  using assms unfolding conflict_sym_def by (auto simp: inout_find_simps split: if_splits)

lemma conflict_sym_state:
  assumes "table_ok tbl" "conflict_sym tbl"
  shows "conflict_sym (set_state k st tbl)" "conflict_sym (set_commit_ts k ts tbl)"
  using assms unfolding conflict_sym_def by (auto simp: inout_find_simps split: if_splits)

lemma inout_find_clear:
  assumes ok: "table_ok tbl" and e: "inout_find tbl key = Some e"
  shows "table_ok (clear_Conflict key tbl)"
    and "inout_find (clear_Conflict key tbl) j = map_option (\<lambda>f.
      f\<lparr>outConflict := (if j \<in> inConflict e then outConflict f - {key} else outConflict f),
        inConflict := (if j \<in> outConflict e \<and> \<not> (j = key \<and> key \<in> inConflict e) then inConflict f - {key}
                       else inConflict f)\<rparr>) (inout_find tbl j)"
proof -
  define tbl1 where "tbl1 = fold (\<lambda>k. down_outConflict k key) (sorted_list_of_set (inConflict e)) tbl"
  define e1 where "e1 = (if key \<in> inConflict e then e\<lparr>outConflict := outConflict e - {key}\<rparr> else e)"
  have ok1: "table_ok tbl1" unfolding tbl1_def by (rule fold_down_out(1) [OF ok])
  have f1: "inout_find tbl1 i = (if i \<in> inConflict e
      then map_option (\<lambda>e. e\<lparr>outConflict := outConflict e - {key}\<rparr>) (inout_find tbl i) else inout_find tbl i)" for i
    unfolding tbl1_def fold_down_out(2) [OF ok] by simp
  have clear: "clear_Conflict key tbl = fold (\<lambda>k. down_inConflict k key) (sorted_list_of_set (outConflict e1)) tbl1"
    by (simp add: clear_Conflict_def e tbl1_def [symmetric] f1 e1_def)
  show "table_ok (clear_Conflict key tbl)" unfolding clear by (rule fold_down_in(1) [OF ok1])
  have "inout_find (clear_Conflict key tbl) j = (if j \<in> outConflict e1
      then map_option (\<lambda>e. e\<lparr>inConflict := inConflict e - {key}\<rparr>) (inout_find tbl1 j) else inout_find tbl1 j)"
    unfolding clear fold_down_in(2) [OF ok1] by simp
  then show "inout_find (clear_Conflict key tbl) j = map_option (\<lambda>f.
      f\<lparr>outConflict := (if j \<in> inConflict e then outConflict f - {key} else outConflict f),
        inConflict := (if j \<in> outConflict e \<and> \<not> (j = key \<and> key \<in> inConflict e) then inConflict f - {key}
                       else inConflict f)\<rparr>) (inout_find tbl j)"
    by (cases "inout_find tbl j") (auto simp: f1 e1_def)
qed

text \<open>
  After the conflicts of a transaction are cleared no other transaction has an edge to it, and
  the edges between the others are as before.
\<close>

lemma clear_Conflict_forgets:
  assumes "table_ok tbl" "conflict_sym tbl" "inout_find tbl key = Some e" "j \<noteq> key"
    and "inout_find (clear_Conflict key tbl) j = Some f"
  shows "key \<notin> inConflict f \<and> key \<notin> outConflict f \<and>
    (\<exists>g. inout_find tbl j = Some g \<and> inConflict f = inConflict g - {key} \<and>
         outConflict f = outConflict g - {key} \<and> io_state f = io_state g)"
proof -
  obtain g where g: "inout_find tbl j = Some g"
    and f: "f = g\<lparr>outConflict := (if j \<in> inConflict e then outConflict g - {key} else outConflict g),
        inConflict := (if j \<in> outConflict e then inConflict g - {key} else inConflict g)\<rparr>"
    using assms(4,5) inout_find_clear(2) [OF assms(1,3), of j] by auto
  have "key \<in> outConflict g \<longleftrightarrow> j \<in> inConflict e" "j \<in> outConflict e \<longleftrightarrow> key \<in> inConflict g"
    using assms(2,3) g unfolding conflict_sym_def by blast+
  then show ?thesis using g f by auto
qed

text \<open>Edges survive everything but \<open>clear_Conflict\<close> of one of their ends.\<close>

definition has_in :: "inout_table \<Rightarrow> 64 word \<Rightarrow> bool" where
  "has_in tbl k \<longleftrightarrow> (\<exists>e. inout_find tbl k = Some e \<and> inConflict e \<noteq> {})"

definition has_out :: "inout_table \<Rightarrow> 64 word \<Rightarrow> bool" where
  "has_out tbl k \<longleftrightarrow> (\<exists>e. inout_find tbl k = Some e \<and> outConflict e \<noteq> {})"

lemma validate_abort_iff:
  "ssi_validate k tbl = Abort \<longleftrightarrow> has_in tbl k \<and> has_out tbl k"
  by (auto simp: ssi_validate_def get_inConflict_def get_outConflict_def has_in_def has_out_def
      split: option.splits)

text \<open>The order on tables under which the recording of dependencies is increasing.\<close>

definition inout_le :: "inout_table \<Rightarrow> inout_table \<Rightarrow> bool" where
  "inout_le tbl tbl' \<longleftrightarrow> table_ok tbl' \<and>
     (\<forall>k e. inout_find tbl k = Some e \<longrightarrow>
       (\<exists>e'. inout_find tbl' k = Some e' \<and> inConflict e \<subseteq> inConflict e' \<and> outConflict e \<subseteq> outConflict e' \<and>
             io_state e' = io_state e \<and> io_commit_ts e' = io_commit_ts e)) \<and>
     (\<forall>k. inout_find tbl k = None \<longrightarrow> inout_find tbl' k = None)"

lemma inout_le_refl: "table_ok tbl \<Longrightarrow> inout_le tbl tbl"
  by (simp add: inout_le_def)

lemma inout_leD:
  assumes "inout_le tbl tbl'" "inout_find tbl k = Some e"
  obtains e' where "inout_find tbl' k = Some e'" "inConflict e \<subseteq> inConflict e'"
    "outConflict e \<subseteq> outConflict e'" "io_state e' = io_state e" "io_commit_ts e' = io_commit_ts e"
  using assms unfolding inout_le_def by blast

lemma inout_le_trans:
  assumes ab: "inout_le a b" and bc: "inout_le b c"
  shows "inout_le a c"
proof -
  have "\<exists>e'. inout_find c k = Some e' \<and> inConflict e \<subseteq> inConflict e' \<and> outConflict e \<subseteq> outConflict e' \<and>
      io_state e' = io_state e \<and> io_commit_ts e' = io_commit_ts e" if k: "inout_find a k = Some e" for k e
  proof -
    obtain e1 where e1: "inout_find b k = Some e1" "inConflict e \<subseteq> inConflict e1"
      "outConflict e \<subseteq> outConflict e1" "io_state e1 = io_state e" "io_commit_ts e1 = io_commit_ts e"
      by (rule inout_leD [OF ab k])
    obtain e2 where "inout_find c k = Some e2" "inConflict e1 \<subseteq> inConflict e2"
      "outConflict e1 \<subseteq> outConflict e2" "io_state e2 = io_state e1" "io_commit_ts e2 = io_commit_ts e1"
      by (rule inout_leD [OF bc e1(1)])
    with e1 show ?thesis by auto
  qed
  with ab bc show ?thesis by (simp add: inout_le_def)
qed

lemma inout_le_set:
  assumes "table_ok tbl"
  shows "inout_le tbl (set_inConflict k v tbl)" "inout_le tbl (set_outConflict k v tbl)"
  using assms unfolding inout_le_def by (auto simp: inout_find_simps)

lemma inout_le_has:
  assumes "inout_le tbl tbl'"
  shows "has_in tbl k \<Longrightarrow> has_in tbl' k" "has_out tbl k \<Longrightarrow> has_out tbl' k"
  using assms unfolding inout_le_def has_in_def has_out_def by blast+

end
