(* ===== verification/RowSsi.thy ===== *)
theory RowSsi
imports VersionChain InOutTable
begin

text \<open>
  Serializable snapshot isolation on a row, \<open>Row_ssi\<close> of \<open>concurrency_control/row_ssi.{h,cpp}\<close>.
  A call runs under the row latch; it also updates the global \<open>InOutTable\<close>, which is passed
  along. The threshold of \<open>glob_manager.get_min_ts\<close> is an argument of \<open>access\<close>. Assertions about
  table names and statistics are left out.
\<close>

section \<open>Data\<close>

record 'r SSIHisEntry = "'r his_entry" +
  he_txn :: txnid_t

record SSILockEntry =
  sl_type :: lock_t
  sl_txn :: txnid_t

record SSIReqEntry =
  sq_txn :: "64 word"
  sq_ts :: ts_t

record 'r Row_ssi = "('r, unit SSIHisEntry_ext) version_row" +
  si_read_lock :: "SSILockEntry list"
  write_lock :: "SSILockEntry list"
  ssi_prereq :: "SSIReqEntry list"
  ssi_preq_len :: "64 word"

text \<open>The fields of the calling \<open>TxnManager\<close>; \<open>si_ref\<close> is its address.\<close>

record ssi_txn =
  si_ref :: "64 word"
  si_txn_id :: txnid_t
  si_start_ts :: ts_t
  si_commit_ts :: ts_t

section \<open>Operations\<close>

definition ssi_init :: "'r \<Rightarrow> 'r Row_ssi" where
  "ssi_init row = \<lparr>vr_row = row, readhis = [], writehis = [], whis_len = 0, rhis_len = 0,
     si_read_lock = [], write_lock = [], ssi_prereq = [], ssi_preq_len = 0\<rparr>"

definition ssi_clear_history :: "TsType \<Rightarrow> ts_t \<Rightarrow> 'r Row_ssi \<Rightarrow> ('r Row_ssi \<times> 'r option) result" where
  "ssi_clear_history type ts s = clear_history type ts s"

definition ssi_buffer_req :: "TsType \<Rightarrow> ssi_txn \<Rightarrow> 'r Row_ssi \<Rightarrow> 'r Row_ssi" where
  "ssi_buffer_req type T s =
    (if type = P_REQ then
       s\<lparr>ssi_preq_len := ssi_preq_len s + 1,
         ssi_prereq := \<lparr>sq_txn = si_ref T, sq_ts = si_start_ts T\<rparr> # ssi_prereq s\<rparr>
     else s)"

text \<open>When no request of the transaction is queued the code first prints through the last entry
  of the queue, a null pointer if the queue is empty, and then asserts.\<close>

definition ssi_debuffer_req :: "ssi_txn \<Rightarrow> 'r Row_ssi \<Rightarrow> 'r Row_ssi result" where
  "ssi_debuffer_req T s =
    (case extract_first (\<lambda>q. sq_txn q = si_ref T) (ssi_prereq s) of
       None \<Rightarrow> Inl (if ssi_prereq s = [] then Null_deref else Assert_failed)
     | Some (_, qs) \<Rightarrow> Inr (s\<lparr>ssi_prereq := qs, ssi_preq_len := ssi_preq_len s - 1\<rparr>))"

definition ssi_insert_history :: "ts_t \<Rightarrow> ssi_txn \<Rightarrow> 'r option \<Rightarrow> 'r Row_ssi \<Rightarrow> 'r Row_ssi" where
  "ssi_insert_history ts T row s =
    insert_history \<lparr>he_ts = ts, he_row = row, he_txn = si_txn_id T\<rparr> s"

definition ssi_get_lock :: "lock_t \<Rightarrow> ssi_txn \<Rightarrow> 'r Row_ssi \<Rightarrow> 'r Row_ssi" where
  "ssi_get_lock type T s =
    (let entry = \<lparr>sl_type = type, sl_txn = si_txn_id T\<rparr>;
         s1 = (if type = LOCK_SH then s\<lparr>si_read_lock := entry # si_read_lock s\<rparr> else s)
     in if type = LOCK_EX then s1\<lparr>write_lock := entry # write_lock s1\<rparr> else s1)"

text \<open>The loop ends after the first entry it unlinks, because it clears that entry's \<open>next\<close>.\<close>

definition ssi_release_lock :: "lock_t \<Rightarrow> ssi_txn \<Rightarrow> 'r Row_ssi \<Rightarrow> 'r Row_ssi" where
  "ssi_release_lock type T s =
    (let s1 = (if type = LOCK_SH
               then s\<lparr>si_read_lock := remove_first (\<lambda>l. sl_txn l = si_txn_id T) (si_read_lock s)\<rparr> else s)
     in if type = LOCK_EX
        then s1\<lparr>write_lock := remove_first (\<lambda>l. sl_txn l = si_txn_id T) (write_lock s1)\<rparr> else s1)"

text \<open>\<open>R_REQ\<close>: dependencies on the holders of write locks.\<close>

fun read_locks_loop :: "txnid_t \<Rightarrow> SSILockEntry list \<Rightarrow> inout_table \<Rightarrow> inout_table" where
  "read_locks_loop txnid [] tbl = tbl"
| "read_locks_loop txnid (w # ws) tbl =
    (if sl_txn w = txnid then read_locks_loop txnid ws tbl
     else read_locks_loop txnid ws (set_outConflict txnid (sl_txn w) (set_inConflict (sl_txn w) txnid tbl)))"

text \<open>\<open>R_REQ\<close>: dependencies on the writers of versions newer than the snapshot.\<close>

fun read_versions_loop ::
  "txnid_t \<Rightarrow> ts_t \<Rightarrow> ('r, unit SSIHisEntry_ext) his_entry_scheme list \<Rightarrow> inout_table \<Rightarrow> inout_table" where
  "read_versions_loop txnid start_ts [] tbl = tbl"
| "read_versions_loop txnid start_ts (h # hs) tbl =
    (if he_ts h > start_ts then
       read_versions_loop txnid start_ts hs
         (set_outConflict txnid (he_txn h) (set_inConflict (he_txn h) txnid tbl))
     else tbl)"

definition ssi_read ::
  "ssi_txn \<Rightarrow> 'r Row_ssi \<Rightarrow> inout_table \<Rightarrow> ('r Row_ssi \<times> inout_table \<times> 'r option) result" where
  "ssi_read T s tbl =
    (let s1 = ssi_get_lock LOCK_SH T s;
         tbl1 = read_locks_loop (si_txn_id T) (write_lock s1) tbl
     in (case version_read s1 (si_start_ts T) of
           None \<Rightarrow> Inl Null_deref
         | Some ret \<Rightarrow>
             Inr (s1, read_versions_loop (si_txn_id T) (si_start_ts T) (writehis s1) tbl1, Some ret)))"

text \<open>\<open>P_REQ\<close>: a committed concurrent reader with an incoming conflict forces an abort.\<close>

fun prewrite_must_abort :: "txnid_t \<Rightarrow> ts_t \<Rightarrow> SSILockEntry list \<Rightarrow> inout_table \<Rightarrow> bool" where
  "prewrite_must_abort txnid start_ts [] tbl = False"
| "prewrite_must_abort txnid start_ts (r # rs) tbl =
    (if sl_txn r = txnid then prewrite_must_abort txnid start_ts rs tbl
     else if get_state (sl_txn r) tbl = SSI_COMMITTED \<and> get_commit_ts (sl_txn r) tbl > start_ts \<and>
             get_inConflict (sl_txn r) tbl then True
     else prewrite_must_abort txnid start_ts rs tbl)"

fun prewrite_loop :: "txnid_t \<Rightarrow> ts_t \<Rightarrow> SSILockEntry list \<Rightarrow> inout_table \<Rightarrow> inout_table" where
  "prewrite_loop txnid start_ts [] tbl = tbl"
| "prewrite_loop txnid start_ts (r # rs) tbl =
    (if sl_txn r = txnid then prewrite_loop txnid start_ts rs tbl
     else if get_state (sl_txn r) tbl = SSI_ABORTED then prewrite_loop txnid start_ts rs tbl
     else if get_state (sl_txn r) tbl = SSI_COMMITTED \<and> get_commit_ts (sl_txn r) tbl \<le> start_ts then
       prewrite_loop txnid start_ts rs tbl
     else prewrite_loop txnid start_ts rs
            (set_inConflict txnid (sl_txn r) (set_outConflict (sl_txn r) txnid tbl)))"

definition ssi_prewrite ::
  "his_cfg \<Rightarrow> ssi_txn \<Rightarrow> 'r Row_ssi \<Rightarrow> inout_table \<Rightarrow> RC \<times> 'r Row_ssi \<times> inout_table" where
  "ssi_prewrite cfg T s tbl =
    (let s1 = ssi_get_lock LOCK_EX T s in
     if prewrite_must_abort (si_txn_id T) (si_start_ts T) (si_read_lock s1) tbl then (Abort, s1, tbl)
     else
       (let tbl1 = prewrite_loop (si_txn_id T) (si_start_ts T) (si_read_lock s1) tbl in
        if ssi_preq_len s1 < g_max_pre_req cfg then (RCOK, ssi_buffer_req P_REQ T s1, tbl1)
        else (Abort, s1, tbl1)))"

definition ssi_write :: "ssi_txn \<Rightarrow> 'r option \<Rightarrow> 'r Row_ssi \<Rightarrow> 'r Row_ssi result" where
  "ssi_write T row s =
    ssi_debuffer_req T (ssi_insert_history (si_commit_ts T) T row (ssi_release_lock LOCK_EX T s))"

definition ssi_abort_write :: "ssi_txn \<Rightarrow> 'r Row_ssi \<Rightarrow> 'r Row_ssi result" where
  "ssi_abort_write T s = ssi_debuffer_req T (ssi_release_lock LOCK_SH T (ssi_release_lock LOCK_EX T s))"

definition ssi_recycle ::
  "his_cfg \<Rightarrow> ts_t \<Rightarrow> 'r Row_ssi \<times> inout_table \<times> 'r option \<Rightarrow>
   (RC \<times> 'r Row_ssi \<times> inout_table \<times> 'r option) result" where
  "ssi_recycle cfg t_th = (\<lambda>(s, tbl, cur).
    bind_result (recycle (g_his_recycle_len cfg) t_th s) (\<lambda>s'. Inr (RCOK, s', tbl, cur)))"

text \<open>The last component is the value of \<open>txn->cur_row\<close> that a read sets.\<close>

definition ssi_access ::
  "his_cfg \<Rightarrow> ts_t \<Rightarrow> ssi_txn \<Rightarrow> TsType \<Rightarrow> 'r option \<Rightarrow> 'r Row_ssi \<Rightarrow> inout_table \<Rightarrow>
   (RC \<times> 'r Row_ssi \<times> inout_table \<times> 'r option) result" where
  "ssi_access cfg t_th T type row s tbl =
    (case type of
       R_REQ \<Rightarrow> bind_result (ssi_read T s tbl) (ssi_recycle cfg t_th)
     | P_REQ \<Rightarrow>
         (case ssi_prewrite cfg T s tbl of
            (rc, s1, tbl1) \<Rightarrow>
              if rc = RCOK then ssi_recycle cfg t_th (s1, tbl1, None) else Inr (rc, s1, tbl1, None))
     | W_REQ \<Rightarrow> bind_result (ssi_write T row s) (\<lambda>s1. ssi_recycle cfg t_th (s1, tbl, None))
     | XP_REQ \<Rightarrow> bind_result (ssi_abort_write T s) (\<lambda>s1. ssi_recycle cfg t_th (s1, tbl, None)))"

text \<open>The effect of \<open>TxnManager::commit\<close> and \<open>TxnManager::abort\<close> on the table.\<close>

definition ssi_commit_txn :: "ssi_txn \<Rightarrow> inout_table \<Rightarrow> inout_table" where
  "ssi_commit_txn T tbl = set_state (si_txn_id T) SSI_COMMITTED (set_commit_ts (si_txn_id T) (si_commit_ts T) tbl)"

definition ssi_abort_txn :: "ssi_txn \<Rightarrow> inout_table \<Rightarrow> inout_table" where
  "ssi_abort_txn T tbl = clear_Conflict (si_txn_id T) (set_state (si_txn_id T) SSI_ABORTED tbl)"


section \<open>Effect on the conflict table\<close>

lemma edge_step:
  assumes "table_ok tbl"
  shows "inout_le tbl (set_outConflict r w (set_inConflict w r tbl))"
    "inout_le tbl (set_inConflict w r (set_outConflict r w tbl))"
  using assms by (auto intro: inout_le_trans inout_le_set inout_ok)

lemma read_locks_loop_props:
  assumes "table_ok tbl"
  shows "inout_le tbl (read_locks_loop k ws tbl) \<and>
    (conflict_sym tbl \<longrightarrow> conflict_sym (read_locks_loop k ws tbl))"
  using assms
proof (induction k ws tbl rule: read_locks_loop.induct)
  case (2 txnid w ws tbl)
  show ?case
  proof (cases "sl_txn w = txnid")
    case False
    let ?t = "set_outConflict txnid (sl_txn w) (set_inConflict (sl_txn w) txnid tbl)"
    have "inout_le tbl ?t" "table_ok ?t" using 2(3) edge_step by auto
    with 2(2) [OF False] conflict_sym_edge(1) [OF 2(3)] False show ?thesis
      by (auto intro: inout_le_trans)
  qed (use 2 in simp)
qed (simp add: inout_le_refl)

lemma read_versions_loop_props:
  assumes "table_ok tbl"
  shows "inout_le tbl (read_versions_loop k ts hs tbl) \<and>
    (conflict_sym tbl \<longrightarrow> conflict_sym (read_versions_loop k ts hs tbl))"
  using assms
proof (induction k ts hs tbl rule: read_versions_loop.induct)
  case (2 k ts h hs tbl)
  show ?case
  proof (cases "he_ts h > ts")
    case True
    let ?t = "set_outConflict k (he_txn h) (set_inConflict (he_txn h) k tbl)"
    have "inout_le tbl ?t" "table_ok ?t" using 2(2) edge_step by auto
    with 2(1) [OF True] conflict_sym_edge(1) [OF 2(2)] True show ?thesis
      by (auto intro: inout_le_trans)
  qed (use 2 in \<open>simp add: inout_le_refl\<close>)
qed (simp add: inout_le_refl)

lemma prewrite_loop_props:
  assumes "table_ok tbl"
  shows "inout_le tbl (prewrite_loop k ts rs tbl) \<and>
    (conflict_sym tbl \<longrightarrow> conflict_sym (prewrite_loop k ts rs tbl))"
  using assms
proof (induction rs arbitrary: tbl)
  case (Cons r rs)
  let ?t = "set_inConflict k (sl_txn r) (set_outConflict (sl_txn r) k tbl)"
  have "inout_le tbl ?t" "table_ok ?t" using Cons.prems edge_step by auto
  then have "inout_le tbl (prewrite_loop k ts rs ?t) \<and>
      (conflict_sym tbl \<longrightarrow> conflict_sym (prewrite_loop k ts rs ?t))"
    using Cons.IH [of ?t] conflict_sym_edge(2) [OF Cons.prems] by (auto intro: inout_le_trans)
  with Cons.IH [OF Cons.prems] show ?case by simp
qed (simp add: inout_le_refl)

text \<open>The reader gets an outgoing edge for a foreign write lock, and the lock holder an incoming one.\<close>

lemma read_locks_loop_edge:
  assumes "table_ok tbl" "inout_find tbl k = Some e" "w \<in> set ws" "sl_txn w \<noteq> k"
  shows "has_out (read_locks_loop k ws tbl) k"
  using assms
proof (induction k ws tbl arbitrary: e rule: read_locks_loop.induct)
  case (2 txnid v ws tbl)
  show ?case
  proof (cases "sl_txn v = txnid")
    case True
    with 2 show ?thesis by auto
  next
    case False
    let ?t = "set_outConflict txnid (sl_txn v) (set_inConflict (sl_txn v) txnid tbl)"
    have ok: "table_ok ?t" using 2(3) by auto
    have "has_out ?t txnid" using 2(3,4) False by (auto simp: has_out_def inout_find_simps)
    then have "has_out (read_locks_loop txnid ws ?t) txnid"
      using read_locks_loop_props [OF ok] inout_le_has(2) by blast
    with False show ?thesis by simp
  qed
qed simp

text \<open>A prewrite gets an incoming edge for a foreign read lock of a running transaction.\<close>

lemma prewrite_loop_edge:
  assumes "table_ok tbl" "inout_find tbl k = Some e" "r \<in> set rs" "sl_txn r \<noteq> k"
    and "get_state (sl_txn r) tbl = SSI_RUNNING"
  shows "has_in (prewrite_loop k ts rs tbl) k"
  using assms
proof (induction rs arbitrary: tbl e)
  case (Cons q rs)
  define t where "t = set_inConflict k (sl_txn q) (set_outConflict (sl_txn q) k tbl)"
  have ok: "table_ok t" and le: "inout_le tbl t"
    unfolding t_def using Cons.prems(1) edge_step by auto
  have new: "has_in t k" if "sl_txn q \<noteq> k"
    unfolding t_def using Cons.prems(1,2) that by (auto simp: has_in_def inout_find_simps)
  have keep: "has_in (prewrite_loop k ts rs t) k" if "has_in t k"
    using that prewrite_loop_props [OF ok] inout_le_has(1) by blast
  show ?case
  proof (cases "r = q")
    case True
    with Cons.prems(4,5) new keep show ?thesis by (simp add: t_def [symmetric])
  next
    case False
    then have r: "r \<in> set rs" using Cons.prems(3) by simp
    have "has_in (prewrite_loop k ts rs tbl) k" using Cons.IH [OF Cons.prems(1,2) r Cons.prems(4,5)] .
    with new keep show ?thesis by (simp add: t_def [symmetric])
  qed
qed simp


lemma ssi_recycle_Inr:
  "ssi_recycle cfg t_th (s, tbl, cur) = Inr (rc, s', tbl', cur') \<longleftrightarrow>
     rc = RCOK \<and> recycle (g_his_recycle_len cfg) t_th s = Inr s' \<and> tbl' = tbl \<and> cur' = cur"
  by (auto simp: ssi_recycle_def bind_result_Inr_iff)

lemma ssi_get_lock_fields [simp]:
  "write_lock (ssi_get_lock LOCK_SH T s) = write_lock s"
  "si_read_lock (ssi_get_lock LOCK_EX T s) = si_read_lock s"
  "writehis (ssi_get_lock l T s) = writehis s"
  "vpart (ssi_get_lock l T s) = vpart s"
  "vpart (ssi_release_lock l T s) = vpart s"
  "vpart (ssi_buffer_req ty T s) = vpart s"
  by (simp_all add: ssi_get_lock_def ssi_release_lock_def ssi_buffer_req_def vpart_def Let_def)

lemma ssi_read_Inr:
  "ssi_read T s tbl = Inr (s', tbl', cur) \<longleftrightarrow>
     s' = ssi_get_lock LOCK_SH T s \<and> cur = version_read s (si_start_ts T) \<and> cur \<noteq> None \<and>
     tbl' = read_versions_loop (si_txn_id T) (si_start_ts T) (writehis s)
              (read_locks_loop (si_txn_id T) (write_lock s) tbl)"
proof -
  have "version_read (ssi_get_lock LOCK_SH T s) = version_read s"
    by (metis ssi_get_lock_fields(4) version_read_vpart)
  then show ?thesis by (auto simp: ssi_read_def Let_def split: option.splits)
qed

lemma ssi_access_table:
  assumes ok: "table_ok tbl" and run: "ssi_access cfg t_th T type row s tbl = Inr (rc, s', tbl', cur)"
  shows "inout_le tbl tbl' \<and> (conflict_sym tbl \<longrightarrow> conflict_sym tbl')"
proof (cases type)
  case R_REQ
  define t1 where "t1 = read_locks_loop (si_txn_id T) (write_lock s) tbl"
  have t1: "inout_le tbl t1" "conflict_sym tbl \<longrightarrow> conflict_sym t1"
    unfolding t1_def using read_locks_loop_props [OF ok] by blast+
  have tbl': "tbl' = read_versions_loop (si_txn_id T) (si_start_ts T) (writehis s) t1"
    using run R_REQ by (auto simp: ssi_access_def bind_result_Inr_iff ssi_recycle_Inr ssi_read_Inr t1_def)
  have "table_ok t1" using t1(1) by (simp add: inout_le_def)
  from read_versions_loop_props [OF this] t1 show ?thesis
    unfolding tbl' by (meson inout_le_trans)
next
  case P_REQ
  then have "tbl' = tbl \<or> tbl' = prewrite_loop (si_txn_id T) (si_start_ts T) (si_read_lock s) tbl"
    using run by (auto simp: ssi_access_def ssi_prewrite_def Let_def ssi_recycle_Inr split: if_splits)
  then show ?thesis using prewrite_loop_props [OF ok] ok by (auto simp: inout_le_refl)
next
  case W_REQ
  with run ok show ?thesis by (auto simp: ssi_access_def bind_result_Inr_iff ssi_recycle_Inr inout_le_refl)
next
  case XP_REQ
  with run ok show ?thesis by (auto simp: ssi_access_def bind_result_Inr_iff ssi_recycle_Inr inout_le_refl)
qed

lemma ssi_read_out_edge:
  assumes "table_ok tbl" "inout_find tbl (si_txn_id T) = Some e"
    and "w \<in> set (write_lock s)" "sl_txn w \<noteq> si_txn_id T"
    and "ssi_access cfg t_th T R_REQ row s tbl = Inr (rc, s', tbl', cur)"
  shows "has_out tbl' (si_txn_id T)"
proof -
  define t1 where "t1 = read_locks_loop (si_txn_id T) (write_lock s) tbl"
  have "tbl' = read_versions_loop (si_txn_id T) (si_start_ts T) (writehis s) t1"
    using assms(5) by (auto simp: ssi_access_def bind_result_Inr_iff ssi_recycle_Inr ssi_read_Inr t1_def)
  moreover have "has_out t1 (si_txn_id T)"
    unfolding t1_def using read_locks_loop_edge [OF assms(1-4)] .
  moreover have "table_ok t1"
    using read_locks_loop_props [OF assms(1)] by (simp add: t1_def inout_le_def)
  ultimately show ?thesis using read_versions_loop_props inout_le_has(2) by blast
qed

lemma ssi_prewrite_in_edge:
  assumes "table_ok tbl" "inout_find tbl (si_txn_id T) = Some e"
    and "r \<in> set (si_read_lock s)" "sl_txn r \<noteq> si_txn_id T" "get_state (sl_txn r) tbl = SSI_RUNNING"
    and "ssi_access cfg t_th T P_REQ row s tbl = Inr (RCOK, s', tbl', cur)"
  shows "has_in tbl' (si_txn_id T)"
proof -
  have "tbl' = prewrite_loop (si_txn_id T) (si_start_ts T) (si_read_lock s) tbl"
    using assms(6) by (auto simp: ssi_access_def ssi_prewrite_def Let_def ssi_recycle_Inr split: if_splits)
  then show ?thesis using prewrite_loop_edge [OF assms(1-5)] by simp
qed

section \<open>Effect on the versions\<close>

text \<open>
  A call refines the version store: a commit installs its version and all calls may recycle.
\<close>

lemma vpart_debuffer: "ssi_debuffer_req T s = Inr s' \<Longrightarrow> vpart s' = vpart s"
  by (auto simp: ssi_debuffer_req_def vpart_def split: option.splits)

lemma ssi_access_refines:
  assumes inv: "version_inv s" and run: "ssi_access cfg t_th T type row s tbl = Inr (rc, s', tbl', cur)"
    and row: "type = W_REQ \<longrightarrow> row \<noteq> None"
  shows "version_run insert_writehis maintain
      ((if type = W_REQ then [Install \<lparr>he_ts = si_commit_ts T, he_row = row, he_txn = si_txn_id T\<rparr>] else []) @
       [Recycle t_th]) (vpart s) (vpart s')"
proof -
  have m: "maintain t_th (vpart s1) (vpart s2)" if "recycle len t_th s1 = Inr s2" "version_inv (vpart s1)"
    for s1 s2 :: "'a Row_ssi" and len
    using that maintain_vpart by auto
  show ?thesis
  proof (cases type)
    case R_REQ
    then have "recycle (g_his_recycle_len cfg) t_th (ssi_get_lock LOCK_SH T s) = Inr s'"
      using run by (auto simp: ssi_access_def bind_result_Inr_iff ssi_recycle_Inr ssi_read_Inr)
    from m [OF this] inv R_REQ show ?thesis by simp
  next
    case P_REQ
    let ?s1 = "ssi_buffer_req P_REQ T (ssi_get_lock LOCK_EX T s)"
    from P_REQ run have "s' = ssi_get_lock LOCK_EX T s \<or> recycle (g_his_recycle_len cfg) t_th ?s1 = Inr s'"
      by (auto simp: ssi_access_def ssi_prewrite_def Let_def ssi_recycle_Inr split: if_splits)
    then show ?thesis
      using m [of _ ?s1 s'] inv P_REQ by (auto simp: maintain_refl)
  next
    case W_REQ
    then obtain s1 where s1: "ssi_write T row s = Inr s1" "recycle (g_his_recycle_len cfg) t_th s1 = Inr s'"
      using run by (auto simp: ssi_access_def bind_result_Inr_iff ssi_recycle_Inr)
    define e where "e = \<lparr>he_ts = si_commit_ts T, he_row = row, he_txn = si_txn_id T\<rparr>"
    have "vpart s1 = insert_writehis e (vpart s)"
      using s1(1) row W_REQ
      by (auto simp: ssi_write_def ssi_insert_history_def insert_history_def vpart_insert_writehis e_def
          dest!: vpart_debuffer)
    moreover have "version_inv (insert_writehis e (vpart s))"
      using inv row W_REQ by (simp add: version_inv_insert_writehis e_def)
    ultimately show ?thesis using m [OF s1(2)] W_REQ by (simp add: e_def)
  next
    case XP_REQ
    then obtain s1 where s1: "ssi_abort_write T s = Inr s1" "recycle (g_his_recycle_len cfg) t_th s1 = Inr s'"
      using run by (auto simp: ssi_access_def bind_result_Inr_iff ssi_recycle_Inr)
    have "vpart s1 = vpart s" using s1(1) by (auto simp: ssi_abort_write_def dest!: vpart_debuffer)
    with m [OF s1(2)] inv XP_REQ show ?thesis by simp
  qed
qed


section \<open>Runs\<close>

text \<open>What the nodes of the system do with a set of rows and the table.\<close>

datatype 'r ssi_event =
    SsiAccess nat ssi_txn TsType "'r option" ts_t
  | SsiCommit ssi_txn
  | SsiAbort ssi_txn

fun ssi_run ::
  "his_cfg \<Rightarrow> 'r ssi_event list \<Rightarrow> (nat \<Rightarrow> 'r Row_ssi) \<Rightarrow> inout_table \<Rightarrow>
   ((nat \<Rightarrow> 'r Row_ssi) \<times> inout_table) result" where
  "ssi_run cfg [] rows tbl = Inr (rows, tbl)"
| "ssi_run cfg (SsiAccess i T type row t_th # evs) rows tbl =
    bind_result (ssi_access cfg t_th T type row (rows i) tbl)
      (\<lambda>(_, s, tbl', _). ssi_run cfg evs (rows(i := s)) tbl')"
| "ssi_run cfg (SsiCommit T # evs) rows tbl = ssi_run cfg evs rows (ssi_commit_txn T tbl)"
| "ssi_run cfg (SsiAbort T # evs) rows tbl = ssi_run cfg evs rows (ssi_abort_txn T tbl)"

text \<open>What an event means to the version store of row \<open>i\<close>.\<close>

fun ssi_ops :: "nat \<Rightarrow> 'r ssi_event \<Rightarrow> (('r, unit SSIHisEntry_ext) his_entry_scheme, ts_t) version_op list" where
  "ssi_ops i (SsiAccess j T type row t_th) =
    (if j = i then
       (if type = W_REQ then [Install \<lparr>he_ts = si_commit_ts T, he_row = row, he_txn = si_txn_id T\<rparr>] else []) @
       [Recycle t_th]
     else [])"
| "ssi_ops i (SsiCommit T) = []"
| "ssi_ops i (SsiAbort T) = []"

fun ssi_event_ok :: "'r ssi_event \<Rightarrow> bool" where
  "ssi_event_ok (SsiAccess i T type row t_th) = (type = W_REQ \<longrightarrow> row \<noteq> None)"
| "ssi_event_ok _ = True"

text \<open>An event that belongs to the future of the snapshot \<open>u\<close> on row \<open>i\<close>.\<close>

fun ssi_after :: "nat \<Rightarrow> ts_t \<Rightarrow> 'r ssi_event \<Rightarrow> bool" where
  "ssi_after i u (SsiAccess j T type row t_th) =
    (j = i \<longrightarrow> t_th \<le> u \<and> (type = W_REQ \<longrightarrow> u < si_commit_ts T))"
| "ssi_after i u _ = True"

lemma ssi_run_refines:
  assumes "ssi_run cfg evs rows tbl = Inr (rows', tbl')" "\<And>j. version_inv (rows j)"
    and "\<And>ev. ev \<in> set evs \<Longrightarrow> ssi_event_ok ev"
  shows "version_run insert_writehis maintain (concat (map (ssi_ops i) evs)) (vpart (rows i)) (vpart (rows' i))"
  using assms
proof (induction evs arbitrary: rows tbl)
  case (Cons ev evs)
  show ?case
  proof (cases ev)
    case (SsiAccess j T type row t_th)
    obtain rc s t cur where a: "ssi_access cfg t_th T type row (rows j) tbl = Inr (rc, s, t, cur)"
      and r: "ssi_run cfg evs (rows(j := s)) t = Inr (rows', tbl')"
      using Cons.prems(1) SsiAccess by (auto simp: bind_result_Inr_iff)
    have row: "type = W_REQ \<longrightarrow> row \<noteq> None" using Cons.prems(3) SsiAccess by force
    note ref = ssi_access_refines [OF Cons.prems(2) a row]
    have "version_inv (vpart s)"
      by (rule vc.run_ok [OF ref]) (use Cons.prems(2) row in \<open>auto split: if_splits\<close>)
    then have IH: "version_run insert_writehis maintain (concat (map (ssi_ops i) evs))
        (vpart ((rows(j := s)) i)) (vpart (rows' i))"
      using Cons.prems(2,3) by (intro Cons.IH [OF r]) auto
    show ?thesis
    proof (cases "j = i")
      case True
      then show ?thesis using ref IH SsiAccess by (auto simp: version_run_append)
    qed (use IH SsiAccess in simp)
  qed (use Cons in simp_all)
qed simp

lemma ssi_run_snapshot:
  assumes "ssi_run cfg evs rows tbl = Inr (rows', tbl')" "\<And>j. version_inv (rows j)"
    and "\<And>ev. ev \<in> set evs \<Longrightarrow> ssi_event_ok ev \<and> ssi_after i u ev"
  shows "version_inv (rows' i) \<and> version_read (rows' i) u = version_read (rows i) u"
proof -
  have "version_run insert_writehis maintain (concat (map (ssi_ops i) evs)) (vpart (rows i)) (vpart (rows' i))"
    using assms by (intro ssi_run_refines) auto
  moreover have "he_row e \<noteq> None \<and> u < he_ts e" if "Install e \<in> set (concat (map (ssi_ops i) evs))" for e
  proof -
    from that obtain ev where ev: "ev \<in> set evs" "Install e \<in> set (ssi_ops i ev)" by auto
    with assms(3) [OF ev(1)] show ?thesis by (cases ev) (auto split: if_splits)
  qed
  moreover have "th \<le> u" if "Recycle th \<in> set (concat (map (ssi_ops i) evs))" for th
  proof -
    from that obtain ev where ev: "ev \<in> set evs" "Recycle th \<in> set (ssi_ops i ev)" by auto
    with assms(3) [OF ev(1)] show ?thesis by (cases ev) (auto split: if_splits)
  qed
  ultimately have "version_inv (vpart (rows' i)) \<and> version_read (vpart (rows' i)) u = version_read (vpart (rows i)) u"
    using assms(2) by (intro vc.snapshot_stable) auto
  then show ?thesis by simp
qed

text \<open>Runs without commits and aborts only add conflicts.\<close>

fun is_access :: "'r ssi_event \<Rightarrow> bool" where
  "is_access (SsiAccess _ _ _ _ _) = True"
| "is_access _ = False"

lemma ssi_run_table:
  assumes "ssi_run cfg evs rows tbl = Inr (rows', tbl')" "table_ok tbl" "\<forall>ev\<in>set evs. is_access ev"
  shows "inout_le tbl tbl'"
  using assms
proof (induction evs arbitrary: rows tbl)
  case (Cons ev evs)
  then obtain i T type row t_th where ev: "ev = SsiAccess i T type row t_th" by (cases ev) auto
  obtain rc s t cur where a: "ssi_access cfg t_th T type row (rows i) tbl = Inr (rc, s, t, cur)"
    and r: "ssi_run cfg evs (rows(i := s)) t = Inr (rows', tbl')"
    using Cons.prems(1) ev by (auto simp: bind_result_Inr_iff)
  have le: "inout_le tbl t" using ssi_access_table [OF Cons.prems(2) a] by simp
  then have "table_ok t" by (simp add: inout_le_def)
  with Cons.IH [OF r] Cons.prems(3) have "inout_le t tbl'" by simp
  with le show ?case by (rule inout_le_trans)
qed (simp add: inout_le_refl)


text \<open>Without an entry for a transaction nothing is ever recorded for it.\<close>

definition no_entries :: "inout_table \<Rightarrow> bool" where
  "no_entries tbl \<longleftrightarrow> table_ok tbl \<and> (\<forall>k. inout_find tbl k = None)"

lemma ssi_run_no_entries:
  assumes "ssi_run cfg evs rows tbl = Inr (rows', tbl')" "no_entries tbl"
  shows "no_entries tbl'"
  using assms
proof (induction evs arbitrary: rows tbl)
  case (Cons ev evs)
  have ok: "table_ok tbl" using Cons.prems(2) by (simp add: no_entries_def)
  show ?case
  proof (cases ev)
    case (SsiAccess i T type row t_th)
    obtain rc s t cur where a: "ssi_access cfg t_th T type row (rows i) tbl = Inr (rc, s, t, cur)"
      and r: "ssi_run cfg evs (rows(i := s)) t = Inr (rows', tbl')"
      using Cons.prems(1) SsiAccess by (auto simp: bind_result_Inr_iff)
    have "no_entries t"
      using ssi_access_table [OF ok a] Cons.prems(2) by (auto simp: no_entries_def inout_le_def)
    from Cons.IH [OF r this] show ?thesis .
  next
    case (SsiCommit T)
    have "no_entries (ssi_commit_txn T tbl)"
      using Cons.prems(2) by (auto simp: no_entries_def ssi_commit_txn_def inout_find_simps)
    with Cons SsiCommit show ?thesis by simp
  next
    case (SsiAbort T)
    have "no_entries (ssi_abort_txn T tbl)"
      using Cons.prems(2) by (auto simp: no_entries_def ssi_abort_txn_def clear_Conflict_def inout_find_simps)
    with Cons SsiAbort show ?thesis by simp
  qed
qed simp

section \<open>Properties\<close>

text \<open>Concrete transactions and rows for the instances.\<close>

definition sample_ssi_cfg :: his_cfg where
  "sample_ssi_cfg = \<lparr>g_max_read_req = 8, g_max_pre_req = 8, g_his_recycle_len = 10\<rparr>"

definition sample_ssi_txn :: "64 word \<Rightarrow> ts_t \<Rightarrow> ts_t \<Rightarrow> ssi_txn" where
  "sample_ssi_txn k start commit = \<lparr>si_ref = k, si_txn_id = k, si_start_ts = start, si_commit_ts = commit\<rparr>"

lemmas ssi_eval =
  ssi_access_def ssi_read_def ssi_prewrite_def ssi_write_def ssi_abort_write_def ssi_recycle_def
  ssi_get_lock_def ssi_release_lock_def ssi_buffer_req_def ssi_debuffer_req_def ssi_insert_history_def
  ssi_init_def insert_history_def insert_writehis_def insert_readhis_def his_insert_def remove_first_def
  recycle_def recycle_reads_def recycle_writes_def version_read_def sample_ssi_cfg_def sample_ssi_txn_def Let_def

lemma version_inv_ssi_init: "version_inv (ssi_init row)"
  by (simp add: version_inv_def ssi_init_def his_sorted_def)

text \<open>
  Claim C21. Snapshot reads repeat: a transaction that reads a row twice gets the same contents both
  times, whatever accesses, commits and aborts of any transactions on any rows happen in between,
  provided the versions installed on the row carry commit timestamps after the snapshot and the
  recycling thresholds do not pass it.
\<close>

theorem ssi_snapshot_read_repeats:
  assumes "\<And>j. version_inv (rows j)"
    and "ssi_access cfg th1 T R_REQ r1 (rows i) tbl = Inr (rc1, s1, tbl1, cur1)"
    and "ssi_run cfg evs (rows(i := s1)) tbl1 = Inr (rows2, tbl2)"
    and "\<And>ev. ev \<in> set evs \<Longrightarrow> ssi_event_ok ev \<and> ssi_after i (si_start_ts T) ev"
    and "th1 \<le> si_start_ts T"
    and "ssi_access cfg th2 T R_REQ r2 (rows2 i) tbl2 = Inr (rc2, s2, tbl3, cur2)"
  shows "cur2 = cur1"
proof -
  let ?u = "si_start_ts T"
  have first: "ssi_run cfg [SsiAccess i T R_REQ r1 th1] rows tbl = Inr (rows(i := s1), tbl1)"
    using assms(2) by simp
  have s1: "version_inv ((rows(i := s1)) j)" for j
    using ssi_run_snapshot [OF first assms(1), of j ?u] assms(1,5) by (cases "j = i") auto
  have "version_read s1 ?u = version_read (rows i) ?u"
    using ssi_run_snapshot [OF first assms(1), of i ?u] assms(5) by simp
  moreover have "version_read (rows2 i) ?u = version_read s1 ?u"
    using ssi_run_snapshot [OF assms(3) s1, of i ?u] assms(4) by simp
  moreover have "cur1 = version_read (rows i) ?u" "cur2 = version_read (rows2 i) ?u"
    using assms(2,6) by (auto simp: ssi_access_def bind_result_Inr_iff ssi_recycle_Inr ssi_read_Inr)
  ultimately show ?thesis by simp
qed

lemmas ssi_table_eval =
  inout_table_init_def inout_init_def inout_find_def inout_updates table_init_key_def table_find_def
  table_update_def table_hash_def table_empty_def inout_entry_init_def get_state_def get_commit_ts_def
  get_inConflict_def get_outConflict_def

theorem ssi_snapshot_read_repeats_witness:
  "\<exists>s1 tbl1 rows2 tbl2 s2 tbl3.
     ssi_access sample_ssi_cfg 0 (sample_ssi_txn 1 10 0) R_REQ None (ssi_init (1 :: nat)) (inout_table_init 3) =
       Inr (RCOK, s1, tbl1, Some 1) \<and>
     ssi_run sample_ssi_cfg
       [SsiAccess 0 (sample_ssi_txn 2 5 20) P_REQ None 0, SsiAccess 0 (sample_ssi_txn 2 5 20) W_REQ (Some 9) 0]
       ((\<lambda>_. ssi_init 1)(0 := s1)) tbl1 = Inr (rows2, tbl2) \<and>
     version_read (rows2 0) 20 = Some 9 \<and>
     ssi_access sample_ssi_cfg 0 (sample_ssi_txn 1 10 0) R_REQ None (rows2 0) tbl2 = Inr (RCOK, s2, tbl3, Some 1)"
proof -
  let ?T = "sample_ssi_txn 1 10 0" and ?rows = "(\<lambda>_. ssi_init 1) :: nat \<Rightarrow> nat Row_ssi"
  let ?evs = "[SsiAccess 0 (sample_ssi_txn 2 5 20) P_REQ None 0,
     SsiAccess 0 (sample_ssi_txn 2 5 20) W_REQ (Some 9) 0] :: nat ssi_event list"
  obtain s1 tbl1 where a: "ssi_access sample_ssi_cfg 0 ?T R_REQ None (?rows 0) (inout_table_init 3) =
      Inr (RCOK, s1, tbl1, Some 1)"
    and s1: "s1 = ssi_get_lock LOCK_SH ?T (ssi_init 1)" "tbl1 = inout_table_init 3"
    by (simp add: ssi_eval)
  obtain rows2 tbl2 where r: "ssi_run sample_ssi_cfg ?evs (?rows(0 := s1)) tbl1 = Inr (rows2, tbl2)"
    and v: "version_read (rows2 0) 20 = Some 9"
    by (simp add: s1 ssi_eval ssi_table_eval)
  obtain s2 tbl3 cur where b: "ssi_access sample_ssi_cfg 0 ?T R_REQ None (rows2 0) tbl2 = Inr (RCOK, s2, tbl3, cur)"
    using r by (auto simp: s1 ssi_eval ssi_table_eval)
  have "cur = Some 1"
    by (rule ssi_snapshot_read_repeats [OF _ a r _ _ b])
      (auto simp: version_inv_ssi_init sample_ssi_txn_def)
  with a r v b show ?thesis by auto
qed

text \<open>
  What the conflict table would detect if \<open>InOutTable::init(thd_id, key)\<close> had been called for a
  transaction, which the program never does: if the transaction reads a row that another one has
  write-locked, later prewrites a row that a running transaction has read, and only accesses (by
  anyone, to any rows) happen besides, then its validation aborts it.
\<close>

theorem ssi_pivot_aborts:
  assumes "table_ok tbl" "inout_find tbl (si_txn_id T) = Some e"
    and "w \<in> set (write_lock s)" "sl_txn w \<noteq> si_txn_id T"
    and "ssi_access cfg th1 T R_REQ None s tbl = Inr (rc1, s', tbl1, cur1)"
    and "ssi_run cfg evs_a rows1 tbl1 = Inr (rows1', tbl2)" "\<forall>ev\<in>set evs_a. is_access ev"
    and "r \<in> set (si_read_lock q)" "sl_txn r \<noteq> si_txn_id T" "get_state (sl_txn r) tbl2 = SSI_RUNNING"
    and "ssi_access cfg th2 T P_REQ None q tbl2 = Inr (RCOK, q', tbl3, cur2)"
    and "ssi_run cfg evs_b rows2 tbl3 = Inr (rows2', tbl4)" "\<forall>ev\<in>set evs_b. is_access ev"
  shows "ssi_validate (si_txn_id T) tbl4 = Abort"
proof -
  have out1: "has_out tbl1 (si_txn_id T)" by (rule ssi_read_out_edge [OF assms(1-5)])
  have le1: "inout_le tbl tbl1" using ssi_access_table [OF assms(1,5)] by simp
  then have ok1: "table_ok tbl1" by (simp add: inout_le_def)
  have le2: "inout_le tbl1 tbl2" by (rule ssi_run_table [OF assms(6) ok1 assms(7)])
  then have ok2: "table_ok tbl2" by (simp add: inout_le_def)
  obtain e2 where e2: "inout_find tbl2 (si_txn_id T) = Some e2"
    using inout_leD [OF inout_le_trans [OF le1 le2] assms(2)] by blast
  have in3: "has_in tbl3 (si_txn_id T)" by (rule ssi_prewrite_in_edge [OF ok2 e2 assms(8-11)])
  have le3: "inout_le tbl2 tbl3" using ssi_access_table [OF ok2 assms(11)] by simp
  then have ok3: "table_ok tbl3" by (simp add: inout_le_def)
  have le4: "inout_le tbl3 tbl4" by (rule ssi_run_table [OF assms(12) ok3 assms(13)])
  have "has_out tbl4 (si_txn_id T)"
    using out1 inout_le_has(2) [OF inout_le_trans [OF le2 inout_le_trans [OF le3 le4]]] by simp
  moreover have "has_in tbl4 (si_txn_id T)" using in3 inout_le_has(1) [OF le4] by simp
  ultimately show ?thesis by (simp add: validate_abort_iff)
qed

theorem ssi_pivot_aborts_witness:
  "\<exists>s' tbl1 q' tbl3.
     ssi_access sample_ssi_cfg 0 (sample_ssi_txn 1 10 0) R_REQ None
       (ssi_get_lock LOCK_EX (sample_ssi_txn 2 5 20) (ssi_init (1 :: nat))) (inout_init 1 (inout_table_init 3)) =
       Inr (RCOK, s', tbl1, Some 1) \<and>
     ssi_access sample_ssi_cfg 0 (sample_ssi_txn 1 10 0) P_REQ None
       (ssi_get_lock LOCK_SH (sample_ssi_txn 3 5 20) (ssi_init (1 :: nat))) tbl1 = Inr (RCOK, q', tbl3, None) \<and>
     ssi_validate 1 tbl3 = Abort"
proof -
  let ?T = "sample_ssi_txn 1 10 0" and ?tbl = "inout_init 1 (inout_table_init 3)"
  let ?s = "ssi_get_lock LOCK_EX (sample_ssi_txn 2 5 20) (ssi_init (1 :: nat))"
  let ?q = "ssi_get_lock LOCK_SH (sample_ssi_txn 3 5 20) (ssi_init (1 :: nat))"
  have ok: "table_ok ?tbl" by (simp add: inout_table_init_def table_ok_empty inout_ok)
  have e: "inout_find ?tbl (si_txn_id ?T) = Some inout_entry_init"
    using ok by (simp add: ssi_table_eval sample_ssi_txn_def)
  obtain s' tbl1 where a: "ssi_access sample_ssi_cfg 0 ?T R_REQ None ?s ?tbl = Inr (RCOK, s', tbl1, Some 1)"
    by (simp add: ssi_eval)
  obtain q' tbl3 where b: "ssi_access sample_ssi_cfg 0 ?T P_REQ None ?q tbl1 = Inr (RCOK, q', tbl3, None)"
    and st: "get_state 3 tbl1 = SSI_RUNNING"
    using a by (auto simp: ssi_eval ssi_table_eval)
  have "ssi_validate (si_txn_id ?T) tbl3 = Abort"
    by (rule ssi_pivot_aborts [OF ok e _ _ a _ _ _ _ _ b, where evs_a = "[]" and evs_b = "[]"
          and w = "\<lparr>sl_type = LOCK_EX, sl_txn = 2\<rparr>" and r = "\<lparr>sl_type = LOCK_SH, sl_txn = 3\<rparr>"])
      (simp_all add: ssi_get_lock_def ssi_init_def sample_ssi_txn_def st)
  with a b show ?thesis by (auto simp: sample_ssi_txn_def)
qed

text \<open>
  Claim C29. As the program uses the table, validation never aborts: nothing in the program creates
  an entry (\<open>InOutTable::init(thd_id, key)\<close> has no caller), and from the empty table every run of
  accesses, commits and aborts leaves it without entries, so \<open>validate\<close> returns \<open>RCOK\<close> for every
  transaction.
\<close>

theorem ssi_validate_never_aborts:
  assumes "ssi_run cfg evs rows (inout_table_init n) = Inr (rows', tbl)"
  shows "ssi_validate k tbl = RCOK"
proof -
  have "no_entries (inout_table_init n)"
    by (simp add: no_entries_def inout_table_init_def table_ok_empty inout_find_def)
  from ssi_run_no_entries [OF assms this] show ?thesis
    by (simp add: no_entries_def ssi_validate_def get_inConflict_def)
qed

theorem ssi_validate_never_aborts_witness:
  "\<exists>rows tbl. ssi_run sample_ssi_cfg
     [SsiAccess 0 (sample_ssi_txn 2 5 20) P_REQ None 0, SsiAccess 0 (sample_ssi_txn 1 10 30) R_REQ None 0,
      SsiAccess 1 (sample_ssi_txn 3 5 20) R_REQ None 0, SsiAccess 1 (sample_ssi_txn 1 10 30) P_REQ None 0]
     (\<lambda>_. ssi_init (1 :: nat)) (inout_table_init 3) = Inr (rows, tbl) \<and> ssi_validate 1 tbl = RCOK"
proof -
  let ?evs = "[SsiAccess 0 (sample_ssi_txn 2 5 20) P_REQ None 0, SsiAccess 0 (sample_ssi_txn 1 10 30) R_REQ None 0,
      SsiAccess 1 (sample_ssi_txn 3 5 20) R_REQ None 0, SsiAccess 1 (sample_ssi_txn 1 10 30) P_REQ None 0]
    :: nat ssi_event list"
  obtain rows tbl where r: "ssi_run sample_ssi_cfg ?evs (\<lambda>_. ssi_init (1 :: nat)) (inout_table_init 3) = Inr (rows, tbl)"
    by (simp add: ssi_eval ssi_table_eval)
  from ssi_validate_never_aborts [OF r, of 1] r show ?thesis by blast
qed

text \<open>
  When a registered transaction aborts, no other transaction keeps a conflict with it,
  and conflicts among the others are untouched.
\<close>

theorem ssi_abort_forgets:
  assumes "table_ok tbl" "conflict_sym tbl" "inout_find tbl (si_txn_id T) = Some e"
    and "j \<noteq> si_txn_id T" "inout_find (ssi_abort_txn T tbl) j = Some f"
  shows "si_txn_id T \<notin> inConflict f \<and> si_txn_id T \<notin> outConflict f \<and>
    (\<exists>g. inout_find tbl j = Some g \<and> inConflict f = inConflict g - {si_txn_id T} \<and>
         outConflict f = outConflict g - {si_txn_id T})"
proof -
  let ?t = "set_state (si_txn_id T) SSI_ABORTED tbl"
  have "table_ok ?t" "conflict_sym ?t" using assms(1,2) conflict_sym_state by auto
  moreover have "inout_find ?t (si_txn_id T) = Some (e\<lparr>io_state := SSI_ABORTED\<rparr>)"
    using assms(1,3) by (simp add: inout_find_simps)
  moreover have "inout_find ?t j = inout_find tbl j" using assms(1,4) by (simp add: inout_find_simps)
  ultimately show ?thesis
    using clear_Conflict_forgets [of ?t "si_txn_id T" _ j f] assms(4,5) by (auto simp: ssi_abort_txn_def)
qed


theorem ssi_abort_forgets_witness:
  "\<exists>f. inout_find (ssi_abort_txn (sample_ssi_txn 1 10 0)
         (set_outConflict 1 2 (set_inConflict 2 1 (inout_init 2 (inout_init 1 (inout_table_init 3)))))) 2 = Some f \<and>
       1 \<notin> inConflict f"
proof -
  let ?T = "sample_ssi_txn 1 10 0"
  let ?t0 = "inout_init 2 (inout_init 1 (inout_table_init 3))"
  let ?tbl = "set_outConflict 1 2 (set_inConflict 2 1 ?t0)"
  have ok0: "table_ok ?t0" by (simp add: inout_table_init_def table_ok_empty inout_ok)
  have f0: "inout_find ?t0 k = (if k = 1 \<or> k = 2 then Some inout_entry_init else None)" for k
    using ok0 by (simp add: inout_find_simps inout_table_init_def table_ok_empty inout_find_def [of "table_empty 3"])
  have "conflict_sym ?t0" by (auto simp: conflict_sym_def f0 inout_entry_init_def)
  with ok0 have sym: "conflict_sym ?tbl" and ok: "table_ok ?tbl" by (auto intro: conflict_sym_edge)
  have T: "si_txn_id ?T = 1" by (simp add: sample_ssi_txn_def)
  obtain e where e: "inout_find ?tbl (si_txn_id ?T) = Some e"
    using ok0 by (simp add: inout_find_simps f0 T)
  let ?st = "set_state 1 SSI_ABORTED ?tbl"
  have st: "table_ok ?st" "inout_find ?st 1 = Some (e\<lparr>io_state := SSI_ABORTED\<rparr>)"
    using ok e by (simp_all add: inout_find_simps(5) T)
  have "inout_find ?st 2 \<noteq> None" using ok ok0 by (simp add: inout_find_simps f0)
  then have "inout_find (clear_Conflict 1 ?st) 2 \<noteq> None"
    unfolding inout_find_clear(2) [OF st] by simp
  then obtain f where f: "inout_find (ssi_abort_txn ?T ?tbl) 2 = Some f"
    by (auto simp: ssi_abort_txn_def T)
  from ssi_abort_forgets [OF ok sym e _ f] f T show ?thesis by auto
qed

end
