(* ===== verification/Optimistic.thy ===== *)
theory Optimistic
imports Interfaces
begin

text \<open>
  The optimistic schemes with central validation: \<open>OptCC\<close> (\<open>occ.cpp\<close>, the configuration without
  \<open>PER_ROW_VALID\<close>), \<open>Bocc\<close> (\<open>bocc.cpp\<close>) and \<open>Focc\<close> (\<open>focc.cpp\<close>). A \<open>row_t*\<close> is a number,
  a \<open>TxnManager*\<close> an address. \<open>OptCC::central_validate\<close> holds its semaphore twice; the part in
  between only reads what the first section took, so the method is three steps here and other
  transactions may run between them. Numbers drawn from \<open>glob_manager.get_ts\<close> are arguments.
  Each method of \<open>Bocc\<close> and \<open>Focc\<close> is one atomic step: \<open>Focc::active_storage\<close> and
  \<open>Focc::central_finish\<close> copy the list head into \<open>act\<close> just before \<open>sem_wait\<close>, and what another
  thread could do to the list between the copy and the semaphore is outside the model.
\<close>

section \<open>Read and write sets\<close>

record opt_access =
  oa_type :: access_t
  oa_row :: row_ref

record opt_txn =
  ot_ref :: "64 word"
  ot_start_ts :: ts_t
  ot_row_cnt :: nat
  ot_write_cnt :: nat
  ot_accesses :: "opt_access list"

record set_ent =
  se_tn :: ts_t
  se_txn :: "64 word"
  se_rows :: "row_ref list"

fun rw_loop :: "opt_access list \<Rightarrow> row_ref list \<times> row_ref list \<Rightarrow> row_ref list \<times> row_ref list" where
  "rw_loop [] (rs, ws) = (rs, ws)"
| "rw_loop (a # as) (rs, ws) =
    rw_loop as (if oa_type a = WR then (rs, ws @ [oa_row a]) else (rs @ [oa_row a], ws))"

text \<open>Read set, then write set; the asserts compare the counts with the sizes announced.\<close>

definition get_rw_set :: "opt_txn \<Rightarrow> (set_ent \<times> set_ent) result" where
  "get_rw_set T =
    (if length (ot_accesses T) < ot_row_cnt T then Inl Null_deref
     else
       (let (rs, ws) = rw_loop (take (ot_row_cnt T) (ot_accesses T)) ([], []) in
        bind_result (assert_that (length ws = ot_write_cnt T)) (\<lambda>_.
        bind_result (assert_that (length rs = ot_row_cnt T - ot_write_cnt T)) (\<lambda>_.
          Inr (\<lparr>se_tn = 0, se_txn = ot_ref T, se_rows = rs\<rparr>,
               \<lparr>se_tn = 0, se_txn = ot_ref T, se_rows = ws\<rparr>)))))"

text \<open>The sets as the accesses determine them.\<close>

definition rset :: "opt_txn \<Rightarrow> row_ref set" where
  "rset T = {oa_row a | a. a \<in> set (ot_accesses T) \<and> oa_type a \<noteq> WR}"

definition wset :: "opt_txn \<Rightarrow> row_ref set" where
  "wset T = {oa_row a | a. a \<in> set (ot_accesses T) \<and> oa_type a = WR}"

text \<open>The counters of the transaction agree with its accesses (\<open>TxnManager::get_row\<close> keeps them so).\<close>

definition counts_ok :: "opt_txn \<Rightarrow> bool" where
  "counts_ok T \<longleftrightarrow> ot_row_cnt T = length (ot_accesses T) \<and>
     ot_write_cnt T = length (filter (\<lambda>a. oa_type a = WR) (ot_accesses T))"

lemma rw_loop_conv:
  "rw_loop as (rs, ws) =
    (rs @ map oa_row (filter (\<lambda>a. oa_type a \<noteq> WR) as), ws @ map oa_row (filter (\<lambda>a. oa_type a = WR) as))"
  by (induction as "(rs, ws)" arbitrary: rs ws rule: rw_loop.induct) auto

lemma get_rw_set_ok:
  assumes "counts_ok T"
  obtains r w where "get_rw_set T = Inr (r, w)" "set (se_rows r) = rset T" "set (se_rows w) = wset T"
    "se_txn r = ot_ref T" "se_txn w = ot_ref T"
proof -
  have "length (filter (\<lambda>a. oa_type a \<noteq> WR) (ot_accesses T)) = ot_row_cnt T - ot_write_cnt T"
    using assms sum_length_filter_compl [of "\<lambda>a. oa_type a = WR" "ot_accesses T"]
    by (simp add: counts_ok_def)
  then have "get_rw_set T = Inr
     (\<lparr>se_tn = 0, se_txn = ot_ref T, se_rows = map oa_row (filter (\<lambda>a. oa_type a \<noteq> WR) (ot_accesses T))\<rparr>,
      \<lparr>se_tn = 0, se_txn = ot_ref T, se_rows = map oa_row (filter (\<lambda>a. oa_type a = WR) (ot_accesses T))\<rparr>)"
    using assms by (simp add: get_rw_set_def counts_ok_def rw_loop_conv assert_that_def)
  then show thesis by (rule that) (auto simp: rset_def wset_def)
qed

section \<open>OptCC\<close>

fun row_in :: "row_ref \<Rightarrow> row_ref list \<Rightarrow> bool" where
  "row_in r [] = False"
| "row_in r (s # ss) = (if r = s then True else row_in r ss)"

fun occ_test_valid :: "row_ref list \<Rightarrow> row_ref list \<Rightarrow> bool" where
  "occ_test_valid [] ys = True"
| "occ_test_valid (x # xs) ys = (if row_in x ys then False else occ_test_valid xs ys)"

record OptCC =
  occ_active :: "set_ent list"
  occ_active_len :: "64 word"
  occ_history :: "set_ent list"
  occ_his_len :: "64 word"

definition occ_init :: OptCC where
  "occ_init = \<lparr>occ_active = [], occ_active_len = 0, occ_history = [], occ_his_len = 0\<rparr>"

text \<open>What the first critical section of \<open>central_validate\<close> hands to the checks.\<close>

record occ_snap =
  sn_rset :: set_ent
  sn_wset :: set_ent
  sn_finish :: ts_t
  sn_active :: "set_ent list"
  sn_his :: "set_ent list"

definition occ_enter :: "ts_t \<Rightarrow> opt_txn \<Rightarrow> OptCC \<Rightarrow> (occ_snap \<times> OptCC) result" where
  "occ_enter finish_tn T st =
    bind_result (get_rw_set T) (\<lambda>(rs, ws).
      let snap = \<lparr>sn_rset = rs, sn_wset = ws, sn_finish = finish_tn,
                  sn_active = take (unat (occ_active_len st)) (occ_active st), sn_his = occ_history st\<rparr>
      in Inr (snap,
              if se_rows ws = [] then st
              else st\<lparr>occ_active_len := occ_active_len st + 1, occ_active := ws # occ_active st\<rparr>))"

fun active_check :: "set_ent list \<Rightarrow> set_ent \<Rightarrow> set_ent \<Rightarrow> bool" where
  "active_check [] rs ws = True"
| "active_check (w # wacts) rs ws =
    (if occ_test_valid (se_rows w) (se_rows rs) \<and> occ_test_valid (se_rows w) (se_rows ws)
     then active_check wacts rs ws else False)"

text \<open>The checks between the two critical sections. \<open>tpcc\<close> is \<open>WORKLOAD == TPCC\<close>.\<close>

definition occ_check :: "bool \<Rightarrow> opt_txn \<Rightarrow> occ_snap \<Rightarrow> bool" where
  "occ_check tpcc T snap =
    (if sn_finish snap > ot_start_ts T \<and>
        \<not> history_check occ_test_valid se_tn se_rows (ot_start_ts T)
            (dropWhile (\<lambda>h. se_tn h > sn_finish snap) (sn_his snap))
            (if tpcc then [se_rows (sn_rset snap), se_rows (sn_wset snap)] else [se_rows (sn_rset snap)])
     then False
     else active_check (sn_active snap) (sn_rset snap) (sn_wset snap))"

definition occ_remove :: "opt_txn \<Rightarrow> OptCC \<Rightarrow> OptCC option" where
  "occ_remove T st =
    (case extract_first (\<lambda>e. se_txn e = ot_ref T) (occ_active st) of
       None \<Rightarrow> None
     | Some (_, es) \<Rightarrow> Some (st\<lparr>occ_active := es, occ_active_len := occ_active_len st - 1\<rparr>))"

text \<open>The second critical section, entered only on abort.\<close>

definition occ_exit :: "bool \<Rightarrow> opt_txn \<Rightarrow> OptCC \<Rightarrow> RC \<times> OptCC" where
  "occ_exit valid T st =
    (if valid then (RCOK, st)
     else (Abort, case occ_remove T st of None \<Rightarrow> st | Some st' \<Rightarrow> st'))"

text \<open>\<open>central_validate\<close> when nothing happens in between.\<close>

definition occ_central_validate :: "bool \<Rightarrow> ts_t \<Rightarrow> opt_txn \<Rightarrow> OptCC \<Rightarrow> (RC \<times> OptCC) result" where
  "occ_central_validate tpcc finish_tn T st =
    bind_result (occ_enter finish_tn T st) (\<lambda>(snap, st').
      Inr (occ_exit (occ_check tpcc T snap) T st'))"

definition occ_central_finish :: "RC \<Rightarrow> ts_t \<Rightarrow> opt_txn \<Rightarrow> OptCC \<Rightarrow> OptCC result" where
  "occ_central_finish rc tn T st =
    bind_result (get_rw_set T) (\<lambda>(rs, ws).
      if se_rows ws = [] then Inr st
      else
        (case occ_remove T st of
           None \<Rightarrow> Inr st
         | Some st1 \<Rightarrow>
             Inr (if rc = RCOK then
                    st1\<lparr>occ_history := ws\<lparr>se_tn := tn\<rparr> # occ_history st1, occ_his_len := occ_his_len st1 + 1\<rparr>
                  else st1)))"

section \<open>Bocc\<close>

fun bocc_test_valid :: "row_ref list \<Rightarrow> row_ref list \<Rightarrow> bool" where
  "bocc_test_valid [] ys = True"
| "bocc_test_valid (x # xs) ys = (if row_in x ys then False else bocc_test_valid xs ys)"

record Bocc =
  bocc_history :: "set_ent list"
  bocc_his_len :: "64 word"

definition bocc_init :: Bocc where
  "bocc_init = \<lparr>bocc_history = [], bocc_his_len = 0\<rparr>"

text \<open>The semaphore is held over the whole validation.\<close>

definition bocc_central_validate :: "bool \<Rightarrow> ts_t \<Rightarrow> opt_txn \<Rightarrow> Bocc \<Rightarrow> RC result" where
  "bocc_central_validate tpcc finish_tn T st =
    bind_result (get_rw_set T) (\<lambda>(rs, ws).
      Inr (if finish_tn > ot_start_ts T \<and>
              \<not> history_check bocc_test_valid se_tn se_rows (ot_start_ts T)
                  (dropWhile (\<lambda>h. se_tn h > finish_tn) (bocc_history st))
                  (if tpcc then [se_rows rs, se_rows ws] else [se_rows rs])
           then Abort else RCOK))"

definition bocc_central_finish :: "RC \<Rightarrow> ts_t \<Rightarrow> opt_txn \<Rightarrow> Bocc \<Rightarrow> Bocc result" where
  "bocc_central_finish rc tn T st =
    bind_result (get_rw_set T) (\<lambda>(rs, ws).
      Inr (if se_rows ws \<noteq> [] \<and> rc = RCOK then
             st\<lparr>bocc_history := ws\<lparr>se_tn := tn\<rparr> # bocc_history st, bocc_his_len := bocc_his_len st + 1\<rparr>
           else st))"

section \<open>Focc\<close>

fun focc_row_in :: "row_ref \<Rightarrow> bool \<Rightarrow> row_ref list \<Rightarrow> bool" where
  "focc_row_in r same [] = False"
| "focc_row_in r same (s # ss) =
    (if same then focc_row_in r same ss else if r = s then True else focc_row_in r same ss)"

fun focc_rows_valid :: "bool \<Rightarrow> row_ref list \<Rightarrow> row_ref list \<Rightarrow> bool" where
  "focc_rows_valid same [] ys = True"
| "focc_rows_valid same (x # xs) ys = (if focc_row_in x same ys then False else focc_rows_valid same xs ys)"

definition focc_test_valid :: "set_ent \<Rightarrow> set_ent \<Rightarrow> bool" where
  "focc_test_valid a b = focc_rows_valid (se_txn a = se_txn b) (se_rows a) (se_rows b)"

record Focc =
  focc_active :: "set_ent list"
  focc_active_len :: "64 word"

definition focc_init :: Focc where
  "focc_init = \<lparr>focc_active = [], focc_active_len = 0\<rparr>"

text \<open>
  The branch for a transaction that is already active assigns the local pointer \<open>act\<close> only, so
  the list keeps the read set of the first call.
\<close>

definition focc_active_storage :: "opt_txn \<Rightarrow> Focc \<Rightarrow> Focc result" where
  "focc_active_storage T st =
    bind_result (get_rw_set T) (\<lambda>(rs, ws).
      Inr (if se_rows rs = [] then st
           else if \<exists>e\<in>set (focc_active st). se_txn e = ot_ref T then st
           else st\<lparr>focc_active_len := focc_active_len st + 1, focc_active := rs # focc_active st\<rparr>))"

fun focc_check :: "set_ent list \<Rightarrow> set_ent \<Rightarrow> bool" where
  "focc_check [] ws = True"
| "focc_check (r # ract) ws = (if focc_test_valid r ws then focc_check ract ws else False)"

definition focc_remove :: "opt_txn \<Rightarrow> Focc \<Rightarrow> Focc" where
  "focc_remove T st =
    (case extract_first (\<lambda>e. se_txn e = ot_ref T) (focc_active st) of
       None \<Rightarrow> st
     | Some (_, es) \<Rightarrow> st\<lparr>focc_active := es, focc_active_len := focc_active_len st - 1\<rparr>)"

definition focc_central_validate :: "opt_txn \<Rightarrow> Focc \<Rightarrow> (RC \<times> Focc) result" where
  "focc_central_validate T st =
    bind_result (get_rw_set T) (\<lambda>(rs, ws).
      Inr (if se_rows ws \<noteq> [] \<and> \<not> focc_check (focc_active st) ws then (Abort, focc_remove T st)
           else (RCOK, st)))"

definition focc_central_finish :: "opt_txn \<Rightarrow> Focc \<Rightarrow> Focc result" where
  "focc_central_finish T st = bind_result (get_rw_set T) (\<lambda>_. Inr (focc_remove T st))"


section \<open>The row-set tests\<close>

lemma row_in_iff: "row_in r ys \<longleftrightarrow> r \<in> set ys"
  by (induction ys) auto

lemma occ_test_valid_iff: "occ_test_valid xs ys \<longleftrightarrow> set xs \<inter> set ys = {}"
  by (induction xs) (auto simp: row_in_iff)

lemma bocc_test_valid_iff: "bocc_test_valid xs ys \<longleftrightarrow> set xs \<inter> set ys = {}"
  by (induction xs) (auto simp: row_in_iff)

interpretation occ_rs: row_set_test occ_test_valid
  by unfold_locales (rule occ_test_valid_iff)

interpretation bocc_rs: row_set_test bocc_test_valid
  by unfold_locales (rule bocc_test_valid_iff)

lemma focc_row_in_iff: "focc_row_in r same ys \<longleftrightarrow> \<not> same \<and> r \<in> set ys"
  by (induction ys) auto

lemma focc_test_valid_iff:
  "focc_test_valid a b \<longleftrightarrow> se_txn a = se_txn b \<or> set (se_rows a) \<inter> set (se_rows b) = {}"
proof -
  have "focc_rows_valid same xs ys \<longleftrightarrow> same \<or> set xs \<inter> set ys = {}" for same xs ys
    by (induction xs) (auto simp: focc_row_in_iff)
  then show ?thesis by (simp add: focc_test_valid_def)
qed

lemma focc_check_iff:
  "focc_check act ws \<longleftrightarrow> (\<forall>e\<in>set act. se_txn e = se_txn ws \<or> set (se_rows e) \<inter> set (se_rows ws) = {})"
  by (induction act) (auto simp: focc_test_valid_iff)

lemma active_check_iff:
  "active_check wacts rs ws \<longleftrightarrow>
     (\<forall>w\<in>set wacts. set (se_rows w) \<inter> (set (se_rows rs) \<union> set (se_rows ws)) = {})"
  by (induction wacts) (auto simp: occ_test_valid_iff)

text \<open>The history is in descending order of commit numbers.\<close>

abbreviation tn_sorted :: "set_ent list \<Rightarrow> bool" where
  "tn_sorted h \<equiv> sorted_wrt (\<lambda>a b. se_tn b \<le> se_tn a) h"

lemma occ_check_iff:
  assumes "tn_sorted (sn_his snap)"
  shows "occ_check False T snap \<longleftrightarrow>
    (\<forall>h\<in>set (sn_his snap). ot_start_ts T < se_tn h \<and> se_tn h \<le> sn_finish snap \<longrightarrow>
       set (se_rows h) \<inter> set (se_rows (sn_rset snap)) = {}) \<and>
    (\<forall>w\<in>set (sn_active snap).
       set (se_rows w) \<inter> (set (se_rows (sn_rset snap)) \<union> set (se_rows (sn_wset snap))) = {})"
proof -
  have "sn_finish snap > ot_start_ts T \<and>
      \<not> history_check occ_test_valid se_tn se_rows (ot_start_ts T)
          (dropWhile (\<lambda>h. se_tn h > sn_finish snap) (sn_his snap)) [se_rows (sn_rset snap)] \<longleftrightarrow>
      \<not> (\<forall>h\<in>set (sn_his snap). ot_start_ts T < se_tn h \<and> se_tn h \<le> sn_finish snap \<longrightarrow>
           set (se_rows h) \<inter> set (se_rows (sn_rset snap)) = {})"
    unfolding occ_rs.history_check_window [OF assms] by (auto dest: less_le_trans)
  then show ?thesis by (auto simp: occ_check_def active_check_iff)
qed

section \<open>OptCC with interleaved transactions\<close>

text \<open>
  Transactions between the two critical sections (\<open>os_checking\<close>, with what they took) and
  transactions that passed validation and are not finished (\<open>os_valid\<close>).
\<close>

record occ_sys =
  os_cc :: OptCC
  os_checking :: "64 word \<rightharpoonup> opt_txn \<times> occ_snap"
  os_valid :: "64 word \<rightharpoonup> opt_txn"

inductive occ_step :: "occ_sys \<Rightarrow> occ_sys \<Rightarrow> bool" where
  enter: "\<lbrakk>counts_ok T; os_checking s (ot_ref T) = None; os_valid s (ot_ref T) = None;
      length (occ_active (os_cc s)) < 2 ^ 32; occ_enter tn T (os_cc s) = Inr (snap, cc)\<rbrakk>
    \<Longrightarrow> occ_step s (s\<lparr>os_cc := cc, os_checking := (os_checking s)(ot_ref T \<mapsto> (T, snap))\<rparr>)"
| pass: "\<lbrakk>os_checking s r = Some (T, snap); occ_check tpcc T snap; occ_exit True T (os_cc s) = (RCOK, cc)\<rbrakk>
    \<Longrightarrow> occ_step s (s\<lparr>os_cc := cc, os_checking := (os_checking s)(r := None),
                        os_valid := (os_valid s)(r \<mapsto> T)\<rparr>)"
| fail: "\<lbrakk>os_checking s r = Some (T, snap); \<not> occ_check tpcc T snap; occ_exit False T (os_cc s) = (Abort, cc)\<rbrakk>
    \<Longrightarrow> occ_step s (s\<lparr>os_cc := cc, os_checking := (os_checking s)(r := None)\<rparr>)"
| finish: "\<lbrakk>os_valid s r = Some T; occ_central_finish rc tn T (os_cc s) = Inr cc\<rbrakk>
    \<Longrightarrow> occ_step s (s\<lparr>os_cc := cc, os_valid := (os_valid s)(r := None)\<rparr>)"

inductive occ_reach :: "occ_sys \<Rightarrow> bool" where
  start: "occ_reach \<lparr>os_cc = occ_init, os_checking = Map.empty, os_valid = Map.empty\<rparr>"
| step: "occ_reach s \<Longrightarrow> occ_step s s' \<Longrightarrow> occ_reach s'"

text \<open>\<open>a\<close> was validated against the writes of \<open>b\<close>.\<close>

definition checked_against :: "opt_txn \<Rightarrow> opt_txn \<Rightarrow> bool" where
  "checked_against a b \<longleftrightarrow> wset b \<inter> (rset a \<union> wset a) = {}"

definition in_flight :: "occ_sys \<Rightarrow> opt_txn \<Rightarrow> bool" where
  "in_flight s T \<longleftrightarrow> os_valid s (ot_ref T) = Some T \<or> (\<exists>snap. os_checking s (ot_ref T) = Some (T, snap))"

text \<open>\<open>a\<close> has \<open>b\<close> in view: it has \<open>b\<close>'s writes in its snapshot, or was already checked against them.\<close>

definition in_view :: "occ_sys \<Rightarrow> opt_txn \<Rightarrow> opt_txn \<Rightarrow> bool" where
  "in_view s a b \<longleftrightarrow> wset b = {} \<or>
     (os_valid s (ot_ref a) = Some a \<and> checked_against a b) \<or>
     (\<exists>snap e. os_checking s (ot_ref a) = Some (a, snap) \<and> e \<in> set (sn_active snap) \<and> set (se_rows e) = wset b)"

definition counters_inv :: "OptCC \<Rightarrow> bool" where
  "counters_inv cc \<longleftrightarrow> occ_active_len cc = of_nat (length (occ_active cc)) \<and>
     length (occ_active cc) \<le> 2 ^ 32 \<and> distinct (map se_txn (occ_active cc))"

definition phases_inv :: "occ_sys \<Rightarrow> bool" where
  "phases_inv s \<longleftrightarrow>
     (\<forall>r T. os_valid s r = Some T \<longrightarrow> r = ot_ref T \<and> counts_ok T \<and> os_checking s r = None) \<and>
     (\<forall>r T snap. os_checking s r = Some (T, snap) \<longrightarrow> r = ot_ref T \<and> counts_ok T \<and>
        set (se_rows (sn_rset snap)) = rset T \<and> set (se_rows (sn_wset snap)) = wset T)"

definition active_inv :: "occ_sys \<Rightarrow> bool" where
  "active_inv s \<longleftrightarrow>
     (\<forall>e\<in>set (occ_active (os_cc s)). se_rows e \<noteq> [] \<and>
        (\<exists>T. in_flight s T \<and> se_txn e = ot_ref T \<and> set (se_rows e) = wset T)) \<and>
     (\<forall>T. in_flight s T \<and> wset T \<noteq> {} \<longrightarrow> ot_ref T \<in> se_txn ` set (occ_active (os_cc s)))"

definition views_inv :: "occ_sys \<Rightarrow> bool" where
  "views_inv s \<longleftrightarrow>
     (\<forall>a b. in_flight s a \<longrightarrow> in_flight s b \<longrightarrow> ot_ref a \<noteq> ot_ref b \<longrightarrow> in_view s a b \<or> in_view s b a)"

definition occ_sys_inv :: "occ_sys \<Rightarrow> bool" where
  "occ_sys_inv s \<longleftrightarrow> counters_inv (os_cc s) \<and> phases_inv s \<and> active_inv s \<and> views_inv s"

lemma phases_validD:
  assumes "phases_inv s" "os_valid s r = Some T"
  shows "r = ot_ref T" "counts_ok T" "os_checking s r = None"
  using assms unfolding phases_inv_def by blast+

lemma phases_checkingD:
  assumes "phases_inv s" "os_checking s r = Some (T, snap)"
  shows "r = ot_ref T" "counts_ok T" "set (se_rows (sn_rset snap)) = rset T"
    "set (se_rows (sn_wset snap)) = wset T" "os_valid s r = None"
proof -
  show "r = ot_ref T" "counts_ok T" "set (se_rows (sn_rset snap)) = rset T" "set (se_rows (sn_wset snap)) = wset T"
    using assms unfolding phases_inv_def by blast+
  show "os_valid s r = None"
    using phases_validD(3) [OF assms(1), of r] assms(2) by (cases "os_valid s r") auto
qed

lemma phases_invI:
  assumes "\<And>r T. os_valid s r = Some T \<Longrightarrow> r = ot_ref T \<and> counts_ok T \<and> os_checking s r = None"
    and "\<And>r T snap. os_checking s r = Some (T, snap) \<Longrightarrow> r = ot_ref T \<and> counts_ok T \<and>
        set (se_rows (sn_rset snap)) = rset T \<and> set (se_rows (sn_wset snap)) = wset T"
  shows "phases_inv s"
  using assms unfolding phases_inv_def by blast

lemma in_flight_unique:
  assumes "phases_inv s" "in_flight s a" "in_flight s b" "ot_ref a = ot_ref b"
  shows "a = b"
proof -
  note none = phases_validD(3) [OF assms(1)]
  define r where "r = ot_ref a"
  have ab: "os_valid s r = Some a \<or> (\<exists>x. os_checking s r = Some (a, x))"
    "os_valid s r = Some b \<or> (\<exists>x. os_checking s r = Some (b, x))"
    using assms(2-4) by (simp_all add: in_flight_def r_def)
  show ?thesis
  proof (cases "os_valid s r")
    case None
    with ab show ?thesis by auto
  next
    case (Some x)
    with ab none [OF Some] show ?thesis by simp
  qed
qed

text \<open>The active entry of a transaction in flight.\<close>

lemma active_entry:
  assumes inv: "occ_sys_inv s" and T: "in_flight s T" "wset T \<noteq> {}"
  obtains e where "e \<in> set (occ_active (os_cc s))" "se_txn e = ot_ref T" "set (se_rows e) = wset T"
proof -
  have act: "active_inv s" and ph: "phases_inv s" using inv by (simp_all add: occ_sys_inv_def)
  from act T have "ot_ref T \<in> se_txn ` set (occ_active (os_cc s))" unfolding active_inv_def by blast
  then obtain e where e: "e \<in> set (occ_active (os_cc s))" "se_txn e = ot_ref T" by auto
  from act e(1) obtain U where U: "in_flight s U" "se_txn e = ot_ref U" "set (se_rows e) = wset U"
    unfolding active_inv_def by blast
  have "U = T" using in_flight_unique [OF ph U(1) T(1)] U(2) e(2) by simp
  with e U(3) that show thesis by blast
qed

text \<open>Removing the entry of a transaction that leaves.\<close>

lemma occ_remove_active:
  assumes "counters_inv cc" "occ_remove T cc = Some cc'"
  shows "counters_inv cc' \<and>
    set (occ_active cc') = {e \<in> set (occ_active cc). se_txn e \<noteq> ot_ref T}"
proof -
  obtain e es where ex: "extract_first (\<lambda>e. se_txn e = ot_ref T) (occ_active cc) = Some (e, es)"
    and cc': "cc' = cc\<lparr>occ_active := es, occ_active_len := occ_active_len cc - 1\<rparr>"
    using assms(2) by (auto simp: occ_remove_def split: option.splits)
  from ex obtain us vs where uv: "occ_active cc = us @ e # vs" "es = us @ vs" "se_txn e = ot_ref T"
    by (rule extract_first_SomeE)
  have d: "distinct (map se_txn (us @ e # vs))" using assms(1) uv(1) by (simp add: counters_inv_def)
  have "counters_inv cc'" using assms(1) d by (simp add: counters_inv_def cc' uv)
  moreover have "set es = {x \<in> set (us @ e # vs). se_txn x \<noteq> ot_ref T}"
    using d uv(3) by (auto simp: uv(2)) (metis imageI)+
  ultimately show ?thesis by (simp add: cc' uv(1))
qed

lemma occ_remove_None: "occ_remove T cc = None \<longleftrightarrow> (\<forall>e\<in>set (occ_active cc). se_txn e \<noteq> ot_ref T)"
  using extract_first_None_iff [of "\<lambda>e. se_txn e = ot_ref T" "occ_active cc"]
  by (cases "extract_first (\<lambda>e. se_txn e = ot_ref T) (occ_active cc)") (auto simp: occ_remove_def)

lemma occ_finish_active:
  assumes "counters_inv cc" "occ_central_finish rc tn T cc = Inr cc'" "get_rw_set T = Inr (q, w)"
    and ne: "\<And>e. e \<in> set (occ_active cc) \<Longrightarrow> se_txn e = ot_ref T \<Longrightarrow> se_rows w \<noteq> []"
  shows "counters_inv cc' \<and> set (occ_active cc') = {e \<in> set (occ_active cc). se_txn e \<noteq> ot_ref T}"
proof (cases "occ_remove T cc")
  case None
  then have "cc' = cc" using assms(2,3) by (simp add: occ_central_finish_def split: if_splits)
  moreover have "\<forall>e\<in>set (occ_active cc). se_txn e \<noteq> ot_ref T" using None by (simp only: occ_remove_None)
  ultimately show ?thesis using assms(1) by blast
next
  case (Some st)
  then have "\<not> (\<forall>e\<in>set (occ_active cc). se_txn e \<noteq> ot_ref T)"
    using occ_remove_None [of T cc] by simp
  then have "se_rows w \<noteq> []" using ne by blast
  then have "occ_active cc' = occ_active st" "occ_active_len cc' = occ_active_len st"
    using assms(2,3) Some by (auto simp: occ_central_finish_def split: if_splits)
  with occ_remove_active [OF assms(1) Some] show ?thesis by (simp add: counters_inv_def)
qed

text \<open>
  A transaction that was in flight leaves: the remaining ones and their views are as before.
\<close>

lemma occ_leave:
  assumes inv: "occ_sys_inv s" and cnt: "counters_inv cc"
    and act: "set (occ_active cc) = {e \<in> set (occ_active (os_cc s)). se_txn e \<noteq> r}"
    and s': "s' = s\<lparr>os_cc := cc, os_checking := (os_checking s)(r := None), os_valid := (os_valid s)(r := None)\<rparr>"
  shows "occ_sys_inv s'"
proof -
  have fl: "in_flight s' T \<longleftrightarrow> in_flight s T \<and> ot_ref T \<noteq> r" for T
    by (auto simp: in_flight_def s')
  have vw: "in_view s a b \<Longrightarrow> in_view s' a b" if "ot_ref a \<noteq> r" for a b
    using that by (auto simp: in_view_def s')
  have ph: "phases_inv s" using inv by (simp add: occ_sys_inv_def)
  have "phases_inv s'"
  proof (rule phases_invI)
    show "q = ot_ref T \<and> counts_ok T \<and> os_checking s' q = None" if "os_valid s' q = Some T" for q T
      using that phases_validD [OF ph, of q T] by (simp add: s' split: if_splits)
    show "q = ot_ref T \<and> counts_ok T \<and> set (se_rows (sn_rset snap)) = rset T \<and> set (se_rows (sn_wset snap)) = wset T"
      if "os_checking s' q = Some (T, snap)" for q T snap
      using that phases_checkingD [OF ph, of q T snap] by (simp add: s' split: if_splits)
  qed
  moreover have "active_inv s'"
    unfolding active_inv_def
  proof (intro conjI ballI allI impI)
    fix e assume "e \<in> set (occ_active (os_cc s'))"
    then have e: "e \<in> set (occ_active (os_cc s))" "se_txn e \<noteq> r" using act by (auto simp: s')
    then obtain T where "in_flight s T" "se_txn e = ot_ref T" "set (se_rows e) = wset T"
      using inv unfolding occ_sys_inv_def active_inv_def by blast
    with e(2) show "\<exists>T. in_flight s' T \<and> se_txn e = ot_ref T \<and> set (se_rows e) = wset T" using fl by auto
    show "se_rows e \<noteq> []" using e(1) inv unfolding occ_sys_inv_def active_inv_def by blast
  next
    fix T assume T: "in_flight s' T \<and> wset T \<noteq> {}"
    then have "ot_ref T \<in> se_txn ` set (occ_active (os_cc s))" "ot_ref T \<noteq> r"
      using inv fl unfolding occ_sys_inv_def active_inv_def by blast+
    then show "ot_ref T \<in> se_txn ` set (occ_active (os_cc s'))" using act by (force simp: s')
  qed
  moreover have "views_inv s'"
    using inv fl vw unfolding occ_sys_inv_def views_inv_def by blast
  ultimately show ?thesis using cnt by (simp add: occ_sys_inv_def s')
qed


lemma occ_step_inv:
  assumes "occ_step s s'" "occ_sys_inv s"
  shows "occ_sys_inv s'"
  using assms(1)
proof cases
  case (enter T tn snap cc)
  obtain r w where rw: "get_rw_set T = Inr (r, w)" "set (se_rows r) = rset T" "set (se_rows w) = wset T"
    "se_txn r = ot_ref T" "se_txn w = ot_ref T"
    by (rule get_rw_set_ok [OF enter(2)])
  have cnt: "counters_inv (os_cc s)" and ph: "phases_inv s" and act: "active_inv s"
    using assms(2) by (simp_all add: occ_sys_inv_def)
  have "unat (occ_active_len (os_cc s)) = length (occ_active (os_cc s))"
    using cnt enter(5) by (simp add: counters_inv_def unat_of_nat_64)
  then have snap: "sn_rset snap = r" "sn_wset snap = w" "sn_active snap = occ_active (os_cc s)"
    and cc: "cc = (if se_rows w = [] then os_cc s else (os_cc s)\<lparr>occ_active_len := occ_active_len (os_cc s) + 1,
        occ_active := w # occ_active (os_cc s)\<rparr>)"
    using enter(6) rw(1) by (auto simp: occ_enter_def Let_def)
  have new: "\<not> in_flight s T" using enter(3,4) by (simp add: in_flight_def)
  have fl: "in_flight s' U \<longleftrightarrow> in_flight s U \<or> U = T" for U
    using enter(3,4) by (auto simp: in_flight_def enter(1))
  have other: "ot_ref U \<noteq> ot_ref T" if "in_flight s U" for U
    using that enter(3,4) by (auto simp: in_flight_def)
  have fresh: "se_txn e \<noteq> ot_ref T" if "e \<in> set (occ_active (os_cc s))" for e
    using that act other unfolding active_inv_def by metis
  have "counters_inv (os_cc s')"
  proof -
    have "se_txn w \<notin> se_txn ` set (occ_active (os_cc s))" using fresh rw(5) by force
    with cnt enter(5) show ?thesis by (simp add: counters_inv_def enter(1) cc)
  qed
  moreover have "phases_inv s'"
  proof (rule phases_invI)
    show "q = ot_ref U \<and> counts_ok U \<and> os_checking s' q = None" if "os_valid s' q = Some U" for q U
      using that phases_validD [OF ph, of q U] enter(4) by (auto simp: enter(1))
    show "q = ot_ref U \<and> counts_ok U \<and> set (se_rows (sn_rset sn)) = rset U \<and> set (se_rows (sn_wset sn)) = wset U"
      if "os_checking s' q = Some (U, sn)" for q U sn
      using that phases_checkingD [OF ph, of q U sn] enter(2) rw(2,3) snap(1,2)
      by (simp add: enter(1) split: if_splits)
  qed
  moreover have "active_inv s'"
    unfolding active_inv_def
  proof (intro conjI ballI allI impI)
    fix e assume "e \<in> set (occ_active (os_cc s'))"
    then consider (new) "e = w" "se_rows w \<noteq> []" | (old) "e \<in> set (occ_active (os_cc s))"
      by (auto simp: enter(1) cc split: if_splits)
    then have "se_rows e \<noteq> [] \<and> (\<exists>U. in_flight s' U \<and> se_txn e = ot_ref U \<and> set (se_rows e) = wset U)"
    proof cases
      case new
      with rw(3,5) fl show ?thesis by auto
    next
      case old
      with act fl show ?thesis unfolding active_inv_def by blast
    qed
    then show "se_rows e \<noteq> []" "\<exists>U. in_flight s' U \<and> se_txn e = ot_ref U \<and> set (se_rows e) = wset U"
      by simp_all
  next
    fix U assume U: "in_flight s' U \<and> wset U \<noteq> {}"
    show "ot_ref U \<in> se_txn ` set (occ_active (os_cc s'))"
    proof (cases "U = T")
      case True
      with U rw(3) have "se_rows w \<noteq> []" by auto
      with True rw(5) show ?thesis by (simp add: enter(1) cc)
    next
      case False
      with U fl have "ot_ref U \<in> se_txn ` set (occ_active (os_cc s))"
        using act unfolding active_inv_def by blast
      then show ?thesis by (auto simp: enter(1) cc)
    qed
  qed
  moreover have "views_inv s'"
    unfolding views_inv_def
  proof (intro allI impI)
    have old: "in_view s' a b" if "in_view s a b" "ot_ref a \<noteq> ot_ref T" for a b
      using that by (auto simp: in_view_def enter(1))
    have mine: "in_view s' T b" if b: "in_flight s b" for b
    proof (cases "wset b = {}")
      case True
      then show ?thesis by (simp add: in_view_def)
    next
      case False
      then obtain e where "e \<in> set (occ_active (os_cc s))" "set (se_rows e) = wset b"
        using active_entry [OF assms(2) b] by blast
      then show ?thesis using snap(3) by (auto simp: in_view_def enter(1))
    qed
    fix a b assume ab: "in_flight s' a" "in_flight s' b" "ot_ref a \<noteq> ot_ref b"
    show "in_view s' a b \<or> in_view s' b a"
    proof (cases "a = T \<or> b = T")
      case True
      with ab fl mine show ?thesis by auto
    next
      case False
      with ab fl have "in_flight s a" "in_flight s b" by auto
      then have "in_view s a b \<or> in_view s b a"
        using assms(2) ab(3) unfolding occ_sys_inv_def views_inv_def by blast
      with old other \<open>in_flight s a\<close> \<open>in_flight s b\<close> show ?thesis by blast
    qed
  qed
  ultimately show ?thesis by (simp add: occ_sys_inv_def)
next
  case (pass r T snap tpcc cc)
  have cc: "cc = os_cc s" using pass(4) by (simp add: occ_exit_def)
  have ph: "phases_inv s" using assms(2) by (simp add: occ_sys_inv_def)
  note T = phases_checkingD [OF ph pass(2)]
  note nv = T(5)
  have chk: "checked_against T b" if "e \<in> set (sn_active snap)" "set (se_rows e) = wset b" for e b
    using pass(3) that T(3,4) by (auto simp: occ_check_def active_check_iff checked_against_def split: if_splits)
  have fl: "in_flight s' U \<longleftrightarrow> in_flight s U" for U
    using pass(2) nv T(1) by (auto simp: in_flight_def pass(1))
  have vw: "in_view s' a b" if "in_view s a b" for a b
  proof (cases "ot_ref a = r")
    case True
    with that nv pass(2) consider "wset b = {}"
      | e where "a = T" "e \<in> set (sn_active snap)" "set (se_rows e) = wset b"
      by (auto simp: in_view_def)
    then show ?thesis
    proof cases
      case 2
      with chk True show ?thesis by (simp add: in_view_def pass(1))
    qed (simp add: in_view_def)
  next
    case False
    with that show ?thesis by (simp add: in_view_def pass(1))
  qed
  have "phases_inv s'"
  proof (rule phases_invI)
    show "q = ot_ref U \<and> counts_ok U \<and> os_checking s' q = None" if "os_valid s' q = Some U" for q U
      using that phases_validD [OF ph, of q U] T(1,2) by (simp add: pass(1) split: if_splits)
    show "q = ot_ref U \<and> counts_ok U \<and> set (se_rows (sn_rset sn)) = rset U \<and> set (se_rows (sn_wset sn)) = wset U"
      if "os_checking s' q = Some (U, sn)" for q U sn
      using that phases_checkingD [OF ph, of q U sn] by (simp add: pass(1) split: if_splits)
  qed
  moreover have "active_inv s'"
    using assms(2) fl unfolding occ_sys_inv_def active_inv_def by (simp add: pass(1) cc)
  moreover have "views_inv s'"
    using assms(2) fl vw unfolding occ_sys_inv_def views_inv_def by blast
  ultimately show ?thesis using assms(2) by (simp add: occ_sys_inv_def pass(1) cc)
next
  case (fail r T snap tpcc cc)
  have cnt: "counters_inv (os_cc s)" and ph: "phases_inv s" using assms(2) by (simp_all add: occ_sys_inv_def)
  note T = phases_checkingD(1) [OF ph fail(2)] and nv = phases_checkingD(5) [OF ph fail(2)]
  have "counters_inv cc \<and> set (occ_active cc) = {e \<in> set (occ_active (os_cc s)). se_txn e \<noteq> r}"
  proof (cases "occ_remove T (os_cc s)")
    case None
    with fail(4) cnt T show ?thesis by (auto simp: occ_exit_def occ_remove_None)
  next
    case (Some st)
    with fail(4) occ_remove_active [OF cnt Some] T show ?thesis by (simp add: occ_exit_def)
  qed
  then show ?thesis
    using occ_leave [OF assms(2), of cc r s'] nv by (simp add: fail(1) fun_upd_idem)
next
  case (finish r T rc tn cc)
  have cnt: "counters_inv (os_cc s)" and ph: "phases_inv s" using assms(2) by (simp_all add: occ_sys_inv_def)
  note T = phases_validD [OF ph finish(2)]
  obtain q w where rw: "get_rw_set T = Inr (q, w)" "set (se_rows w) = wset T"
    by (rule get_rw_set_ok [OF T(2)]) (rule that)
  have T': "in_flight s T" using finish(2) T(1) by (simp add: in_flight_def)
  have "se_rows w \<noteq> []" if e: "e \<in> set (occ_active (os_cc s))" "se_txn e = ot_ref T" for e
  proof -
    obtain U where U: "in_flight s U" "se_txn e = ot_ref U" "set (se_rows e) = wset U" "se_rows e \<noteq> []"
      using assms(2) e(1) unfolding occ_sys_inv_def active_inv_def by blast
    have "U = T" using in_flight_unique [OF ph U(1) T'] U(2) e(2) by simp
    with U(3,4) rw(2) show ?thesis by auto
  qed
  then have "counters_inv cc \<and> set (occ_active cc) = {e \<in> set (occ_active (os_cc s)). se_txn e \<noteq> r}"
    using occ_finish_active [OF cnt finish(3) rw(1)] T(1) by blast
  then show ?thesis
    using occ_leave [OF assms(2), of cc r s'] T(3) by (simp add: finish(1) fun_upd_idem)
qed


lemma occ_reach_inv: "occ_reach s \<Longrightarrow> occ_sys_inv s"
proof (induction rule: occ_reach.induct)
  case start
  then show ?case
    by (simp add: occ_sys_inv_def counters_inv_def phases_inv_def active_inv_def views_inv_def
        in_flight_def occ_init_def)
next
  case (step s s')
  then show ?case by (simp add: occ_step_inv)
qed

section \<open>Bocc, one transaction at a time\<close>

text \<open>
  Each transaction is validated with its finish number and, when it passes, finished with its
  commit number before the next one comes; the committed ones are collected with their numbers.
\<close>

fun bocc_serial :: "(opt_txn \<times> ts_t \<times> ts_t) list \<Rightarrow> Bocc \<Rightarrow> (opt_txn \<times> ts_t) list result" where
  "bocc_serial [] st = Inr []"
| "bocc_serial ((T, finish_tn, tn) # rest) st =
    bind_result (bocc_central_validate False finish_tn T st) (\<lambda>rc.
    bind_result (if rc = RCOK then bocc_central_finish rc tn T st else Inr st) (\<lambda>st'.
    bind_result (bocc_serial rest st') (\<lambda>cs.
      Inr (if rc = RCOK then (T, tn) # cs else cs))))"

text \<open>The numbers come from one clock: finish before commit, and each after all earlier ones.\<close>

fun clock_ok :: "ts_t \<Rightarrow> (opt_txn \<times> ts_t \<times> ts_t) list \<Rightarrow> bool" where
  "clock_ok now [] = True"
| "clock_ok now ((T, finish_tn, tn) # rest) = (now < finish_tn \<and> finish_tn < tn \<and> clock_ok tn rest)"

lemma bocc_validate_RCOK:
  assumes "counts_ok T" "tn_sorted (bocc_history st)"
  shows "bocc_central_validate False finish_tn T st = Inr RCOK \<longleftrightarrow>
    (\<forall>h\<in>set (bocc_history st). ot_start_ts T < se_tn h \<and> se_tn h \<le> finish_tn \<longrightarrow>
       set (se_rows h) \<inter> rset T = {})"
proof -
  obtain r w where rw: "get_rw_set T = Inr (r, w)" "set (se_rows r) = rset T"
    by (rule get_rw_set_ok [OF assms(1)]) (rule that)
  have "finish_tn > ot_start_ts T \<and>
      \<not> history_check bocc_test_valid se_tn se_rows (ot_start_ts T)
          (dropWhile (\<lambda>h. se_tn h > finish_tn) (bocc_history st)) [se_rows r] \<longleftrightarrow>
      \<not> (\<forall>h\<in>set (bocc_history st). ot_start_ts T < se_tn h \<and> se_tn h \<le> finish_tn \<longrightarrow>
           set (se_rows h) \<inter> rset T = {})"
    unfolding bocc_rs.history_check_window [OF assms(2)] by (auto simp: rw(2) dest: less_le_trans)
  then show ?thesis using rw(1) by (auto simp: bocc_central_validate_def)
qed

lemma bocc_validate_total:
  assumes "counts_ok T"
  shows "bocc_central_validate tpcc finish_tn T st = Inr RCOK \<or> bocc_central_validate tpcc finish_tn T st = Inr Abort"
proof -
  obtain r w where "get_rw_set T = Inr (r, w)" by (rule get_rw_set_ok [OF assms]) (rule that)
  then show ?thesis by (auto simp: bocc_central_validate_def)
qed

text \<open>
  \<open>b\<close> may follow \<open>a\<close> in the serial order: it started after \<open>a\<close>'s commit number was drawn, or it
  read nothing that \<open>a\<close> wrote.
\<close>

definition may_follow :: "opt_txn \<times> ts_t \<Rightarrow> opt_txn \<times> ts_t \<Rightarrow> bool" where
  "may_follow a b \<longleftrightarrow> (ot_start_ts (fst b) < snd a \<longrightarrow> wset (fst a) \<inter> rset (fst b) = {})"

text \<open>Validation looks back at the committed transactions (\<open>past\<close>), which the history records.\<close>

definition recorded :: "(opt_txn \<times> ts_t) list \<Rightarrow> Bocc \<Rightarrow> bool" where
  "recorded past st \<longleftrightarrow>
     (\<forall>c\<in>set past. wset (fst c) \<noteq> {} \<longrightarrow>
        (\<exists>h\<in>set (bocc_history st). se_tn h = snd c \<and> set (se_rows h) = wset (fst c)))"

lemma bocc_finish_recorded:
  assumes "counts_ok T" "tn_sorted (bocc_history st)" "\<forall>h\<in>set (bocc_history st). se_tn h \<le> now" "now < tn"
    and "recorded past st"
  obtains st' where "bocc_central_finish RCOK tn T st = Inr st'" "tn_sorted (bocc_history st')"
    "\<forall>h\<in>set (bocc_history st'). se_tn h \<le> tn" "recorded (past @ [(T, tn)]) st'"
proof -
  obtain r w where rw: "get_rw_set T = Inr (r, w)" "set (se_rows w) = wset T"
    by (rule get_rw_set_ok [OF assms(1)]) (rule that)
  let ?h = "if se_rows w = [] then bocc_history st else w\<lparr>se_tn := tn\<rparr> # bocc_history st"
  have le: "\<forall>h\<in>set (bocc_history st). se_tn h \<le> tn"
    using assms(3,4) by (meson le_less_trans less_imp_le)
  obtain st' where st': "bocc_central_finish RCOK tn T st = Inr st'" "bocc_history st' = ?h"
    using rw(1) by (simp add: bocc_central_finish_def split: if_splits)
  moreover have "recorded (past @ [(T, tn)]) st'"
    using assms(5) rw(2) unfolding recorded_def st'(2) by (cases "se_rows w = []") auto
  ultimately show thesis using le assms(2) by (intro that [of st']) (auto split: if_splits)
qed

lemma bocc_serial_sound:
  assumes "bocc_serial ts st = Inr cs" "\<forall>t\<in>set ts. counts_ok (fst t)" "clock_ok now ts"
    and "tn_sorted (bocc_history st)" "\<forall>h\<in>set (bocc_history st). se_tn h \<le> now" "recorded past st"
    and "\<forall>c\<in>set past. snd c \<le> now"
  shows "(\<forall>a\<in>set past. \<forall>b\<in>set cs. may_follow a b) \<and> sorted_wrt may_follow cs"
  using assms
proof (induction ts arbitrary: st cs past now)
  case (Cons t ts)
  obtain T finish_tn tn where t: "t = (T, finish_tn, tn)" by (cases t)
  have ok: "counts_ok T" and clk: "now < finish_tn" "finish_tn < tn" "clock_ok tn ts"
    using Cons.prems(2,3) by (simp_all add: t)
  then have "now < tn" by (meson less_trans)
  have le: "x \<le> tn" if "x \<le> now" for x using that \<open>now < tn\<close> by (meson le_less_trans less_imp_le)
  show ?case
  proof (cases "bocc_central_validate False finish_tn T st = Inr RCOK")
    case True
    obtain st' where st': "bocc_central_finish RCOK tn T st = Inr st'" "tn_sorted (bocc_history st')"
      "\<forall>h\<in>set (bocc_history st'). se_tn h \<le> tn" "recorded (past @ [(T, tn)]) st'"
      using bocc_finish_recorded [OF ok Cons.prems(4,5) \<open>now < tn\<close> Cons.prems(6)] by blast
    obtain cs' where cs': "bocc_serial ts st' = Inr cs'" "cs = (T, tn) # cs'"
      using Cons.prems(1) True st'(1) by (auto simp: t bind_result_Inr_iff)
    have IH: "(\<forall>a\<in>set (past @ [(T, tn)]). \<forall>b\<in>set cs'. may_follow a b) \<and> sorted_wrt may_follow cs'"
      using Cons.prems(2,7) clk(3) st' cs'(1) le by (intro Cons.IH) auto
    have "may_follow a (T, tn)" if a: "a \<in> set past" for a
    proof (cases "wset (fst a) = {}")
      case False
      then obtain h where h: "h \<in> set (bocc_history st)" "se_tn h = snd a" "set (se_rows h) = wset (fst a)"
        using Cons.prems(6) a unfolding recorded_def by blast
      have "se_tn h \<le> finish_tn" using h(1) Cons.prems(5) clk(1) by (meson le_less_trans less_imp_le)
      moreover have "ot_start_ts T < se_tn h \<and> se_tn h \<le> finish_tn \<longrightarrow> set (se_rows h) \<inter> rset T = {}"
        using True h(1) unfolding bocc_validate_RCOK [OF ok Cons.prems(4)] by blast
      ultimately show ?thesis by (simp add: may_follow_def h(2,3))
    qed (simp add: may_follow_def)
    with IH cs'(2) show ?thesis by auto
  next
    case False
    with bocc_validate_total [OF ok] have "bocc_central_validate False finish_tn T st = Inr Abort" by blast
    then have "bocc_serial ts st = Inr cs" using Cons.prems(1) by (auto simp: t bind_result_Inr_iff)
    then show ?thesis
      using Cons.prems(2,4,6,7) Cons.prems(5) clk(3) le by (intro Cons.IH [of st cs tn past]) auto
  qed
qed simp

lemma bocc_old_history:
  assumes "\<forall>h\<in>set (bocc_history st). se_tn h \<le> start"
  shows "history_check bocc_test_valid se_tn se_rows start (dropWhile P (bocc_history st)) ys"
proof (cases "dropWhile P (bocc_history st)")
  case (Cons h hs)
  then have "h \<in> set (bocc_history st)" by (metis list.set_intros(1) set_dropWhileD)
  with assms have "\<not> start < se_tn h" by (simp add: linorder_not_less)
  with Cons show ?thesis by simp
next
  case Nil
  then show ?thesis by (simp only: history_check.simps)
qed

section \<open>Forward validation\<close>

lemma focc_validate_cases:
  assumes "counts_ok T"
  shows "focc_central_validate T st =
    Inr (if \<exists>e\<in>set (focc_active st). se_txn e \<noteq> ot_ref T \<and> set (se_rows e) \<inter> wset T \<noteq> {}
         then (Abort, focc_remove T st) else (RCOK, st))"
proof -
  obtain r w where rw: "get_rw_set T = Inr (r, w)" "set (se_rows r) = rset T" "set (se_rows w) = wset T"
    "se_txn r = ot_ref T" "se_txn w = ot_ref T"
    by (rule get_rw_set_ok [OF assms])
  show ?thesis
  proof (cases "se_rows w = []")
    case True
    with rw(3) have "wset T = {}" by simp
    with True rw(1) show ?thesis by (simp add: focc_central_validate_def)
  next
    case False
    have "focc_check (focc_active st) w \<longleftrightarrow>
        \<not> (\<exists>e\<in>set (focc_active st). se_txn e \<noteq> ot_ref T \<and> set (se_rows e) \<inter> wset T \<noteq> {})"
      unfolding focc_check_iff rw(3,5) by blast
    with False rw(1) show ?thesis by (simp add: focc_central_validate_def)
  qed
qed

lemma focc_remove_registered:
  assumes "\<exists>e\<in>set (focc_active st). se_txn e = ot_ref T"
  shows "\<exists>us e vs. focc_active st = us @ e # vs \<and> se_txn e = ot_ref T \<and> (\<forall>u\<in>set us. se_txn u \<noteq> ot_ref T) \<and>
    focc_active (focc_remove T st) = us @ vs \<and> focc_active_len (focc_remove T st) = focc_active_len st - 1"
proof -
  let ?P = "\<lambda>e. se_txn e = ot_ref T"
  obtain e es where ex: "extract_first ?P (focc_active st) = Some (e, es)"
    using assms extract_first_None_iff [of ?P "focc_active st"] by (cases "extract_first ?P (focc_active st)") auto
  then obtain us vs where "focc_active st = us @ e # vs" "es = us @ vs" "?P e" "\<forall>u\<in>set us. \<not> ?P u"
    by (rule extract_first_SomeE)
  with ex show ?thesis by (intro exI [of _ us] exI [of _ e] exI [of _ vs]) (simp add: focc_remove_def)
qed

lemma focc_remove_unregistered:
  "\<not> (\<exists>e\<in>set (focc_active st). se_txn e = ot_ref T) \<Longrightarrow> focc_remove T st = st"
  using extract_first_None_iff [of "\<lambda>e. se_txn e = ot_ref T" "focc_active st"]
  by (simp add: focc_remove_def)

section \<open>Properties\<close>

text \<open>Transactions that read and write given rows, for the concrete instances.\<close>

definition sample_opt_txn :: "64 word \<Rightarrow> ts_t \<Rightarrow> row_ref list \<Rightarrow> row_ref list \<Rightarrow> opt_txn" where
  "sample_opt_txn r start rs ws = \<lparr>ot_ref = r, ot_start_ts = start,
     ot_row_cnt = length rs + length ws, ot_write_cnt = length ws,
     ot_accesses = map (\<lambda>x. \<lparr>oa_type = RD, oa_row = x\<rparr>) rs @ map (\<lambda>x. \<lparr>oa_type = WR, oa_row = x\<rparr>) ws\<rparr>"

lemma sample_opt_txn_sets [simp]:
  "rset (sample_opt_txn r start rs ws) = set rs" "wset (sample_opt_txn r start rs ws) = set ws"
  by (auto simp: sample_opt_txn_def rset_def wset_def intro: exI [of _ "\<lparr>oa_type = RD, oa_row = x\<rparr>" for x]
      exI [of _ "\<lparr>oa_type = WR, oa_row = x\<rparr>" for x])

lemma sample_opt_txn_fields [simp]:
  "ot_ref (sample_opt_txn r start rs ws) = r" "ot_start_ts (sample_opt_txn r start rs ws) = start"
  "counts_ok (sample_opt_txn r start rs ws)"
  by (simp_all add: sample_opt_txn_def counts_ok_def filter_map o_def)

lemma get_rw_set_sample:
  "get_rw_set (sample_opt_txn r start rs ws) =
     Inr (\<lparr>se_tn = 0, se_txn = r, se_rows = rs\<rparr>, \<lparr>se_tn = 0, se_txn = r, se_rows = ws\<rparr>)"
  by (simp add: get_rw_set_def sample_opt_txn_def rw_loop_conv assert_that_def filter_map o_def)

text \<open>
  Claim C6. Optimistic validation with interleaved transactions: whenever two transactions have both
  passed validation and neither is finished, their write sets are disjoint and one of them read
  nothing that the other writes, so they can be put in a serial order.
\<close>

theorem occ_validated_compatible:
  assumes "occ_reach s" "os_valid s a = Some A" "os_valid s b = Some B" "a \<noteq> b"
  shows "wset A \<inter> wset B = {} \<and> (rset A \<inter> wset B = {} \<or> rset B \<inter> wset A = {})"
proof -
  have inv: "occ_sys_inv s" by (rule occ_reach_inv [OF assms(1)])
  then have ph: "phases_inv s" by (simp add: occ_sys_inv_def)
  note A = phases_validD [OF ph assms(2)] and B = phases_validD [OF ph assms(3)]
  have "in_flight s A" "in_flight s B" using assms(2,3) A(1) B(1) by (simp_all add: in_flight_def)
  then have "in_view s A B \<or> in_view s B A"
    using inv assms(4) A(1) B(1) unfolding occ_sys_inv_def views_inv_def by blast
  then show ?thesis using A(1,3) B(1,3) by (auto simp: in_view_def checked_against_def)
qed

theorem occ_validated_compatible_witness:
  "\<exists>s A B. occ_reach s \<and> os_valid s 1 = Some A \<and> os_valid s 2 = Some B \<and> wset A \<inter> wset B = {}"
proof -
  let ?A = "sample_opt_txn 1 5 [10] [11]" and ?B = "sample_opt_txn 2 6 [12] [13]"
  let ?ea = "\<lparr>se_tn = 0, se_txn = 1, se_rows = [11]\<rparr> :: set_ent"
  let ?eb = "\<lparr>se_tn = 0, se_txn = 2, se_rows = [13]\<rparr> :: set_ent"
  let ?s0 = "\<lparr>os_cc = occ_init, os_checking = Map.empty, os_valid = Map.empty\<rparr> :: occ_sys"
  let ?sa = "\<lparr>sn_rset = \<lparr>se_tn = 0, se_txn = 1, se_rows = [10]\<rparr>, sn_wset = ?ea, sn_finish = 7,
     sn_active = [], sn_his = []\<rparr> :: occ_snap"
  let ?sb = "\<lparr>sn_rset = \<lparr>se_tn = 0, se_txn = 2, se_rows = [12]\<rparr>, sn_wset = ?eb, sn_finish = 8,
     sn_active = [?ea], sn_his = []\<rparr> :: occ_snap"
  let ?c1 = "occ_init\<lparr>occ_active_len := 1, occ_active := [?ea]\<rparr>"
  let ?c2 = "occ_init\<lparr>occ_active_len := 2, occ_active := [?eb, ?ea]\<rparr>"
  let ?s1 = "?s0\<lparr>os_cc := ?c1, os_checking := [1 \<mapsto> (?A, ?sa)]\<rparr>"
  let ?s2 = "?s1\<lparr>os_cc := ?c1, os_checking := Map.empty, os_valid := [1 \<mapsto> ?A]\<rparr>"
  let ?s3 = "?s2\<lparr>os_cc := ?c2, os_checking := [2 \<mapsto> (?B, ?sb)]\<rparr>"
  let ?s4 = "?s3\<lparr>os_cc := ?c2, os_checking := Map.empty, os_valid := [1 \<mapsto> ?A, 2 \<mapsto> ?B]\<rparr>"
  have "occ_step ?s0 ?s1"
    using occ_step.enter [of ?A ?s0 7 ?sa ?c1] by (simp add: occ_enter_def get_rw_set_sample occ_init_def)
  then have r1: "occ_reach ?s1" by (rule occ_reach.step [OF occ_reach.start])
  have "occ_step ?s1 ?s2"
    using occ_step.pass [of ?s1 1 ?A ?sa False ?c1] by (simp add: occ_check_def occ_exit_def)
  then have r2: "occ_reach ?s2" by (rule occ_reach.step [OF r1])
  have "occ_step ?s2 ?s3"
    using occ_step.enter [of ?B ?s2 8 ?sb ?c2] by (simp add: occ_enter_def get_rw_set_sample occ_init_def)
  then have r3: "occ_reach ?s3" by (rule occ_reach.step [OF r2])
  have "occ_step ?s3 ?s4"
    using occ_step.pass [of ?s3 2 ?B ?sb False ?c2] by (simp add: occ_check_def occ_exit_def)
  then have r4: "occ_reach ?s4" by (rule occ_reach.step [OF r3])
  have v: "os_valid ?s4 1 = Some ?A" "os_valid ?s4 2 = Some ?B" by simp_all
  from occ_validated_compatible [OF r4 v] r4 v show ?thesis by auto
qed

text \<open>
  Claim C30. Backward validation, one transaction at a time: in the list of committed transactions, in
  commit order, no transaction has read a row that an earlier one wrote with a commit number drawn
  after the reader's start.
\<close>

theorem bocc_serial_no_stale_reads:
  assumes "bocc_serial ts bocc_init = Inr cs" "\<forall>t\<in>set ts. counts_ok (fst t)" "clock_ok now ts"
  shows "sorted_wrt (\<lambda>a b. ot_start_ts (fst b) < snd a \<longrightarrow> wset (fst a) \<inter> rset (fst b) = {}) cs"
  using bocc_serial_sound [OF assms, of "[]"]
  by (simp add: bocc_init_def recorded_def may_follow_def [abs_def])

text \<open>The second transaction reads row 1, which the first wrote after it started: only the other two commit.\<close>

theorem bocc_serial_no_stale_reads_witness:
  "let A = sample_opt_txn 1 1 [] [1]; B = sample_opt_txn 2 2 [1] [2]; C = sample_opt_txn 3 6 [1] [3];
       P = (\<lambda>a b. ot_start_ts (fst b) < snd a \<longrightarrow> wset (fst a) \<inter> rset (fst b) = {})
   in bocc_serial [(A, 3, 4), (B, 5, 6), (C, 7, 8)] bocc_init = Inr [(A, 4), (C, 8)] \<and>
      sorted_wrt P [(A, 4), (C, 8)]"
proof -
  let ?A = "sample_opt_txn 1 1 [] [1]" and ?B = "sample_opt_txn 2 2 [1] [2]" and ?C = "sample_opt_txn 3 6 [1] [3]"
  have run: "bocc_serial [(?A, 3, 4), (?B, 5, 6), (?C, 7, 8)] bocc_init = Inr [(?A, 4), (?C, 8)]"
    by (simp add: bocc_central_validate_def bocc_central_finish_def get_rw_set_sample bocc_init_def)
  have "clock_ok 0 [(?A, 3, 4), (?B, 5, 6), (?C, 7, 8)]" by simp
  from bocc_serial_no_stale_reads [OF run _ this] run show ?thesis unfolding Let_def by simp
qed

text \<open>
  Claim C31. Backward validation and the commit are two critical sections and there is no set of active
  transactions. Take any two transactions that each read what the other writes, and any state whose
  history is not newer than their starts. Both pass validation in that state, whatever their finish
  numbers; both commits are then recorded, with both write sets in the history. Had the second one
  validated after the first one's commit, with a finish number not below the commit's, it would
  have aborted.
\<close>

theorem bocc_write_skew:
  assumes "counts_ok A" "counts_ok B"
    and "\<forall>h\<in>set (bocc_history st). se_tn h \<le> ot_start_ts A \<and> se_tn h \<le> ot_start_ts B"
    and "rset A \<inter> wset B \<noteq> {}" "rset B \<inter> wset A \<noteq> {}"
    and "ot_start_ts B < tn_a" "tn_a \<le> late_b"
  shows "bocc_central_validate tpcc fin_a A st = Inr RCOK \<and> bocc_central_validate tpcc fin_b B st = Inr RCOK \<and>
    (\<exists>st1 st2 ea eb. bocc_central_finish RCOK tn_a A st = Inr st1 \<and> bocc_central_finish RCOK tn_b B st1 = Inr st2 \<and>
       bocc_history st2 = eb # ea # bocc_history st \<and>
       se_tn ea = tn_a \<and> set (se_rows ea) = wset A \<and> se_tn eb = tn_b \<and> set (se_rows eb) = wset B \<and>
       bocc_central_validate tpcc late_b B st1 = Inr Abort)"
proof -
  obtain ra wa where A: "get_rw_set A = Inr (ra, wa)" "set (se_rows ra) = rset A" "set (se_rows wa) = wset A"
    by (rule get_rw_set_ok [OF assms(1)])
  obtain rb wb where B: "get_rw_set B = Inr (rb, wb)" "set (se_rows rb) = rset B" "set (se_rows wb) = wset B"
    by (rule get_rw_set_ok [OF assms(2)])
  let ?st1 = "st\<lparr>bocc_history := wa\<lparr>se_tn := tn_a\<rparr> # bocc_history st, bocc_his_len := bocc_his_len st + 1\<rparr>"
  let ?st2 = "?st1\<lparr>bocc_history := wb\<lparr>se_tn := tn_b\<rparr> # bocc_history ?st1, bocc_his_len := bocc_his_len ?st1 + 1\<rparr>"
  have ne: "se_rows wa \<noteq> []" "se_rows wb \<noteq> []" using A(3) B(3) assms(4,5) by auto
  have "bocc_central_validate tpcc fin_a A st = Inr RCOK"
    using bocc_old_history [of st "ot_start_ts A"] assms(3) A(1) by (simp add: bocc_central_validate_def)
  moreover have "bocc_central_validate tpcc fin_b B st = Inr RCOK"
    using bocc_old_history [of st "ot_start_ts B"] assms(3) B(1) by (simp add: bocc_central_validate_def)
  moreover have "bocc_central_finish RCOK tn_a A st = Inr ?st1" "bocc_central_finish RCOK tn_b B ?st1 = Inr ?st2"
    using A(1) B(1) ne by (simp_all add: bocc_central_finish_def)
  moreover have "\<not> bocc_test_valid (se_rows wa) (se_rows rb)"
    unfolding bocc_test_valid_iff using A(3) B(2) assms(5) by blast
  then have "bocc_central_validate tpcc late_b B ?st1 = Inr Abort"
    using B(1) assms(6,7) by (simp add: bocc_central_validate_def not_less [symmetric])
  ultimately show ?thesis using A(3) B(3) by (intro conjI exI [of _ ?st1] exI [of _ ?st2]) auto
qed

theorem bocc_write_skew_witness:
  "let A = sample_opt_txn 1 5 [10] [20]; B = sample_opt_txn 2 6 [20] [10] in
   bocc_central_validate False 7 A bocc_init = Inr RCOK \<and> bocc_central_validate False 8 B bocc_init = Inr RCOK \<and>
   (\<exists>st1 st2 ea eb. bocc_central_finish RCOK 9 A bocc_init = Inr st1 \<and> bocc_central_finish RCOK 10 B st1 = Inr st2 \<and>
      bocc_history st2 = [eb, ea] \<and> set (se_rows ea) = {20} \<and> set (se_rows eb) = {10} \<and>
      bocc_central_validate False 11 B st1 = Inr Abort)"
proof -
  let ?A = "sample_opt_txn 1 5 [10] [20]" and ?B = "sample_opt_txn 2 6 [20] [10]"
  have h: "bocc_history bocc_init = []" by (simp add: bocc_init_def)
  show ?thesis
    using bocc_write_skew [of ?A ?B bocc_init 9 11 False 7 8 10] unfolding Let_def h by auto
qed

text \<open>
  Claim C27. Forward validation decides exactly this: a transaction commits unless it writes a row that
  another transaction's registered read set contains. A commit leaves the active list as it is, and
  so does the abort of a transaction that is not registered; the abort of a registered one unlinks
  its first entry, keeps every other entry in its place and counts the length down by one.
\<close>

theorem focc_validate_exact:
  assumes "counts_ok T"
  shows "\<exists>st'. focc_central_validate T st =
      Inr (if \<exists>e\<in>set (focc_active st). se_txn e \<noteq> ot_ref T \<and> set (se_rows e) \<inter> wset T \<noteq> {}
           then Abort else RCOK, st') \<and>
    (if (\<exists>e\<in>set (focc_active st). se_txn e \<noteq> ot_ref T \<and> set (se_rows e) \<inter> wset T \<noteq> {}) \<and>
        (\<exists>e\<in>set (focc_active st). se_txn e = ot_ref T)
     then \<exists>us e vs. focc_active st = us @ e # vs \<and> se_txn e = ot_ref T \<and> (\<forall>u\<in>set us. se_txn u \<noteq> ot_ref T) \<and>
            focc_active st' = us @ vs \<and> focc_active_len st' = focc_active_len st - 1
     else st' = st)" (is "\<exists>st'. _ = Inr (if ?conflict then Abort else RCOK, st') \<and> _ st'")
proof -
  have v: "focc_central_validate T st = Inr (if ?conflict then (Abort, focc_remove T st) else (RCOK, st))"
    by (rule focc_validate_cases [OF assms])
  show ?thesis
  proof (cases "?conflict \<and> (\<exists>e\<in>set (focc_active st). se_txn e = ot_ref T)")
    case True
    then have "focc_central_validate T st = Inr (Abort, focc_remove T st)" using v by simp
    with True focc_remove_registered [of st T] show ?thesis by (simp only: simp_thms if_True) blast
  next
    case False
    then have "focc_central_validate T st = Inr (if ?conflict then Abort else RCOK, st)"
      using v focc_remove_unregistered [of st T] by auto
    with False show ?thesis by (simp only: if_False) blast
  qed
qed

theorem focc_validate_exact_witness:
  "let T = sample_opt_txn 1 5 [10] [10]; e = \<lparr>se_tn = 0, se_txn = 2, se_rows = [10]\<rparr>;
       own = \<lparr>se_tn = 0, se_txn = 1, se_rows = [10]\<rparr>; st = \<lparr>focc_active = [e, own], focc_active_len = 2\<rparr>
   in \<exists>st'. focc_central_validate T st = Inr (Abort, st') \<and> focc_active st' = [e] \<and> focc_active_len st' = 1"
proof -
  let ?T = "sample_opt_txn 1 5 [10] [10]"
  let ?e = "\<lparr>se_tn = 0, se_txn = 2, se_rows = [10]\<rparr> :: set_ent" and ?own = "\<lparr>se_tn = 0, se_txn = 1, se_rows = [10]\<rparr> :: set_ent"
  let ?st = "\<lparr>focc_active = [?e, ?own], focc_active_len = 2\<rparr>"
  obtain st' us e vs where v: "focc_central_validate ?T ?st = Inr (Abort, st')" "[?e, ?own] = us @ e # vs" "se_txn e = 1"
    "focc_active st' = us @ vs" "focc_active_len st' = 1"
    using focc_validate_exact [of ?T ?st] by auto
  from v(2,3) have "us = [?e]" "vs = []" by (auto simp: Cons_eq_append_conv)
  with v show ?thesis unfolding Let_def by auto
qed

text \<open>
  A transaction that is already registered keeps the read set of its first registration:
  after it has read more rows and called \<open>active_storage\<close> again, a writer of one of these rows still
  passes validation.
\<close>

theorem focc_later_reads_missed:
  assumes "counts_ok T" "e \<in> set (focc_active st)" "se_txn e = ot_ref T"
    and "counts_ok W" "\<forall>x\<in>set (focc_active st). set (se_rows x) \<inter> wset W = {}" "rset T \<inter> wset W \<noteq> {}"
  shows "\<exists>st'. focc_active_storage T st = Inr st' \<and> focc_central_validate W st' = Inr (RCOK, st')"
proof -
  obtain r w where "get_rw_set T = Inr (r, w)" by (rule get_rw_set_ok [OF assms(1)]) (rule that)
  with assms(2,3) have "focc_active_storage T st = Inr st" by (auto simp: focc_active_storage_def)
  moreover obtain r w where rw: "get_rw_set W = Inr (r, w)" "set (se_rows w) = wset W"
    by (rule get_rw_set_ok [OF assms(4)]) (rule that)
  then have "focc_central_validate W st = Inr (RCOK, st)"
    using assms(5) by (simp add: focc_central_validate_def focc_check_iff)
  ultimately show ?thesis by blast
qed

text \<open>Transaction 1 reads rows 10 and 11, registered after each: the writer of 11 still passes.\<close>

theorem focc_later_reads_missed_witness:
  "\<exists>st st'. focc_active_storage (sample_opt_txn 1 5 [10] []) focc_init = Inr st \<and>
     focc_active_storage (sample_opt_txn 1 5 [10, 11] []) st = Inr st' \<and>
     focc_central_validate (sample_opt_txn 2 5 [] [11]) st' = Inr (RCOK, st')"
proof -
  let ?e = "\<lparr>se_tn = 0, se_txn = 1, se_rows = [10]\<rparr> :: set_ent"
  let ?st = "\<lparr>focc_active = [?e], focc_active_len = 1\<rparr>"
  have "focc_active_storage (sample_opt_txn 1 5 [10] []) focc_init = Inr ?st"
    by (simp add: focc_active_storage_def get_rw_set_sample focc_init_def)
  moreover have "\<exists>st'. focc_active_storage (sample_opt_txn 1 5 [10, 11] []) ?st = Inr st' \<and>
     focc_central_validate (sample_opt_txn 2 5 [] [11]) st' = Inr (RCOK, st')"
    by (rule focc_later_reads_missed [of _ ?e]) simp_all
  ultimately show ?thesis by blast
qed

end
