(* ===== verification/RowWsi.thy ===== *)
theory RowWsi
imports VersionChain Optimistic
begin

text \<open>
  Write snapshot isolation: \<open>Row_wsi\<close> (\<open>row_wsi.cpp\<close>), whose histories are those of
  \<open>VersionChain\<close>, and the central manager \<open>wsi\<close> (\<open>wsi.cpp\<close>). The read and write sets are
  collected by the same code as in \<open>OptCC\<close>.
\<close>

section \<open>Data\<close>

record wsi_txn =
  wt_txn :: opt_txn
  wt_commit_ts :: ts_t

record WSIReqEntry =
  wq_txn :: "64 word"
  wq_ts :: ts_t

record 'r Row_wsi = "('r, unit) version_row" +
  wsi_prereq :: "WSIReqEntry list"
  wsi_preq_len :: "64 word"
  lastCommit :: "64 word"

type_synonym 'r wsi_rows = "row_ref \<Rightarrow> 'r Row_wsi"

section \<open>Operations of a row\<close>

definition wsi_row_init :: "'r \<Rightarrow> 'r Row_wsi" where
  "wsi_row_init row = \<lparr>vr_row = row, readhis = [], writehis = [], whis_len = 0, rhis_len = 0,
     wsi_prereq = [], wsi_preq_len = 0, lastCommit = 0\<rparr>"

definition update_last_commit :: "64 word \<Rightarrow> 'r Row_wsi \<Rightarrow> 'r Row_wsi" where
  "update_last_commit ts s = (if lastCommit s < ts then s\<lparr>lastCommit := ts\<rparr> else s)"

definition wsi_clear_history :: "TsType \<Rightarrow> ts_t \<Rightarrow> 'r Row_wsi \<Rightarrow> ('r Row_wsi \<times> 'r option) result" where
  "wsi_clear_history type ts s = clear_history type ts s"

definition wsi_buffer_req :: "TsType \<Rightarrow> wsi_txn \<Rightarrow> 'r Row_wsi \<Rightarrow> 'r Row_wsi" where
  "wsi_buffer_req type T s =
    (if type = P_REQ then
       s\<lparr>wsi_preq_len := wsi_preq_len s + 1,
         wsi_prereq := \<lparr>wq_txn = ot_ref (wt_txn T), wq_ts = ot_start_ts (wt_txn T)\<rparr> # wsi_prereq s\<rparr>
     else s)"

definition wsi_debuffer_req :: "wsi_txn \<Rightarrow> 'r Row_wsi \<Rightarrow> 'r Row_wsi result" where
  "wsi_debuffer_req T s =
    (case extract_first (\<lambda>q. wq_txn q = ot_ref (wt_txn T)) (wsi_prereq s) of
       None \<Rightarrow> Inl Assert_failed
     | Some (_, qs) \<Rightarrow> Inr (s\<lparr>wsi_prereq := qs, wsi_preq_len := wsi_preq_len s - 1\<rparr>))"

definition wsi_insert_history :: "ts_t \<Rightarrow> 'r option \<Rightarrow> 'r Row_wsi \<Rightarrow> 'r Row_wsi" where
  "wsi_insert_history ts row s = insert_history \<lparr>he_ts = ts, he_row = row\<rparr> s"

text \<open>The three kinds of request before the recycling; the last component is \<open>txn->cur_row\<close>.\<close>

definition wsi_read :: "wsi_txn \<Rightarrow> 'r Row_wsi \<Rightarrow> (RC \<times> 'r Row_wsi \<times> 'r option) result" where
  "wsi_read T s =
    (let start_ts = ot_start_ts (wt_txn T) in
     case version_read s start_ts of
       None \<Rightarrow> Inl Null_deref
     | Some row \<Rightarrow> Inr (RCOK, wsi_insert_history start_ts None s, Some row))"

definition wsi_prewrite :: "his_cfg \<Rightarrow> wsi_txn \<Rightarrow> 'r Row_wsi \<Rightarrow> (RC \<times> 'r Row_wsi \<times> 'r option) result" where
  "wsi_prewrite cfg T s =
    Inr (if wsi_preq_len s < g_max_pre_req cfg then (RCOK, wsi_buffer_req P_REQ T s, None)
         else (Abort, s, None))"

definition wsi_finish_write :: "wsi_txn \<Rightarrow> 'r Row_wsi \<Rightarrow> (RC \<times> 'r Row_wsi \<times> 'r option) result" where
  "wsi_finish_write T s = bind_result (wsi_debuffer_req T s) (\<lambda>s'. Inr (RCOK, s', None))"

definition wsi_access ::
  "his_cfg \<Rightarrow> ts_t \<Rightarrow> wsi_txn \<Rightarrow> TsType \<Rightarrow> 'r option \<Rightarrow> 'r Row_wsi \<Rightarrow>
   (RC \<times> 'r Row_wsi \<times> 'r option) result" where
  "wsi_access cfg t_th T type row s =
    bind_result
      (case type of
         R_REQ \<Rightarrow> wsi_read T s
       | P_REQ \<Rightarrow> wsi_prewrite cfg T s
       | W_REQ \<Rightarrow> wsi_finish_write T (wsi_insert_history (wt_commit_ts T) row s)
       | XP_REQ \<Rightarrow> wsi_finish_write T s)
      (\<lambda>(rc, s', cur).
         if rc = RCOK then bind_result (recycle (g_his_recycle_len cfg) t_th s') (\<lambda>s''. Inr (rc, s'', cur))
         else Inr (rc, s', cur))"

section \<open>The manager\<close>

text \<open>The loop of \<open>central_validate\<close>; \<open>rc\<close> is not initialised before it.\<close>

fun wsi_check_loop :: "'r wsi_rows \<Rightarrow> ts_t \<Rightarrow> row_ref list \<Rightarrow> RC option \<Rightarrow> RC option" where
  "wsi_check_loop rows start_tn [] rc = rc"
| "wsi_check_loop rows start_tn (i # is) rc =
    wsi_check_loop rows start_tn is (if lastCommit (rows i) > start_tn then Some Abort else rc)"

text \<open>\<open>valid\<close> is set once, to true, so the last branch overwrites what the loop found.\<close>

definition wsi_central_validate :: "'r wsi_rows \<Rightarrow> wsi_txn \<Rightarrow> RC result" where
  "wsi_central_validate rows T =
    bind_result (get_rw_set (wt_txn T)) (\<lambda>(rs, ws).
      let valid = True;
          readonly = (se_rows ws = []);
          rc = (if \<not> readonly then wsi_check_loop rows (ot_start_ts (wt_txn T)) (se_rows rs) None else None)
      in Inr (if valid then RCOK else Abort))"

definition wsi_validate :: "'r wsi_rows \<Rightarrow> wsi_txn \<Rightarrow> RC result" where
  "wsi_validate rows T = wsi_central_validate rows T"

definition wsi_central_finish :: "RC \<Rightarrow> wsi_txn \<Rightarrow> 'r wsi_rows \<Rightarrow> 'r wsi_rows result" where
  "wsi_central_finish rc T rows =
    bind_result (get_rw_set (wt_txn T)) (\<lambda>(rs, ws).
      Inr (fold (\<lambda>i rows. rows(i := update_last_commit (wt_commit_ts T) (rows i))) (se_rows rs) rows))"

definition wsi_finish :: "RC \<Rightarrow> wsi_txn \<Rightarrow> 'r wsi_rows \<Rightarrow> 'r wsi_rows result" where
  "wsi_finish rc T rows = wsi_central_finish rc T rows"

text \<open>\<open>ts\<close> is the number drawn from \<open>glob_manager.get_ts\<close>.\<close>

definition wsi_gene_finish_ts :: "ts_t \<Rightarrow> wsi_txn \<Rightarrow> wsi_txn" where
  "wsi_gene_finish_ts ts T = T\<lparr>wt_commit_ts := ts\<rparr>"

section \<open>Runs\<close>

datatype 'r wsi_event =
    WsiAccess row_ref wsi_txn TsType "'r option" ts_t
  | WsiFinish RC wsi_txn

fun wsi_run :: "his_cfg \<Rightarrow> 'r wsi_event list \<Rightarrow> 'r wsi_rows \<Rightarrow> 'r wsi_rows result" where
  "wsi_run cfg [] rows = Inr rows"
| "wsi_run cfg (WsiAccess i T type row t_th # evs) rows =
    bind_result (wsi_access cfg t_th T type row (rows i)) (\<lambda>(_, s, _). wsi_run cfg evs (rows(i := s)))"
| "wsi_run cfg (WsiFinish rc T # evs) rows = bind_result (wsi_finish rc T rows) (wsi_run cfg evs)"

text \<open>What an event means to the version store of row \<open>i\<close>.\<close>

fun wsi_ops :: "row_ref \<Rightarrow> 'r wsi_event \<Rightarrow> ('r his_entry, ts_t) version_op list" where
  "wsi_ops i (WsiAccess j T type row t_th) =
    (if j = i then
       (if type = W_REQ then [Install \<lparr>he_ts = wt_commit_ts T, he_row = row\<rparr>] else []) @ [Recycle t_th]
     else [])"
| "wsi_ops i (WsiFinish rc T) = []"

fun wsi_event_ok :: "'r wsi_event \<Rightarrow> bool" where
  "wsi_event_ok (WsiAccess i T type row t_th) \<longleftrightarrow> (type = W_REQ \<longrightarrow> row \<noteq> None)"
| "wsi_event_ok (WsiFinish rc T) \<longleftrightarrow> counts_ok (wt_txn T)"

text \<open>An event that belongs to the future of the snapshot \<open>u\<close> on row \<open>i\<close>.\<close>

fun wsi_after :: "row_ref \<Rightarrow> ts_t \<Rightarrow> 'r wsi_event \<Rightarrow> bool" where
  "wsi_after i u (WsiAccess j T type row t_th) \<longleftrightarrow>
    (j = i \<longrightarrow> t_th \<le> u \<and> (type = W_REQ \<longrightarrow> u < wt_commit_ts T))"
| "wsi_after i u (WsiFinish rc T) \<longleftrightarrow> True"

section \<open>Effect of a call\<close>

lemma wsi_buffer_vpart [simp]:
  "vpart (wsi_buffer_req ty T s) = vpart s" "lastCommit (wsi_buffer_req ty T s) = lastCommit s"
  "vpart (update_last_commit ts s) = vpart s" "version_inv (update_last_commit ts s) = version_inv s"
  by (simp_all add: wsi_buffer_req_def update_last_commit_def vpart_def version_inv_def)

lemma wsi_insert_history_last [simp]: "lastCommit (wsi_insert_history ts row s) = lastCommit s"
  by (simp add: wsi_insert_history_def insert_history_def insert_writehis_def insert_readhis_def)

lemma wsi_debuffer_keeps:
  "wsi_debuffer_req T s = Inr s' \<Longrightarrow> vpart s' = vpart s \<and> lastCommit s' = lastCommit s"
  by (auto simp: wsi_debuffer_req_def vpart_def split: option.splits)

lemma recycle_last:
  assumes "version_inv s" "recycle len t_th s = Inr s'"
  shows "lastCommit s' = lastCommit s"
  using recycle_spec [OF assms(1), of len t_th] assms(2) by auto

text \<open>A call: its own part, which ends in the state \<open>s1\<close>, and then the recycling.\<close>

lemma wsi_access_parts:
  assumes inv: "version_inv s" and run: "wsi_access cfg t_th T type row s = Inr (rc, s', cur)"
    and row: "type = W_REQ \<longrightarrow> row \<noteq> None"
  obtains (keep) "type \<noteq> W_REQ" "s' = s"
  | (read) "type = R_REQ"
      "recycle (g_his_recycle_len cfg) t_th (insert_readhis \<lparr>he_ts = ot_start_ts (wt_txn T), he_row = None\<rparr> s) = Inr s'"
  | (install) s1 where "type = W_REQ" "recycle (g_his_recycle_len cfg) t_th s1 = Inr s'"
      "vpart s1 = insert_writehis \<lparr>he_ts = wt_commit_ts T, he_row = row\<rparr> (vpart s)" "lastCommit s1 = lastCommit s"
  | (other) s1 where "type \<noteq> W_REQ" "recycle (g_his_recycle_len cfg) t_th s1 = Inr s'"
      "vpart s1 = vpart s" "lastCommit s1 = lastCommit s"
proof (cases type)
  case R_REQ
  then show thesis
    using run read by (auto simp: wsi_access_def wsi_read_def Let_def bind_result_Inr_iff wsi_insert_history_def
        insert_history_def split: option.splits)
next
  case P_REQ
  then show thesis
    using run keep other [of "wsi_buffer_req P_REQ T s"]
    by (auto simp: wsi_access_def wsi_prewrite_def bind_result_Inr_iff split: if_splits)
next
  case W_REQ
  then obtain s1 where s1: "wsi_debuffer_req T (wsi_insert_history (wt_commit_ts T) row s) = Inr s1"
    "recycle (g_his_recycle_len cfg) t_th s1 = Inr s'"
    using run by (auto simp: wsi_access_def wsi_finish_write_def bind_result_Inr_iff)
  have "vpart (wsi_insert_history (wt_commit_ts T) row s) =
      insert_writehis \<lparr>he_ts = wt_commit_ts T, he_row = row\<rparr> (vpart s)"
    using row W_REQ by (simp add: wsi_insert_history_def insert_history_def vpart_insert_writehis)
  with s1 W_REQ install [of s1] wsi_debuffer_keeps [OF s1(1)] show thesis by simp
next
  case XP_REQ
  then obtain s1 where "wsi_debuffer_req T s = Inr s1" "recycle (g_his_recycle_len cfg) t_th s1 = Inr s'"
    using run by (auto simp: wsi_access_def wsi_finish_write_def bind_result_Inr_iff)
  with XP_REQ other [of s1] wsi_debuffer_keeps show thesis by auto
qed

lemma wsi_access_refines:
  assumes inv: "version_inv s" and run: "wsi_access cfg t_th T type row s = Inr (rc, s', cur)"
    and row: "type = W_REQ \<longrightarrow> row \<noteq> None"
  shows "version_run insert_writehis maintain (wsi_ops i (WsiAccess i T type row t_th)) (vpart s) (vpart s') \<and>
    lastCommit s' = lastCommit s"
proof -
  have m: "maintain t_th (vpart s1) (vpart s2) \<and> lastCommit s2 = lastCommit s1"
    if "recycle len t_th s1 = Inr s2" "version_inv (vpart s1)" for s1 s2 :: "'a Row_wsi" and len
    using that maintain_vpart recycle_last by auto
  from inv run row show ?thesis
  proof (cases rule: wsi_access_parts)
    case keep
    then show ?thesis by (simp add: maintain_refl)
  next
    case read
    let ?s1 = "insert_readhis \<lparr>he_ts = ot_start_ts (wt_txn T), he_row = None\<rparr> s"
    have "version_inv ?s1" using inv by (simp add: version_inv_insert_readhis)
    then have "lastCommit s' = lastCommit ?s1" using read(2) by (rule recycle_last)
    with read maintain_vpart_read [OF inv _ read(2)] show ?thesis by (simp add: insert_readhis_def)
  next
    case (install s1)
    have "version_inv (vpart s1)" using inv row install(1,3) by (simp add: version_inv_insert_writehis)
    with m [OF install(2)] install show ?thesis by simp
  next
    case (other s1)
    with m [OF other(2)] inv show ?thesis by simp
  qed
qed

section \<open>Effect of a run\<close>

lemma update_last_commit_idem [simp]: "update_last_commit ts (update_last_commit ts s) = update_last_commit ts s"
  by (simp add: update_last_commit_def)

lemma lastCommit_update [simp]: "lastCommit (update_last_commit ts s) = max (lastCommit s) ts"
  by (auto simp: update_last_commit_def max_def dest: less_imp_le order_antisym [OF leI])

lemma fold_update_last:
  "fold (\<lambda>i rows. rows(i := update_last_commit ts (rows i))) is rows i =
     (if i \<in> set is then update_last_commit ts (rows i) else rows i)"
  by (induction "is" arbitrary: rows) auto

lemma wsi_finish_spec:
  assumes "counts_ok (wt_txn T)"
  shows "wsi_finish rc T rows =
    Inr (\<lambda>i. if i \<in> rset (wt_txn T) then update_last_commit (wt_commit_ts T) (rows i) else rows i)"
proof -
  obtain r w where "get_rw_set (wt_txn T) = Inr (r, w)" "set (se_rows r) = rset (wt_txn T)"
    by (rule get_rw_set_ok [OF assms]) (rule that)
  then show ?thesis
    by (simp add: wsi_finish_def wsi_central_finish_def fun_eq_iff fold_update_last)
qed

text \<open>The commit numbers of the finished transactions that read row \<open>i\<close>.\<close>

definition reader_commits :: "row_ref \<Rightarrow> 'r wsi_event list \<Rightarrow> ts_t set" where
  "reader_commits i evs = {wt_commit_ts T | rc T. WsiFinish rc T \<in> set evs \<and> i \<in> rset (wt_txn T)}"

lemma reader_commits_simps [simp]:
  "reader_commits i [] = {}"
  "reader_commits i (WsiAccess j T type row th # evs) = reader_commits i evs"
  "reader_commits i (WsiFinish rc T # evs) =
     (if i \<in> rset (wt_txn T) then insert (wt_commit_ts T) (reader_commits i evs) else reader_commits i evs)"
  by (auto simp: reader_commits_def)

lemma finite_reader_commits [simp]: "finite (reader_commits i evs)"
proof (induction evs)
  case (Cons ev evs)
  then show ?case by (cases ev) auto
qed simp

lemma Max_insert_max: "finite S \<Longrightarrow> Max (insert (max a b) S) = Max (insert a (insert b S))"
  for a :: "'a::linorder"
  by (cases "S = {}") (simp_all add: max.assoc)

lemma wsi_run_refines:
  assumes "wsi_run cfg evs rows = Inr rows'" "\<And>j. version_inv (rows j)"
    and "\<And>ev. ev \<in> set evs \<Longrightarrow> wsi_event_ok ev"
  shows "version_run insert_writehis maintain (concat (map (wsi_ops i) evs)) (vpart (rows i)) (vpart (rows' i)) \<and>
    lastCommit (rows' i) = Max (insert (lastCommit (rows i)) (reader_commits i evs))"
  using assms
proof (induction evs arbitrary: rows)
  case (Cons ev evs)
  show ?case
  proof (cases ev)
    case (WsiAccess j T type row t_th)
    obtain rc s cur where a: "wsi_access cfg t_th T type row (rows j) = Inr (rc, s, cur)"
      and r: "wsi_run cfg evs (rows(j := s)) = Inr rows'"
      using Cons.prems(1) WsiAccess by (auto simp: bind_result_Inr_iff)
    have row: "type = W_REQ \<longrightarrow> row \<noteq> None" using Cons.prems(3) WsiAccess by force
    note ref = wsi_access_refines [OF Cons.prems(2) a row]
    have "version_inv (vpart s)"
      by (rule vc.run_ok [OF conjunct1 [OF ref]]) (use Cons.prems(2) row in \<open>auto split: if_splits\<close>)
    then have IH: "version_run insert_writehis maintain (concat (map (wsi_ops i) evs))
        (vpart ((rows(j := s)) i)) (vpart (rows' i)) \<and>
      lastCommit (rows' i) = Max (insert (lastCommit ((rows(j := s)) i)) (reader_commits i evs))"
      using Cons.prems(2,3) by (intro Cons.IH [OF r]) auto
    show ?thesis
    proof (cases "j = i")
      case True
      then show ?thesis using ref [of i] IH WsiAccess by (auto simp: version_run_append)
    qed (use IH WsiAccess in simp)
  next
    case (WsiFinish rc T)
    define rows1 where "rows1 =
      (\<lambda>i. if i \<in> rset (wt_txn T) then update_last_commit (wt_commit_ts T) (rows i) else rows i)"
    have "counts_ok (wt_txn T)" using Cons.prems(3) [of ev] WsiFinish by simp
    then have r: "wsi_run cfg evs rows1 = Inr rows'"
      using Cons.prems(1) WsiFinish by (simp add: wsi_finish_spec rows1_def)
    have "version_run insert_writehis maintain (concat (map (wsi_ops i) evs)) (vpart (rows1 i)) (vpart (rows' i)) \<and>
        lastCommit (rows' i) = Max (insert (lastCommit (rows1 i)) (reader_commits i evs))"
      using Cons.prems(2,3) by (intro Cons.IH [OF r]) (auto simp: rows1_def)
    moreover have "vpart (rows1 i) = vpart (rows i)" by (simp add: rows1_def)
    ultimately show ?thesis
      using WsiFinish by (simp add: rows1_def Max_insert_max del: Max_insert)
  qed
qed simp

lemma version_inv_wsi_row_init [simp]: "version_inv (wsi_row_init row)"
  by (simp add: version_inv_def wsi_row_init_def his_sorted_def)

section \<open>Properties\<close>

text \<open>
  Claim C34. Snapshot reads of write snapshot isolation: after a read of row \<open>i\<close>, whatever accesses to any
  rows and finishes of any transactions follow, a second read by the same transaction returns the
  same contents, provided the versions installed on the row carry commit numbers after the
  snapshot and the recycling thresholds do not pass it.
\<close>

theorem wsi_snapshot_read_repeats:
  assumes "\<And>j. version_inv (rows j)"
    and "wsi_access cfg th_a T R_REQ row_a (rows i) = Inr (rc_a, s_a, cur_a)"
    and "wsi_run cfg evs (rows(i := s_a)) = Inr rows'"
    and "\<And>ev. ev \<in> set evs \<Longrightarrow> wsi_event_ok ev \<and> wsi_after i (ot_start_ts (wt_txn T)) ev"
    and "th_a \<le> ot_start_ts (wt_txn T)"
    and "wsi_access cfg th_b T R_REQ row_b (rows' i) = Inr (rc_b, s_b, cur_b)"
  shows "cur_b = cur_a"
proof -
  let ?u = "ot_start_ts (wt_txn T)" and ?evs = "WsiAccess i T R_REQ row_a th_a # evs"
  have run: "wsi_run cfg ?evs rows = Inr rows'" using assms(2,3) by simp
  have ok: "wsi_event_ok ev \<and> wsi_after i ?u ev" if "ev \<in> set ?evs" for ev
    using that assms(4,5) by auto
  have "version_run insert_writehis maintain (concat (map (wsi_ops i) ?evs)) (vpart (rows i)) (vpart (rows' i))"
    using wsi_run_refines [OF run assms(1)] ok by blast
  moreover have "he_row e \<noteq> None \<and> ?u < he_ts e" if e: "Install e \<in> set (concat (map (wsi_ops i) ?evs))" for e
  proof -
    from e obtain ev where ev: "ev \<in> set ?evs" "Install e \<in> set (wsi_ops i ev)"
      unfolding set_concat set_map by blast
    with ok [OF ev(1)] show ?thesis by (cases ev) (auto split: if_splits)
  qed
  moreover have "th \<le> ?u" if e: "Recycle th \<in> set (concat (map (wsi_ops i) ?evs))" for th
  proof -
    from e obtain ev where ev: "ev \<in> set ?evs" "Recycle th \<in> set (wsi_ops i ev)"
      unfolding set_concat set_map by blast
    with ok [OF ev(1)] show ?thesis by (cases ev) (auto split: if_splits)
  qed
  moreover have "version_inv (vpart (rows i))" using assms(1) by simp
  ultimately have "version_inv (vpart (rows' i)) \<and>
      version_read (vpart (rows' i)) ?u = version_read (vpart (rows i)) ?u"
    by (intro vc.snapshot_stable)
  moreover have "cur_a = version_read (rows i) ?u" "cur_b = version_read (rows' i) ?u"
    using assms(2,6) by (auto simp: wsi_access_def wsi_read_def Let_def bind_result_Inr_iff split: option.splits)
  ultimately show ?thesis by simp
qed

definition sample_wsi_txn :: "64 word \<Rightarrow> ts_t \<Rightarrow> ts_t \<Rightarrow> row_ref list \<Rightarrow> row_ref list \<Rightarrow> wsi_txn" where
  "sample_wsi_txn r start commit rs ws = \<lparr>wt_txn = sample_opt_txn r start rs ws, wt_commit_ts = commit\<rparr>"

definition sample_wsi_cfg :: his_cfg where
  "sample_wsi_cfg = \<lparr>g_max_read_req = 8, g_max_pre_req = 8, g_his_recycle_len = 10\<rparr>"

lemmas wsi_eval =
  wsi_access_def wsi_read_def wsi_prewrite_def wsi_finish_write_def wsi_buffer_req_def wsi_debuffer_req_def
  wsi_insert_history_def wsi_row_init_def insert_history_def insert_writehis_def insert_readhis_def
  his_insert_def recycle_def version_read_def sample_wsi_cfg_def sample_wsi_txn_def Let_def

theorem wsi_snapshot_read_repeats_witness:
  "\<exists>s_a rows' s_b.
     wsi_access sample_wsi_cfg 0 (sample_wsi_txn 1 10 0 [0] []) R_REQ None (wsi_row_init (1 :: nat)) = Inr (RCOK, s_a, Some 1) \<and>
     wsi_run sample_wsi_cfg
       [WsiAccess 0 (sample_wsi_txn 2 5 20 [] [0]) P_REQ None 0, WsiAccess 0 (sample_wsi_txn 2 5 20 [] [0]) W_REQ (Some 9) 0]
       ((\<lambda>_. wsi_row_init 1)(0 := s_a)) = Inr rows' \<and>
     version_read (rows' 0) 20 = Some 9 \<and>
     wsi_access sample_wsi_cfg 0 (sample_wsi_txn 1 10 0 [0] []) R_REQ None (rows' 0) = Inr (RCOK, s_b, Some 1)"
proof -
  let ?T = "sample_wsi_txn 1 10 0 [0] []" and ?rows = "(\<lambda>_. wsi_row_init 1) :: nat wsi_rows"
  let ?evs = "[WsiAccess 0 (sample_wsi_txn 2 5 20 [] [0]) P_REQ None 0,
     WsiAccess 0 (sample_wsi_txn 2 5 20 [] [0]) W_REQ (Some 9) 0] :: nat wsi_event list"
  obtain s_a where a: "wsi_access sample_wsi_cfg 0 ?T R_REQ None (?rows 0) = Inr (RCOK, s_a, Some 1)"
    and s_a: "s_a = wsi_insert_history 10 None (wsi_row_init 1)"
    by (simp add: wsi_eval)
  obtain rows' where r: "wsi_run sample_wsi_cfg ?evs (?rows(0 := s_a)) = Inr rows'"
    and v: "version_read (rows' 0) 20 = Some 9"
    by (simp add: s_a wsi_eval)
  obtain s_b cur where b: "wsi_access sample_wsi_cfg 0 ?T R_REQ None (rows' 0) = Inr (RCOK, s_b, cur)"
    using r by (auto simp: s_a wsi_eval)
  have "cur = Some 1"
    by (rule wsi_snapshot_read_repeats [OF _ a r _ _ b]) (auto simp: sample_wsi_txn_def)
  with a r v b show ?thesis by auto
qed

text \<open>
  The last commit number of a row is the largest commit number of the finished transactions that
  read it, whether they committed or aborted (and 0 before the first).
\<close>

theorem wsi_last_commit_largest:
  assumes "wsi_run cfg evs (\<lambda>i. wsi_row_init (base i)) = Inr rows'" "\<forall>ev\<in>set evs. wsi_event_ok ev"
  shows "lastCommit (rows' i) =
    Max (insert 0 {wt_commit_ts T | rc T. WsiFinish rc T \<in> set evs \<and> i \<in> rset (wt_txn T)})"
proof -
  have "lastCommit (wsi_row_init (base i)) = 0" by (simp add: wsi_row_init_def)
  with wsi_run_refines [OF assms(1), of i] assms(2) show ?thesis by (simp add: reader_commits_def)
qed

theorem wsi_last_commit_largest_witness:
  "\<exists>rows'. wsi_run sample_wsi_cfg
       [WsiFinish RCOK (sample_wsi_txn 1 5 20 [3] []), WsiFinish Abort (sample_wsi_txn 2 6 30 [3, 4] []),
        WsiFinish RCOK (sample_wsi_txn 3 7 25 [4] [3])] (\<lambda>i. wsi_row_init i) = Inr rows' \<and>
     lastCommit (rows' 3) = 30"
proof -
  let ?evs = "[WsiFinish RCOK (sample_wsi_txn 1 5 20 [3] []), WsiFinish Abort (sample_wsi_txn 2 6 30 [3, 4] []),
        WsiFinish RCOK (sample_wsi_txn 3 7 25 [4] [3])] :: nat wsi_event list"
  obtain rows' where r: "wsi_run sample_wsi_cfg ?evs (\<lambda>i. wsi_row_init i) = Inr rows'"
    by (simp add: wsi_finish_spec sample_wsi_txn_def)
  have "reader_commits 3 ?evs = {20, 30}" by (simp add: sample_wsi_txn_def insert_commute)
  then have "{wt_commit_ts T | rc T. WsiFinish rc T \<in> set ?evs \<and> 3 \<in> rset (wt_txn T)} = {20, 30}"
    by (simp only: reader_commits_def)
  moreover have "\<forall>ev\<in>set ?evs. wsi_event_ok ev" by (simp add: sample_wsi_txn_def)
  ultimately have "lastCommit (rows' 3) = 30"
    using wsi_last_commit_largest [OF r, of 3] by simp
  with r show ?thesis by blast
qed

text \<open>
  Validation accepts what its own loop rejects: for every transaction with a non-empty write set
  that read a row committed after its start, the loop of \<open>central_validate\<close> ends with \<open>Abort\<close> and
  the method returns \<open>RCOK\<close>.
\<close>

theorem wsi_validate_accepts_stale_reads:
  assumes "counts_ok (wt_txn T)" "wset (wt_txn T) \<noteq> {}" "i \<in> rset (wt_txn T)"
    and "lastCommit (rows i) > ot_start_ts (wt_txn T)"
  shows "\<exists>rs ws. get_rw_set (wt_txn T) = Inr (rs, ws) \<and> se_rows ws \<noteq> [] \<and>
    wsi_check_loop rows (ot_start_ts (wt_txn T)) (se_rows rs) None = Some Abort \<and>
    wsi_validate rows T = Inr RCOK"
proof -
  obtain r w where rw: "get_rw_set (wt_txn T) = Inr (r, w)" "set (se_rows r) = rset (wt_txn T)"
    "set (se_rows w) = wset (wt_txn T)"
    by (rule get_rw_set_ok [OF assms(1)]) (rule that)
  have "wsi_check_loop rows u is rc = Some Abort"
    if "(\<exists>j\<in>set is. lastCommit (rows j) > u) \<or> rc = Some Abort" for u "is" rc
    using that by (induction "is" arbitrary: rc) auto
  then have "wsi_check_loop rows (ot_start_ts (wt_txn T)) (se_rows r) None = Some Abort"
    using assms(3,4) rw(2) by blast
  moreover have "se_rows w \<noteq> []" using rw(3) assms(2) by auto
  ultimately show ?thesis using rw(1) by (simp add: wsi_validate_def wsi_central_validate_def)
qed

theorem wsi_validate_accepts_stale_reads_witness:
  "let T = sample_wsi_txn 1 10 0 [3] [4]; rows = (\<lambda>i. (wsi_row_init i)\<lparr>lastCommit := 20\<rparr>)
   in lastCommit (rows 3) > ot_start_ts (wt_txn T) \<and> wsi_validate rows T = Inr RCOK"
proof -
  let ?T = "sample_wsi_txn 1 10 0 [3] [4]" and ?rows = "\<lambda>i::nat. (wsi_row_init i)\<lparr>lastCommit := 20\<rparr>"
  have "wsi_validate ?rows ?T = Inr RCOK"
    using wsi_validate_accepts_stale_reads [of ?T 3 ?rows] by (auto simp: sample_wsi_txn_def)
  then show ?thesis unfolding Let_def by (simp add: sample_wsi_txn_def)
qed

end
