(* ===== verification/RowTs.thy ===== *)
theory RowTs
imports RowMvcc
begin

text \<open>
  Basic timestamp ordering: \<open>Row_ts\<close> (\<open>row_ts.cpp\<close>, the branch of \<open>access\<close> that is compiled).
  \<open>twr\<close> is the switch \<open>TS_TWR\<close> of \<open>config.h\<close> (Thomas write rule). A transaction is the record of
  \<open>RowMvcc\<close>; its \<open>cur_row\<close> is the private copy that a read fills, \<open>None\<close> the null pointer.
\<close>

section \<open>Data\<close>

record 'r TsReqEntry =
  tq_txn :: "64 word"
  tq_row :: "'r option"
  tq_ts :: ts_t

record 'r Row_ts =
  ts_row :: 'r
  wts :: ts_t
  rts :: ts_t
  min_wts :: ts_t
  min_rts :: ts_t
  ts_min_pts :: ts_t
  readreq :: "'r TsReqEntry list"
  writereq :: "'r TsReqEntry list"
  prereq :: "'r TsReqEntry list"
  ts_preq_len :: "64 word"

definition ts_init :: "'r \<Rightarrow> 'r Row_ts" where
  "ts_init row = \<lparr>ts_row = row, wts = 0, rts = 0, min_wts = UINT64_MAX, min_rts = UINT64_MAX,
     ts_min_pts = UINT64_MAX, readreq = [], writereq = [], prereq = [], ts_preq_len = 0\<rparr>"

section \<open>Request queues\<close>

fun ts_buffer_req :: "TsType \<Rightarrow> 64 word \<Rightarrow> 'r mv_txns \<Rightarrow> 'r option \<Rightarrow> 'r Row_ts \<Rightarrow> 'r Row_ts result" where
  "ts_buffer_req R_REQ t H row r =
    (let q = \<lparr>tq_txn = t, tq_row = row, tq_ts = mt_timestamp (H t)\<rparr> in
     Inr (r\<lparr>readreq := q # readreq r, min_rts := if tq_ts q < min_rts r then tq_ts q else min_rts r\<rparr>))"
| "ts_buffer_req W_REQ t H row r =
    (let q = \<lparr>tq_txn = t, tq_row = row, tq_ts = mt_timestamp (H t)\<rparr> in
     if row = None then Inl Assert_failed
     else Inr (r\<lparr>writereq := q # writereq r, min_wts := if tq_ts q < min_wts r then tq_ts q else min_wts r\<rparr>))"
| "ts_buffer_req P_REQ t H row r =
    (let q = \<lparr>tq_txn = t, tq_row = row, tq_ts = mt_timestamp (H t)\<rparr> in
     Inr (r\<lparr>ts_preq_len := ts_preq_len r + 1, prereq := q # prereq r,
            ts_min_pts := if tq_ts q < ts_min_pts r then tq_ts q else ts_min_pts r\<rparr>))"
| "ts_buffer_req XP_REQ t H row r = Inr r"

text \<open>\<open>debuffer_req(P_REQ, txn)\<close>: unlink the first request of the transaction.\<close>

definition ts_debuffer_txn :: "64 word \<Rightarrow> 'r Row_ts \<Rightarrow> 'r Row_ts result" where
  "ts_debuffer_txn t r =
    (case extract_first (\<lambda>q. tq_txn q = t) (prereq r) of
       None \<Rightarrow> Inl Assert_failed
     | Some (_, qs) \<Rightarrow> Inr (r\<lparr>prereq := qs, ts_preq_len := ts_preq_len r - 1\<rparr>))"

text \<open>\<open>debuffer_req(type, ts)\<close>: unlink all requests up to \<open>ts\<close>; the result is in reverse order.\<close>

fun ts_debuffer_loop ::
  "ts_t \<Rightarrow> 'r TsReqEntry list \<Rightarrow> 'r TsReqEntry list \<Rightarrow> 'r TsReqEntry list \<times> 'r TsReqEntry list" where
  "ts_debuffer_loop ts [] ret = ([], ret)"
| "ts_debuffer_loop ts (q # qs) ret =
    (if tq_ts q \<le> ts then ts_debuffer_loop ts qs (q # ret)
     else (let (rest, ret') = ts_debuffer_loop ts qs ret in (q # rest, ret')))"

definition ts_debuffer_reads :: "ts_t \<Rightarrow> 'r Row_ts \<Rightarrow> 'r TsReqEntry list \<times> 'r Row_ts" where
  "ts_debuffer_reads ts r = (let (rest, ready) = ts_debuffer_loop ts (readreq r) [] in (ready, r\<lparr>readreq := rest\<rparr>))"

definition ts_debuffer_writes :: "ts_t \<Rightarrow> 'r Row_ts \<Rightarrow> 'r TsReqEntry list \<times> 'r Row_ts" where
  "ts_debuffer_writes ts r = (let (rest, ready) = ts_debuffer_loop ts (writereq r) [] in (ready, r\<lparr>writereq := rest\<rparr>))"

fun cal_min_loop :: "'r TsReqEntry list \<Rightarrow> ts_t \<Rightarrow> ts_t" where
  "cal_min_loop [] m = m"
| "cal_min_loop (q # qs) m = cal_min_loop qs (if tq_ts q < m then tq_ts q else m)"

definition cal_min :: "'r TsReqEntry list \<Rightarrow> ts_t" where
  "cal_min queue = cal_min_loop queue UINT64_MAX"

section \<open>Serving the queues\<close>

text \<open>The reads that have become possible; the last component lists the restarted transactions.\<close>

fun ts_serve_reads ::
  "'r TsReqEntry list \<Rightarrow> 'r Row_ts \<Rightarrow> 'r mv_txns \<Rightarrow> 64 word list \<Rightarrow>
   ('r Row_ts \<times> 'r mv_txns \<times> 64 word list) result" where
  "ts_serve_reads [] r H rs = Inr (r, H, rs)"
| "ts_serve_reads (q # qs) r H rs =
    (if mt_cur_row (H (tq_txn q)) = None then Inl Null_deref
     else ts_serve_reads qs (r\<lparr>rts := if rts r < tq_ts q then tq_ts q else rts r\<rparr>)
            (H(tq_txn q := (H (tq_txn q))\<lparr>mt_cur_row := Some (ts_row r), mt_ts_ready := True\<rparr>))
            (rs @ [tq_txn q]))"

text \<open>The writes that have become possible: all prewrites go, the smallest timestamp is chosen.\<close>

fun ts_drop_prewrites ::
  "'r TsReqEntry list \<Rightarrow> 'r Row_ts \<Rightarrow> ts_t \<Rightarrow> 'r TsReqEntry option \<Rightarrow> ('r Row_ts \<times> 'r TsReqEntry option) result" where
  "ts_drop_prewrites [] r young_ts young_req = Inr (r, young_req)"
| "ts_drop_prewrites (q # qs) r young_ts young_req =
    bind_result (ts_debuffer_txn (tq_txn q) r) (\<lambda>r'.
      if tq_ts q < young_ts then ts_drop_prewrites qs r' (tq_ts q) (Some q)
      else ts_drop_prewrites qs r' young_ts young_req)"

definition ts_perform_writes :: "'r TsReqEntry list \<Rightarrow> 'r Row_ts \<Rightarrow> 'r Row_ts result" where
  "ts_perform_writes ready r =
    bind_result (ts_drop_prewrites ready r UINT64_MAX None) (\<lambda>(r', young_req).
      case young_req of
        None \<Rightarrow> Inl Null_deref
      | Some q \<Rightarrow>
          (case tq_row q of
             None \<Rightarrow> Inl Null_deref
           | Some row \<Rightarrow> Inr (r'\<lparr>ts_row := row, wts := if wts r' < tq_ts q then tq_ts q else wts r'\<rparr>)))"

text \<open>
  One turn of the loop of \<open>update_buffer\<close>, the writes after the reads; the flag says whether there
  is another turn.
\<close>

definition ts_turn_writes :: "'r Row_ts \<Rightarrow> (bool \<times> 'r Row_ts) result" where
  "ts_turn_writes r =
    (let new_min_rts = cal_min (readreq r) in
     if \<not> new_min_rts > min_rts r then Inr (False, r)
     else
       (let (ready_write, r') = ts_debuffer_writes new_min_rts (r\<lparr>min_rts := new_min_rts\<rparr>) in
        if ready_write = [] then Inr (False, r')
        else bind_result (ts_perform_writes ready_write r') (\<lambda>r''. Inr (True, r''))))"

definition ts_update_turn ::
  "'r Row_ts \<Rightarrow> 'r mv_txns \<Rightarrow> 64 word list \<Rightarrow> (bool \<times> 'r Row_ts \<times> 'r mv_txns \<times> 64 word list) result" where
  "ts_update_turn r H rs =
    (let new_min_pts = cal_min (prereq r) in
     bind_result (assert_that (new_min_pts \<ge> ts_min_pts r)) (\<lambda>_.
     if \<not> new_min_pts > ts_min_pts r then Inr (False, r, H, rs)
     else
       (let (ready_read, r') = ts_debuffer_reads new_min_pts (r\<lparr>ts_min_pts := new_min_pts\<rparr>) in
        if ready_read = [] then Inr (False, r', H, rs)
        else
          bind_result (ts_serve_reads ready_read r' H rs) (\<lambda>(r3, H', rs').
          bind_result (ts_turn_writes r3) (\<lambda>(again, r4). Inr (again, r4, H', rs'))))))"

lemma ts_debuffer_loop_conv:
  "ts_debuffer_loop ts qs ret = (filter (\<lambda>q. \<not> tq_ts q \<le> ts) qs, rev (filter (\<lambda>q. tq_ts q \<le> ts) qs) @ ret)"
  by (induction qs arbitrary: ret) simp_all

lemma ts_serve_reads_row:
  "ts_serve_reads qs r H rs = Inr (r', H', rs') \<Longrightarrow> \<exists>v. r' = r\<lparr>rts := v\<rparr>"
proof (induction qs arbitrary: r H rs)
  case Nil
  then have "r' = r\<lparr>rts := rts r\<rparr>" by simp
  then show ?case by blast
next
  case (Cons q qs)
  then obtain v where "r' = r\<lparr>rts := v, rts := v\<rparr>" by (fastforce split: if_splits)
  then show ?case by auto
qed

lemma ts_debuffer_txn_row: "ts_debuffer_txn t r = Inr r' \<Longrightarrow> \<exists>qs n. r' = r\<lparr>prereq := qs, ts_preq_len := n\<rparr>"
  by (auto simp: ts_debuffer_txn_def split: option.splits)

lemma ts_drop_prewrites_row:
  "ts_drop_prewrites qs r y yr = Inr (r', yr') \<Longrightarrow> \<exists>ps n. r' = r\<lparr>prereq := ps, ts_preq_len := n\<rparr>"
proof (induction qs arbitrary: r y yr)
  case Nil
  then have "r' = r\<lparr>prereq := prereq r, ts_preq_len := ts_preq_len r\<rparr>" by simp
  then show ?case by blast
next
  case (Cons q qs)
  then obtain r1 ps n where "ts_debuffer_txn (tq_txn q) r = Inr r1" "r' = r1\<lparr>prereq := ps, ts_preq_len := n\<rparr>"
    by (fastforce simp: bind_result_Inr_iff split: if_splits)
  then have "r' = r\<lparr>prereq := ps, ts_preq_len := n\<rparr>" by (auto dest: ts_debuffer_txn_row)
  then show ?case by blast
qed

lemma ts_perform_writesE:
  assumes "ts_perform_writes ready r = Inr r'"
  obtains r1 q row where "ts_drop_prewrites ready r UINT64_MAX None = Inr (r1, Some q)" "tq_row q = Some row"
    "r' = r1\<lparr>ts_row := row, wts := if wts r1 < tq_ts q then tq_ts q else wts r1\<rparr>"
proof -
  from assms obtain r1 yr where d: "ts_drop_prewrites ready r UINT64_MAX None = Inr (r1, yr)"
    by (auto simp: ts_perform_writes_def bind_result_Inr_iff)
  with assms obtain q where q: "yr = Some q" by (cases yr) (simp_all add: ts_perform_writes_def)
  with assms d obtain row where "tq_row q = Some row" by (cases "tq_row q") (simp_all add: ts_perform_writes_def)
  with that d q assms show thesis by (simp add: ts_perform_writes_def)
qed

lemma ts_perform_writes_row:
  assumes "ts_perform_writes ready r = Inr r'"
  shows "readreq r' = readreq r"
  using assms by (elim ts_perform_writesE) (auto dest: ts_drop_prewrites_row)

text \<open>Every further turn has served at least one read.\<close>

lemma ts_turn_writes_reads: "ts_turn_writes r = Inr (again, r') \<Longrightarrow> readreq r' = readreq r"
  by (auto simp: ts_turn_writes_def Let_def ts_debuffer_writes_def ts_debuffer_loop_conv bind_result_Inr_iff
      split: if_splits dest: ts_perform_writes_row)

lemma ts_update_turn_progress:
  assumes "ts_update_turn r H rs = Inr (True, r', H', rs')"
  shows "length (readreq r') < length (readreq r)"
proof -
  let ?m = "cal_min (prereq r)"
  let ?ready = "rev (filter (\<lambda>q. tq_ts q \<le> ?m) (readreq r))"
  from assms obtain r3 where ne: "?ready \<noteq> []"
    and s: "ts_serve_reads ?ready (r\<lparr>ts_min_pts := ?m, readreq := filter (\<lambda>q. \<not> tq_ts q \<le> ?m) (readreq r)\<rparr>) H rs = Inr (r3, H', rs')"
    and w: "ts_turn_writes r3 = Inr (True, r')"
    by (auto simp: ts_update_turn_def Let_def bind_result_Inr_iff ts_debuffer_reads_def ts_debuffer_loop_conv
        split: if_splits)
  have "readreq r' = filter (\<lambda>q. \<not> tq_ts q \<le> ?m) (readreq r)"
    using ts_serve_reads_row [OF s] ts_turn_writes_reads [OF w] by auto
  moreover have "filter (\<lambda>q. tq_ts q \<le> ?m) (readreq r) \<noteq> []" using ne by simp
  then have "length (filter (\<lambda>q. \<not> tq_ts q \<le> ?m) (readreq r)) < length (readreq r)"
    using sum_length_filter_compl [of "\<lambda>q. tq_ts q \<le> ?m" "readreq r"] by (cases "filter (\<lambda>q. tq_ts q \<le> ?m) (readreq r)") simp_all
  ultimately show ?thesis by simp
qed

function ts_update_buffer ::
  "'r Row_ts \<Rightarrow> 'r mv_txns \<Rightarrow> 64 word list \<Rightarrow> ('r Row_ts \<times> 'r mv_txns \<times> 64 word list) result" where
  "ts_update_buffer r H rs =
    (case ts_update_turn r H rs of
       Inl e \<Rightarrow> Inl e
     | Inr (again, r', H', rs') \<Rightarrow> if again then ts_update_buffer r' H' rs' else Inr (r', H', rs'))"
  by pat_completeness auto
termination
  by (relation "measure (\<lambda>(r, _, _). length (readreq r))") (auto dest: ts_update_turn_progress)

declare ts_update_buffer.simps [simp del]

section \<open>The access method\<close>

definition ts_read ::
  "64 word \<Rightarrow> 'r Row_ts \<Rightarrow> 'r mv_txns \<Rightarrow> (RC \<times> 'r Row_ts \<times> 'r mv_txns \<times> 64 word list) result" where
  "ts_read t r H =
    (let ts = mt_timestamp (H t) in
     if ts < wts r then Inr (Abort, r, H, [])
     else if ts > ts_min_pts r then
       bind_result (ts_buffer_req R_REQ t H None r) (\<lambda>r'. Inr (WAIT, r', H(t := (H t)\<lparr>mt_ts_ready := False\<rparr>), []))
     else if mt_cur_row (H t) = None then Inl Null_deref
     else Inr (RCOK, r\<lparr>rts := if rts r < ts then ts else rts r\<rparr>, H(t := (H t)\<lparr>mt_cur_row := Some (ts_row r)\<rparr>), []))"

definition ts_prewrite ::
  "bool \<Rightarrow> 64 word \<Rightarrow> 'r Row_ts \<Rightarrow> 'r mv_txns \<Rightarrow> (RC \<times> 'r Row_ts \<times> 'r mv_txns \<times> 64 word list) result" where
  "ts_prewrite twr t r H =
    (let ts = mt_timestamp (H t) in
     if ts < rts r then Inr (Abort, r, H, [])
     else if \<not> twr \<and> ts < wts r then Inr (Abort, r, H, [])
     else bind_result (ts_buffer_req P_REQ t H None r) (\<lambda>r'. Inr (RCOK, r', H, [])))"

text \<open>The end of a prewrite: the request goes and the queues are served.\<close>

definition ts_finish ::
  "64 word \<Rightarrow> 'r Row_ts \<Rightarrow> 'r mv_txns \<Rightarrow> (RC \<times> 'r Row_ts \<times> 'r mv_txns \<times> 64 word list) result" where
  "ts_finish t r H =
    bind_result (ts_debuffer_txn t r) (\<lambda>r1.
    bind_result (ts_update_buffer r1 H []) (\<lambda>(r2, H2, rs). Inr (RCOK, r2, H2, rs)))"

definition ts_write ::
  "bool \<Rightarrow> 64 word \<Rightarrow> 'r option \<Rightarrow> 'r Row_ts \<Rightarrow> 'r mv_txns \<Rightarrow> (RC \<times> 'r Row_ts \<times> 'r mv_txns \<times> 64 word list) result" where
  "ts_write twr t row r H =
    (let ts = mt_timestamp (H t) in
     if twr \<and> ts < wts r then (if row = None then Inl Null_deref else ts_finish t r H)
     else if \<not> twr \<and> ts > ts_min_pts r then
       bind_result (ts_buffer_req W_REQ t H row r) (\<lambda>r'. Inr (RCOK, r', H, []))
     else if ts > min_rts r then
       bind_result (ts_buffer_req W_REQ t H (mt_cur_row (H t)) r) (\<lambda>r'. Inr (RCOK, r', H, []))
     else
       (case row of
          None \<Rightarrow> Inl Null_deref
        | Some x \<Rightarrow> ts_finish t (r\<lparr>ts_row := x, wts := if wts r < ts then ts else wts r\<rparr>) H))"

definition ts_access ::
  "bool \<Rightarrow> 64 word \<Rightarrow> TsType \<Rightarrow> 'r option \<Rightarrow> 'r Row_ts \<Rightarrow> 'r mv_txns \<Rightarrow>
   (RC \<times> 'r Row_ts \<times> 'r mv_txns \<times> 64 word list) result" where
  "ts_access twr t type row r H =
    (case type of
       R_REQ \<Rightarrow> ts_read t r H
     | P_REQ \<Rightarrow> ts_prewrite twr t r H
     | W_REQ \<Rightarrow> ts_write twr t row r H
     | XP_REQ \<Rightarrow> ts_finish t r H)"

section \<open>Invariant\<close>

lemma cal_min_loop_spec:
  "cal_min_loop qs m \<le> m \<and> (\<forall>q\<in>set qs. cal_min_loop qs m \<le> tq_ts q) \<and>
   (cal_min_loop qs m = m \<or> (\<exists>q\<in>set qs. tq_ts q = cal_min_loop qs m))"
proof (induction qs arbitrary: m)
  case (Cons q qs)
  let ?m = "if tq_ts q < m then tq_ts q else m"
  have "?m \<le> m" "?m \<le> tq_ts q" by (auto simp: not_less)
  moreover have "?m = m \<or> ?m = tq_ts q" by simp
  moreover note Cons.IH [of ?m]
  ultimately show ?case by (auto intro: order_trans)
qed simp

lemma cal_min_le: "q \<in> set qs \<Longrightarrow> cal_min qs \<le> tq_ts q"
  using cal_min_loop_spec [of qs UINT64_MAX] by (simp add: cal_min_def)

lemma cal_min_attained: "cal_min qs = UINT64_MAX \<or> (\<exists>q\<in>set qs. tq_ts q = cal_min qs)"
  using cal_min_loop_spec [of qs UINT64_MAX] by (simp add: cal_min_def)

lemma cal_min_anti: "set qs \<subseteq> set ps \<Longrightarrow> cal_min ps \<le> cal_min qs"
  using cal_min_attained [of qs] cal_min_le [of _ ps] by (metis in_mono word_order.extremum)

lemma cal_min_eqI:
  assumes "\<And>q. q \<in> set qs \<Longrightarrow> m \<le> tq_ts q" "m = UINT64_MAX \<or> (\<exists>q\<in>set qs. tq_ts q = m)"
  shows "cal_min qs = m"
proof (rule order_antisym)
  show "cal_min qs \<le> m" using assms(2) cal_min_le [of _ qs] by (elim disjE bexE) (simp_all, blast)
  show "m \<le> cal_min qs" using assms(1) cal_min_attained [of qs] by (elim disjE bexE) (simp_all, metis)
qed

lemma cal_min_Cons: "cal_min (q # qs) = (if tq_ts q < cal_min qs then tq_ts q else cal_min qs)"
proof (rule cal_min_eqI)
  let ?m = "if tq_ts q < cal_min qs then tq_ts q else cal_min qs"
  have le: "?m \<le> tq_ts q" "?m \<le> cal_min qs" by (auto simp: not_less)
  show "?m \<le> tq_ts p" if "p \<in> set (q # qs)" for p
    using that le cal_min_le [of p qs] by (auto simp only: set_simps insert_iff intro: order_trans)
  show "?m = UINT64_MAX \<or> (\<exists>p\<in>set (q # qs). tq_ts p = ?m)"
    using cal_min_attained [of qs] by auto
qed

lemma cal_min_Nil [simp]: "cal_min [] = UINT64_MAX"
  by (simp add: cal_min_def)

text \<open>The queues refer to transactions that can be served.\<close>

definition ts_queues_ok :: "'r mv_txns \<Rightarrow> 'r Row_ts \<Rightarrow> bool" where
  "ts_queues_ok H r \<longleftrightarrow>
     (\<forall>q\<in>set (readreq r). mt_cur_row (H (tq_txn q)) \<noteq> None) \<and>
     distinct (map tq_txn (writereq r)) \<and> distinct (map tq_txn (prereq r)) \<and>
     tq_txn ` set (writereq r) \<subseteq> tq_txn ` set (prereq r) \<and>
     (\<forall>q\<in>set (writereq r). tq_row q \<noteq> None \<and> tq_ts q < UINT64_MAX)"

text \<open>Reads are behind the last write, prewrites behind the last read.\<close>

definition ts_order :: "'r Row_ts \<Rightarrow> bool" where
  "ts_order r \<longleftrightarrow> min_rts r = cal_min (readreq r) \<and>
     (\<forall>q\<in>set (readreq r). wts r \<le> tq_ts q) \<and> (\<forall>p\<in>set (prereq r). rts r \<le> tq_ts p)"

definition ts_reads_above :: "'r Row_ts \<Rightarrow> bool" where
  "ts_reads_above r \<longleftrightarrow> (\<forall>q\<in>set (readreq r). ts_min_pts r < tq_ts q)"

definition ts_inv :: "'r mv_txns \<Rightarrow> 'r Row_ts \<Rightarrow> bool" where
  "ts_inv H r \<longleftrightarrow> ts_queues_ok H r \<and> ts_order r \<and> ts_reads_above r \<and> ts_min_pts r = cal_min (prereq r)"

text \<open>The state in which \<open>update_buffer\<close> is entered: \<open>min_pts\<close> may be too small.\<close>

definition ts_pre :: "'r mv_txns \<Rightarrow> 'r Row_ts \<Rightarrow> bool" where
  "ts_pre H r \<longleftrightarrow> ts_queues_ok H r \<and> ts_order r \<and> ts_reads_above r \<and> ts_min_pts r \<le> cal_min (prereq r)"

text \<open>What calls do to other transactions.\<close>

definition txns_le :: "'r mv_txns \<Rightarrow> 'r mv_txns \<Rightarrow> bool" where
  "txns_le H H' \<longleftrightarrow> (\<forall>t. mt_timestamp (H' t) = mt_timestamp (H t) \<and>
     (mt_cur_row (H t) \<noteq> None \<longrightarrow> mt_cur_row (H' t) \<noteq> None))"

lemma txns_le_refl [simp]: "txns_le H H"
  by (simp add: txns_le_def)

lemma txns_le_trans: "txns_le H H' \<Longrightarrow> txns_le H' H'' \<Longrightarrow> txns_le H H''"
  by (simp add: txns_le_def)

lemma txns_le_upd:
  "mt_timestamp T = mt_timestamp (H t) \<Longrightarrow> (mt_cur_row (H t) \<noteq> None \<longrightarrow> mt_cur_row T \<noteq> None) \<Longrightarrow> txns_le H (H(t := T))"
  by (simp add: txns_le_def)

lemma ts_serve_reads_ok:
  assumes "\<forall>q\<in>set qs. mt_cur_row (H (tq_txn q)) \<noteq> None"
  shows "\<exists>v H' rs'. ts_serve_reads qs r H rs = Inr (r\<lparr>rts := v\<rparr>, H', rs') \<and> txns_le H H' \<and>
    (\<forall>b. rts r \<le> b \<and> (\<forall>q\<in>set qs. tq_ts q \<le> b) \<longrightarrow> v \<le> b)"
  using assms
proof (induction qs arbitrary: r H rs)
  case Nil
  have "ts_serve_reads [] r H rs = Inr (r\<lparr>rts := rts r\<rparr>, H, rs)" by simp
  then show ?case by (intro exI [of _ "rts r"] exI [of _ H] exI [of _ rs]) simp
next
  case (Cons q qs)
  define x where "x = (if rts r < tq_ts q then tq_ts q else rts r)"
  define H1 where "H1 = H(tq_txn q := (H (tq_txn q))\<lparr>mt_cur_row := Some (ts_row r), mt_ts_ready := True\<rparr>)"
  have le: "txns_le H H1" by (auto simp: H1_def intro: txns_le_upd)
  have "\<forall>q\<in>set qs. mt_cur_row (H1 (tq_txn q)) \<noteq> None" using Cons.prems by (simp add: H1_def)
  from Cons.IH [OF this, of "r\<lparr>rts := x\<rparr>" "rs @ [tq_txn q]"] obtain v H' rs' where
    v: "ts_serve_reads qs (r\<lparr>rts := x\<rparr>) H1 (rs @ [tq_txn q]) = Inr (r\<lparr>rts := x, rts := v\<rparr>, H', rs')" "txns_le H1 H'"
      "\<forall>b. x \<le> b \<and> (\<forall>q\<in>set qs. tq_ts q \<le> b) \<longrightarrow> v \<le> b"
    by auto
  have "ts_serve_reads (q # qs) r H rs = Inr (r\<lparr>rts := v\<rparr>, H', rs')"
    using v(1) Cons.prems by (simp add: x_def [symmetric] H1_def [symmetric])
  moreover have "x \<le> b" if "rts r \<le> b" "tq_ts q \<le> b" for b using that by (simp add: x_def)
  ultimately show ?case using v(2,3) txns_le_trans [OF le] by (metis list.set_intros)
qed

lemma ts_debuffer_txn_ok:
  assumes "t \<in> tq_txn ` set (prereq r)" "distinct (map tq_txn (prereq r))"
  obtains ps n where "ts_debuffer_txn t r = Inr (r\<lparr>prereq := ps, ts_preq_len := n\<rparr>)"
    "set ps = {p \<in> set (prereq r). tq_txn p \<noteq> t}" "distinct (map tq_txn ps)"
proof -
  have "extract_first (\<lambda>q. tq_txn q = t) (prereq r) \<noteq> None"
    using assms(1) by (auto simp: extract_first_None_iff)
  then obtain q ps where e: "extract_first (\<lambda>q. tq_txn q = t) (prereq r) = Some (q, ps)" by auto
  then obtain us vs where uv: "prereq r = us @ q # vs" "ps = us @ vs" "tq_txn q = t"
    by (rule extract_first_SomeE)
  have "set ps = {p \<in> set (prereq r). tq_txn p \<noteq> t}" "distinct (map tq_txn ps)"
    using assms(2) uv by (auto simp: rev_image_eqI)
  with that e show thesis by (simp add: ts_debuffer_txn_def)
qed

lemma ts_drop_prewrites_ok:
  assumes "distinct (map tq_txn (prereq r))" "distinct (map tq_txn qs)" "tq_txn ` set qs \<subseteq> tq_txn ` set (prereq r)"
  shows "\<exists>ps n yr'. ts_drop_prewrites qs r y yr = Inr (r\<lparr>prereq := ps, ts_preq_len := n\<rparr>, yr') \<and>
    set ps = {p \<in> set (prereq r). tq_txn p \<notin> tq_txn ` set qs} \<and> distinct (map tq_txn ps) \<and>
    (yr' = yr \<or> (\<exists>q\<in>set qs. yr' = Some q)) \<and> (yr \<noteq> None \<or> (\<exists>q\<in>set qs. tq_ts q < y) \<longrightarrow> yr' \<noteq> None)"
  using assms
proof (induction qs arbitrary: r y yr)
  case Nil
  have "ts_drop_prewrites [] r y yr = Inr (r\<lparr>prereq := prereq r, ts_preq_len := ts_preq_len r\<rparr>, yr)" by simp
  with Nil show ?case by (intro exI [of _ "prereq r"] exI [of _ "ts_preq_len r"] exI [of _ yr]) simp
next
  case (Cons q qs)
  have q: "tq_txn q \<in> tq_txn ` set (prereq r)" using Cons.prems(3) by simp
  obtain ps n where d: "ts_debuffer_txn (tq_txn q) r = Inr (r\<lparr>prereq := ps, ts_preq_len := n\<rparr>)"
    "set ps = {p \<in> set (prereq r). tq_txn p \<noteq> tq_txn q}" "distinct (map tq_txn ps)"
    by (rule ts_debuffer_txn_ok [OF q Cons.prems(1)])
  let ?r1 = "r\<lparr>prereq := ps, ts_preq_len := n\<rparr>"
  define y1 where "y1 = (if tq_ts q < y then tq_ts q else y)"
  define yr1 where "yr1 = (if tq_ts q < y then Some q else yr)"
  have "tq_txn ` set ps = tq_txn ` set (prereq r) - {tq_txn q}" unfolding d(2) by auto
  moreover have "tq_txn ` set qs \<subseteq> tq_txn ` set (prereq r) - {tq_txn q}"
    using Cons.prems(2,3) by (simp add: subset_Diff_insert)
  ultimately have pre: "distinct (map tq_txn (prereq ?r1))" "distinct (map tq_txn qs)"
    "tq_txn ` set qs \<subseteq> tq_txn ` set (prereq ?r1)"
    using Cons.prems(2) d(3) by simp_all
  from Cons.IH [OF pre, of y1 yr1] obtain ps' n' yr' where
    i: "ts_drop_prewrites qs ?r1 y1 yr1 = Inr (?r1\<lparr>prereq := ps', ts_preq_len := n'\<rparr>, yr')"
      "set ps' = {p \<in> set (prereq ?r1). tq_txn p \<notin> tq_txn ` set qs}" "distinct (map tq_txn ps')"
      "yr' = yr1 \<or> (\<exists>q\<in>set qs. yr' = Some q)" "yr1 \<noteq> None \<or> (\<exists>q\<in>set qs. tq_ts q < y1) \<longrightarrow> yr' \<noteq> None"
    by blast
  have run: "ts_drop_prewrites (q # qs) r y yr = Inr (r\<lparr>prereq := ps', ts_preq_len := n'\<rparr>, yr')"
    using i(1) d(1) by (simp add: y1_def yr1_def split: if_splits)
  have sets: "set ps' = {p \<in> set (prereq r). tq_txn p \<notin> tq_txn ` set (q # qs)}"
    using i(2) by (auto simp: d(2))
  have "yr' = yr \<or> (\<exists>p\<in>set (q # qs). yr' = Some p)" using i(4) by (auto simp: yr1_def split: if_splits)
  moreover have "yr' \<noteq> None" if "yr \<noteq> None \<or> (\<exists>p\<in>set (q # qs). tq_ts p < y)"
    using that i(5) by (auto simp: yr1_def y1_def split: if_splits)
  ultimately show ?case using run sets i(3) by blast
qed

lemma ts_perform_writes_ok:
  assumes "distinct (map tq_txn (prereq r))" "distinct (map tq_txn qs)" "tq_txn ` set qs \<subseteq> tq_txn ` set (prereq r)"
    and "qs \<noteq> []" "\<forall>q\<in>set qs. tq_row q \<noteq> None \<and> tq_ts q < UINT64_MAX"
  obtains q row ps n where "q \<in> set qs" "tq_row q = Some row"
    "ts_perform_writes qs r = Inr (r\<lparr>prereq := ps, ts_preq_len := n, ts_row := row,
       wts := if wts r < tq_ts q then tq_ts q else wts r\<rparr>)"
    "set ps = {p \<in> set (prereq r). tq_txn p \<notin> tq_txn ` set qs}" "distinct (map tq_txn ps)"
proof -
  obtain ps n yr where d: "ts_drop_prewrites qs r UINT64_MAX None = Inr (r\<lparr>prereq := ps, ts_preq_len := n\<rparr>, yr)"
    "set ps = {p \<in> set (prereq r). tq_txn p \<notin> tq_txn ` set qs}" "distinct (map tq_txn ps)"
    "yr = None \<or> (\<exists>q\<in>set qs. yr = Some q)" "(\<exists>q\<in>set qs. tq_ts q < UINT64_MAX) \<longrightarrow> yr \<noteq> None"
    using ts_drop_prewrites_ok [OF assms(1-3), of UINT64_MAX None] by blast
  have "\<exists>q\<in>set qs. tq_ts q < UINT64_MAX" using assms(4,5) by (cases qs) auto
  with d(4,5) obtain q where q: "q \<in> set qs" "yr = Some q" by blast
  with assms(5) obtain row where row: "tq_row q = Some row" by blast
  have "ts_perform_writes qs r = Inr (r\<lparr>prereq := ps, ts_preq_len := n, ts_row := row,
       wts := if wts r < tq_ts q then tq_ts q else wts r\<rparr>)"
    using d(1) q(2) row by (simp add: ts_perform_writes_def)
  with that q(1) row d(2,3) show thesis by blast
qed

lemma ts_queues_ok_le:
  assumes "ts_queues_ok H r" "txns_le H H'" "set (readreq r') \<subseteq> set (readreq r)"
    and "writereq r' = writereq r" "prereq r' = prereq r"
  shows "ts_queues_ok H' r'"
  using assms unfolding ts_queues_ok_def txns_le_def by (simp add: subset_iff)

lemma ts_turn_writes_ok:
  assumes qok: "ts_queues_ok H r" and reads: "\<forall>q\<in>set (readreq r). wts r \<le> tq_ts q" "ts_reads_above r"
    and pres: "\<forall>p\<in>set (prereq r). rts r \<le> tq_ts p" "ts_min_pts r = cal_min (prereq r)"
    and le: "min_rts r \<le> cal_min (readreq r)"
  shows "\<exists>again r'. ts_turn_writes r = Inr (again, r') \<and> (if again then ts_pre H r' else ts_inv H r')"
proof -
  define k where "k = cal_min (readreq r)"
  define ready where "ready = rev (filter (\<lambda>q. tq_ts q \<le> k) (writereq r))"
  define r1 where "r1 = r\<lparr>min_rts := k, writereq := filter (\<lambda>q. \<not> tq_ts q \<le> k) (writereq r)\<rparr>"
  have turn: "ts_turn_writes r = (if \<not> k > min_rts r then Inr (False, r) else if ready = [] then Inr (False, r1)
     else bind_result (ts_perform_writes ready r1) (\<lambda>r''. Inr (True, r'')))"
    by (simp add: ts_turn_writes_def Let_def ts_debuffer_writes_def ts_debuffer_loop_conv k_def ready_def r1_def)
  consider (same) "\<not> k > min_rts r" | (none) "k > min_rts r" "ready = []" | (perform) "k > min_rts r" "ready \<noteq> []"
    by blast
  then show ?thesis
  proof cases
    case same
    then have "min_rts r = k" using le by (simp add: order_antisym k_def)
    then have "ts_inv H r" using qok reads pres by (simp add: ts_inv_def ts_order_def k_def)
    with same show ?thesis unfolding turn by (intro exI [of _ False]) simp
  next
    case none
    then have "filter (\<lambda>q. \<not> tq_ts q \<le> k) (writereq r) = writereq r"
      by (auto simp: ready_def filter_empty_conv intro: filter_True)
    then have "ts_inv H r1"
      using qok reads pres by (simp add: r1_def ts_inv_def ts_queues_ok_def ts_order_def ts_reads_above_def k_def)
    with none show ?thesis unfolding turn by (intro exI [of _ False]) simp
  next
    case perform
    have d: "distinct (map tq_txn (prereq r1))" "distinct (map tq_txn ready)"
      "tq_txn ` set ready \<subseteq> tq_txn ` set (prereq r1)" "\<forall>q\<in>set ready. tq_row q \<noteq> None \<and> tq_ts q < UINT64_MAX"
      using qok by (auto simp: ts_queues_ok_def r1_def ready_def rev_map [symmetric] distinct_map_filter)
    obtain q row ps n where q: "q \<in> set ready" and run: "ts_perform_writes ready r1 = Inr (r1\<lparr>prereq := ps, ts_preq_len := n,
        ts_row := row, wts := if wts r1 < tq_ts q then tq_ts q else wts r1\<rparr>)"
      and ps: "set ps = {p \<in> set (prereq r1). tq_txn p \<notin> tq_txn ` set ready}" "distinct (map tq_txn ps)"
      by (rule ts_perform_writes_ok [OF d(1-3) perform(2) d(4)])
    let ?r2 = "r1\<lparr>prereq := ps, ts_preq_len := n, ts_row := row, wts := if wts r1 < tq_ts q then tq_ts q else wts r1\<rparr>"
    have sub: "set ps \<subseteq> set (prereq r)" using ps(1) by (auto simp: r1_def)
    have "tq_ts q \<le> tq_ts p" if "p \<in> set (readreq r)" for p
    proof -
      have "tq_ts q \<le> k" using q by (simp add: ready_def)
      also have "k \<le> tq_ts p" using that by (simp add: k_def cal_min_le)
      finally show ?thesis .
    qed
    then have ord: "ts_order ?r2" using reads(1) pres(1) sub by (auto simp: ts_order_def r1_def k_def)
    have "tq_txn w \<notin> tq_txn ` set ready" if "w \<in> set (writereq r1)" for w
    proof
      assume "tq_txn w \<in> tq_txn ` set ready"
      then obtain x where x: "x \<in> set (writereq r)" "tq_ts x \<le> k" "tq_txn w = tq_txn x" by (auto simp: ready_def)
      moreover have "w \<in> set (writereq r)" "\<not> tq_ts w \<le> k" using that by (auto simp: r1_def)
      ultimately show False using qok by (metis ts_queues_ok_def distinct_map inj_onD)
    qed
    moreover have "tq_txn ` set (writereq r1) \<subseteq> tq_txn ` set (prereq r1)"
      using qok by (auto simp: ts_queues_ok_def r1_def)
    ultimately have "tq_txn ` set (writereq r1) \<subseteq> tq_txn ` set ps"
      unfolding ps(1) by fastforce
    then have "ts_queues_ok H ?r2"
      using qok ps(2) by (auto simp: ts_queues_ok_def r1_def distinct_map_filter)
    moreover have "ts_min_pts ?r2 \<le> cal_min (prereq ?r2)" using cal_min_anti [OF sub] pres(2) by (simp add: r1_def)
    moreover have "ts_reads_above ?r2" using reads(2) by (simp add: ts_reads_above_def r1_def)
    ultimately have "ts_pre H ?r2" using ord by (simp add: ts_pre_def)
    with run perform show ?thesis unfolding turn by (intro exI [of _ True]) simp
  qed
qed

lemma ts_update_turn_ok:
  assumes "ts_pre H r"
  shows "\<exists>again r' H' rs'. ts_update_turn r H rs = Inr (again, r', H', rs') \<and> txns_le H H' \<and>
    (if again then ts_pre H' r' else ts_inv H' r')"
proof -
  define m where "m = cal_min (prereq r)"
  define rest where "rest = filter (\<lambda>q. \<not> tq_ts q \<le> m) (readreq r)"
  define ready where "ready = rev (filter (\<lambda>q. tq_ts q \<le> m) (readreq r))"
  define r2 where "r2 = r\<lparr>ts_min_pts := m, readreq := rest\<rparr>"
  have qok: "ts_queues_ok H r" and ord: "ts_order r" and above: "ts_reads_above r" and le: "ts_min_pts r \<le> m"
    using assms by (simp_all add: ts_pre_def m_def)
  have above2: "ts_reads_above r2" by (auto simp: ts_reads_above_def r2_def rest_def)
  have turn: "ts_update_turn r H rs =
    (if \<not> m > ts_min_pts r then Inr (False, r, H, rs)
     else if ready = [] then Inr (False, r2, H, rs)
     else bind_result (ts_serve_reads ready r2 H rs) (\<lambda>(r3, H', rs').
          bind_result (ts_turn_writes r3) (\<lambda>(again, r4). Inr (again, r4, H', rs'))))"
    using le by (simp add: ts_update_turn_def Let_def ts_debuffer_reads_def ts_debuffer_loop_conv m_def rest_def
        ready_def r2_def assert_that_def)
  consider (same) "\<not> m > ts_min_pts r" | (none) "m > ts_min_pts r" "ready = []" | (serve) "m > ts_min_pts r" "ready \<noteq> []"
    by blast
  then show ?thesis
  proof cases
    case same
    then have "ts_min_pts r = m" using le by (simp add: order_antisym)
    then have "ts_inv H r" using qok ord above by (simp add: ts_inv_def m_def)
    with same show ?thesis unfolding turn by (intro exI [of _ False]) simp
  next
    case none
    then have "rest = readreq r" by (auto simp: ready_def rest_def filter_empty_conv intro: filter_True)
    then have "ts_queues_ok H r2" "ts_order r2" using qok ord by (simp_all add: r2_def ts_queues_ok_def ts_order_def)
    then have "ts_inv H r2" using above2 by (simp add: ts_inv_def r2_def m_def)
    with none show ?thesis unfolding turn by (intro exI [of _ False]) simp
  next
    case serve
    have "\<forall>q\<in>set ready. mt_cur_row (H (tq_txn q)) \<noteq> None" using qok by (simp add: ts_queues_ok_def ready_def)
    from ts_serve_reads_ok [OF this, of r2 rs] obtain v H' rs' where
      s: "ts_serve_reads ready r2 H rs = Inr (r2\<lparr>rts := v\<rparr>, H', rs')" "txns_le H H'"
        "\<forall>b. rts r2 \<le> b \<and> (\<forall>q\<in>set ready. tq_ts q \<le> b) \<longrightarrow> v \<le> b" by blast
    let ?r3 = "r2\<lparr>rts := v\<rparr>"
    have "v \<le> tq_ts p" if p: "p \<in> set (prereq r)" for p
    proof -
      have "m \<le> tq_ts p" using p by (simp add: m_def cal_min_le)
      moreover have "rts r \<le> tq_ts p" using p ord by (simp add: ts_order_def)
      ultimately show ?thesis using s(3) by (auto simp: r2_def ready_def intro: order_trans)
    qed
    then have "\<forall>p\<in>set (prereq ?r3). rts ?r3 \<le> tq_ts p" by (simp add: r2_def)
    moreover have "ts_queues_ok H' ?r3"
      using qok s(2) by (rule ts_queues_ok_le) (auto simp: r2_def rest_def)
    moreover have "\<forall>q\<in>set (readreq ?r3). wts ?r3 \<le> tq_ts q" using ord by (simp add: ts_order_def r2_def rest_def)
    moreover have "ts_reads_above ?r3" using above2 by (simp add: ts_reads_above_def)
    moreover have "min_rts ?r3 \<le> cal_min (readreq ?r3)"
      using ord cal_min_anti [of rest "readreq r"] by (simp add: ts_order_def r2_def rest_def)
    ultimately have "\<exists>again r'. ts_turn_writes ?r3 = Inr (again, r') \<and> (if again then ts_pre H' r' else ts_inv H' r')"
      by (intro ts_turn_writes_ok) (simp_all add: r2_def m_def)
    then obtain again r' where "ts_turn_writes ?r3 = Inr (again, r')" "if again then ts_pre H' r' else ts_inv H' r'"
      by blast
    with serve s(1,2) show ?thesis unfolding turn by (intro exI [of _ again]) simp
  qed
qed

lemma ts_update_buffer_ok:
  assumes "ts_pre H r"
  shows "\<exists>r' H' rs'. ts_update_buffer r H rs = Inr (r', H', rs') \<and> txns_le H H' \<and> ts_inv H' r'"
  using assms
proof (induction r H rs rule: ts_update_buffer.induct)
  case (1 r H rs)
  obtain again r1 H1 rs1 where t: "ts_update_turn r H rs = Inr (again, r1, H1, rs1)" "txns_le H H1"
    "if again then ts_pre H1 r1 else ts_inv H1 r1"
    using ts_update_turn_ok [OF 1(2)] by blast
  show ?case
  proof (cases again)
    case True
    with t have "\<exists>r' H' rs'. ts_update_buffer r1 H1 rs1 = Inr (r', H', rs') \<and> txns_le H1 H' \<and> ts_inv H' r'"
      by (intro 1(1)) simp_all
    with t True show ?thesis by (subst ts_update_buffer.simps) (auto intro: txns_le_trans)
  next
    case False
    with t show ?thesis by (subst ts_update_buffer.simps) auto
  qed
qed

section \<open>Runs\<close>

text \<open>
  What the callers respect: a read has its private copy allocated, a transaction has at most one
  prewrite, and a commit or abort of a write follows a prewrite and is the last call.
\<close>

fun ts_call_ok :: "64 word \<Rightarrow> TsType \<Rightarrow> 'r option \<Rightarrow> 'r Row_ts \<Rightarrow> 'r mv_txns \<Rightarrow> bool" where
  "ts_call_ok t R_REQ row r H \<longleftrightarrow> mt_cur_row (H t) \<noteq> None"
| "ts_call_ok t P_REQ row r H \<longleftrightarrow> t \<notin> tq_txn ` set (prereq r)"
| "ts_call_ok t W_REQ row r H \<longleftrightarrow> row \<noteq> None \<and> mt_cur_row (H t) \<noteq> None \<and> mt_timestamp (H t) < UINT64_MAX \<and>
    t \<in> tq_txn ` set (prereq r) \<and> t \<notin> tq_txn ` set (writereq r)"
| "ts_call_ok t XP_REQ row r H \<longleftrightarrow> t \<in> tq_txn ` set (prereq r) \<and> t \<notin> tq_txn ` set (writereq r)"

lemma ts_finish_ok:
  assumes "ts_queues_ok H r" "ts_order r" "ts_reads_above r" "ts_min_pts r = cal_min (prereq r)"
    and "t \<in> tq_txn ` set (prereq r)" "t \<notin> tq_txn ` set (writereq r)"
  shows "\<exists>r' H' rs. ts_finish t r H = Inr (RCOK, r', H', rs) \<and> txns_le H H' \<and> ts_inv H' r'"
proof -
  have "distinct (map tq_txn (prereq r))" using assms(1) by (simp add: ts_queues_ok_def)
  from ts_debuffer_txn_ok [OF assms(5) this] obtain ps n where
    d: "ts_debuffer_txn t r = Inr (r\<lparr>prereq := ps, ts_preq_len := n\<rparr>)"
      "set ps = {p \<in> set (prereq r). tq_txn p \<noteq> t}" "distinct (map tq_txn ps)" by blast
  let ?r1 = "r\<lparr>prereq := ps, ts_preq_len := n\<rparr>"
  have "tq_txn ` set ps = tq_txn ` set (prereq r) - {t}" unfolding d(2) by auto
  then have "ts_queues_ok H ?r1" using assms(1,6) d(3) by (simp add: ts_queues_ok_def subset_Diff_insert)
  moreover have "ts_order ?r1" using assms(2) d(2) by (simp add: ts_order_def)
  moreover have "cal_min (prereq r) \<le> cal_min ps" using d(2) by (intro cal_min_anti) auto
  ultimately have "ts_pre H ?r1" using assms(3,4) by (simp add: ts_pre_def ts_reads_above_def)
  from ts_update_buffer_ok [OF this, of "[]"] d(1) show ?thesis by (auto simp: ts_finish_def)
qed

lemma ts_inv_le: "ts_inv H r \<Longrightarrow> txns_le H H' \<Longrightarrow> ts_inv H' r"
  unfolding ts_inv_def by (auto intro: ts_queues_ok_le)

lemma ts_read_ok:
  assumes inv: "ts_inv H r" and ok: "mt_cur_row (H t) \<noteq> None"
  shows "\<exists>rc r' H'. ts_read t r H = Inr (rc, r', H', []) \<and> txns_le H H' \<and> ts_inv H' r'"
proof -
  let ?ts = "mt_timestamp (H t)"
  have qok: "ts_queues_ok H r" and ord: "ts_order r" and above: "ts_reads_above r" and mp: "ts_min_pts r = cal_min (prereq r)"
    using inv by (simp_all add: ts_inv_def)
  consider (abort) "?ts < wts r" | (wait) "\<not> ?ts < wts r" "?ts > ts_min_pts r" | (read) "\<not> ?ts < wts r" "\<not> ?ts > ts_min_pts r"
    by blast
  then show ?thesis
  proof cases
    case abort
    then show ?thesis using inv by (simp add: ts_read_def Let_def)
  next
    case wait
    let ?q = "\<lparr>tq_txn = t, tq_row = None, tq_ts = ?ts\<rparr>"
    let ?r = "r\<lparr>readreq := ?q # readreq r, min_rts := if ?ts < min_rts r then ?ts else min_rts r\<rparr>"
    let ?H = "H(t := (H t)\<lparr>mt_ts_ready := False\<rparr>)"
    have le: "txns_le H ?H" by (rule txns_le_upd) simp_all
    have "ts_queues_ok H ?r" using qok ok by (simp add: ts_queues_ok_def)
    moreover have "wts r \<le> ?ts" using wait(1) by (rule leI)
    then have "ts_order ?r" using ord by (simp add: ts_order_def cal_min_Cons)
    moreover have "ts_reads_above ?r" using above wait(2) by (simp add: ts_reads_above_def)
    ultimately have "ts_inv ?H ?r" using mp le by (intro ts_inv_le [OF _ le]) (simp add: ts_inv_def)
    moreover have "ts_read t r H = Inr (WAIT, ?r, ?H, [])" using wait by (simp add: ts_read_def Let_def)
    ultimately show ?thesis using le by blast
  next
    case read
    let ?r = "r\<lparr>rts := if rts r < ?ts then ?ts else rts r\<rparr>" and ?H = "H(t := (H t)\<lparr>mt_cur_row := Some (ts_row r)\<rparr>)"
    have le: "txns_le H ?H" by (rule txns_le_upd) simp_all
    have "?ts \<le> tq_ts p" if "p \<in> set (prereq r)" for p
      using read(2) cal_min_le [OF that] mp by (simp add: not_less)
    then have "ts_order ?r" using ord by (simp add: ts_order_def)
    moreover have "ts_queues_ok H ?r" "ts_reads_above ?r"
      using qok above by (simp_all add: ts_queues_ok_def ts_reads_above_def)
    ultimately have "ts_inv ?H ?r" using mp by (intro ts_inv_le [OF _ le]) (simp add: ts_inv_def)
    moreover have "ts_read t r H = Inr (RCOK, ?r, ?H, [])" using read ok by (simp add: ts_read_def Let_def)
    ultimately show ?thesis using le by blast
  qed
qed

lemma ts_prewrite_ok:
  assumes inv: "ts_inv H r" and ok: "t \<notin> tq_txn ` set (prereq r)"
  shows "\<exists>rc r'. ts_prewrite twr t r H = Inr (rc, r', H, []) \<and> ts_inv H r'"
proof -
  let ?ts = "mt_timestamp (H t)" and ?q = "\<lparr>tq_txn = t, tq_row = None, tq_ts = mt_timestamp (H t)\<rparr>"
  let ?r = "r\<lparr>ts_preq_len := ts_preq_len r + 1, prereq := ?q # prereq r,
     ts_min_pts := if ?ts < ts_min_pts r then ?ts else ts_min_pts r\<rparr>"
  have qok: "ts_queues_ok H r" and ord: "ts_order r" and above: "ts_reads_above r" and mp: "ts_min_pts r = cal_min (prereq r)"
    using inv by (simp_all add: ts_inv_def)
  have "ts_inv H ?r" if "\<not> ?ts < rts r"
  proof -
    have "ts_queues_ok H ?r" using qok ok by (auto simp: ts_queues_ok_def)
    moreover have "ts_order ?r" using ord that by (simp add: ts_order_def not_less)
    moreover have "ts_reads_above ?r" using above by (auto simp: ts_reads_above_def dest: less_trans)
    ultimately show ?thesis using mp by (simp add: ts_inv_def cal_min_Cons)
  qed
  moreover have "ts_prewrite twr t r H = Inr (Abort, r, H, []) \<or>
      \<not> ?ts < rts r \<and> ts_prewrite twr t r H = Inr (RCOK, ?r, H, [])"
    by (simp add: ts_prewrite_def Let_def)
  ultimately show ?thesis using inv by blast
qed

lemma ts_buffer_write_ok:
  assumes inv: "ts_inv H r" and "row \<noteq> None" "mt_timestamp (H t) < UINT64_MAX"
    and "t \<in> tq_txn ` set (prereq r)" "t \<notin> tq_txn ` set (writereq r)"
  shows "\<exists>r'. ts_buffer_req W_REQ t H row r = Inr r' \<and> ts_inv H r'"
  using assms by (auto simp: ts_inv_def ts_queues_ok_def ts_order_def ts_reads_above_def Let_def)

lemma ts_write_ok:
  assumes inv: "ts_inv H r" and ok: "ts_call_ok t W_REQ row r H"
  shows "\<exists>r' H' rs. ts_write twr t row r H = Inr (RCOK, r', H', rs) \<and> txns_le H H' \<and> ts_inv H' r'"
proof -
  let ?ts = "mt_timestamp (H t)"
  have parts: "ts_queues_ok H r" "ts_order r" "ts_reads_above r" "ts_min_pts r = cal_min (prereq r)"
    using inv by (simp_all add: ts_inv_def)
  obtain x where x: "row = Some x" using ok by auto
  have buf: "\<exists>r'. ts_buffer_req W_REQ t H y r = Inr r' \<and> ts_inv H r'" if "y \<noteq> None" for y
    using ok by (intro ts_buffer_write_ok [OF inv that]) simp_all
  consider (stale) "twr" "?ts < wts r" | (wait_p) "\<not> (twr \<and> ?ts < wts r)" "\<not> twr" "?ts > ts_min_pts r"
    | (wait_r) "\<not> (twr \<and> ?ts < wts r)" "\<not> (\<not> twr \<and> ?ts > ts_min_pts r)" "?ts > min_rts r"
    | (perform) "\<not> (twr \<and> ?ts < wts r)" "\<not> (\<not> twr \<and> ?ts > ts_min_pts r)" "\<not> ?ts > min_rts r"
    by blast
  then show ?thesis
  proof cases
    case stale
    have "\<exists>r' H' rs. ts_finish t r H = Inr (RCOK, r', H', rs) \<and> txns_le H H' \<and> ts_inv H' r'"
      using ok by (intro ts_finish_ok [OF parts]) simp_all
    with stale x show ?thesis by (simp add: ts_write_def)
  next
    case wait_p
    with buf [of row] x show ?thesis by (auto simp: ts_write_def)
  next
    case wait_r
    with buf [of "mt_cur_row (H t)"] ok show ?thesis by (auto simp: ts_write_def)
  next
    case perform
    let ?r = "r\<lparr>ts_row := x, wts := if wts r < ?ts then ?ts else wts r\<rparr>"
    have "?ts \<le> tq_ts q" if "q \<in> set (readreq r)" for q
      using perform(3) cal_min_le [OF that] parts(2) by (simp add: ts_order_def not_less)
    then have "ts_order ?r" using parts(2) by (simp add: ts_order_def)
    moreover have "ts_queues_ok H ?r" "ts_reads_above ?r" "ts_min_pts ?r = cal_min (prereq ?r)"
      using parts by (simp_all add: ts_queues_ok_def ts_reads_above_def)
    ultimately have "\<exists>r' H' rs. ts_finish t ?r H = Inr (RCOK, r', H', rs) \<and> txns_le H H' \<and> ts_inv H' r'"
      using ok by (intro ts_finish_ok) simp_all
    moreover have "ts_write twr t row r H = ts_finish t ?r H"
      unfolding ts_write_def Let_def using perform by (simp only: if_False x option.case)
    ultimately show ?thesis by simp
  qed
qed

lemma ts_access_ok:
  assumes "ts_inv H r" "ts_call_ok t type row r H"
  shows "\<exists>rc r' H' rs. ts_access twr t type row r H = Inr (rc, r', H', rs) \<and> txns_le H H' \<and> ts_inv H' r'"
proof (cases type)
  case R_REQ
  with assms ts_read_ok [OF assms(1), of t] show ?thesis by (auto simp: ts_access_def)
next
  case P_REQ
  with assms ts_prewrite_ok [OF assms(1), of t twr] show ?thesis by (auto simp: ts_access_def)
next
  case W_REQ
  with assms(2) ts_write_ok [OF assms(1), of t row twr] show ?thesis by (auto simp: ts_access_def)
next
  case XP_REQ
  with assms have "\<exists>r' H' rs. ts_finish t r H = Inr (RCOK, r', H', rs) \<and> txns_le H H' \<and> ts_inv H' r'"
    by (intro ts_finish_ok) (simp_all add: ts_inv_def)
  with XP_REQ show ?thesis by (auto simp: ts_access_def)
qed

type_synonym 'r ts_call = "64 word \<times> TsType \<times> 'r option"

fun ts_run :: "bool \<Rightarrow> 'r ts_call list \<Rightarrow> 'r Row_ts \<Rightarrow> 'r mv_txns \<Rightarrow> ('r Row_ts \<times> 'r mv_txns) result" where
  "ts_run twr [] r H = Inr (r, H)"
| "ts_run twr ((t, type, row) # cs) r H =
    bind_result (ts_access twr t type row r H) (\<lambda>(_, r', H', _). ts_run twr cs r' H')"

fun ts_calls_ok :: "bool \<Rightarrow> 'r ts_call list \<Rightarrow> 'r Row_ts \<Rightarrow> 'r mv_txns \<Rightarrow> bool" where
  "ts_calls_ok twr [] r H = True"
| "ts_calls_ok twr ((t, type, row) # cs) r H =
    (ts_call_ok t type row r H \<and>
     (case ts_access twr t type row r H of Inl _ \<Rightarrow> True | Inr (_, r', H', _) \<Rightarrow> ts_calls_ok twr cs r' H'))"

lemma ts_run_ok:
  assumes "ts_calls_ok twr cs r H" "ts_inv H r"
  shows "\<exists>r' H'. ts_run twr cs r H = Inr (r', H') \<and> ts_inv H' r'"
  using assms
proof (induction cs arbitrary: r H)
  case (Cons c cs)
  obtain t type row where c: "c = (t, type, row)" by (cases c)
  with Cons.prems have "ts_call_ok t type row r H" by simp
  from ts_access_ok [OF Cons.prems(2) this, of twr] obtain rc r1 H1 rs where
    a: "ts_access twr t type row r H = Inr (rc, r1, H1, rs)" "ts_inv H1 r1" by blast
  with Cons.prems(1) c have "ts_calls_ok twr cs r1 H1" by simp
  from Cons.IH [OF this a(2)] a(1) c show ?case by simp
qed simp

lemma ts_inv_init: "ts_inv H (ts_init row)"
  by (simp add: ts_inv_def ts_init_def ts_queues_ok_def ts_order_def ts_reads_above_def)

section \<open>Properties\<close>

text \<open>
  Claim C26. Every sequence of calls that respects the protocol runs without a failed assertion, and at its
  end each waiting read has a pending prewrite with a smaller timestamp: no read waits for
  nothing.
\<close>

theorem ts_waiting_reads_blocked:
  assumes "ts_calls_ok twr cs (ts_init row) H"
  shows "\<exists>r H'. ts_run twr cs (ts_init row) H = Inr (r, H') \<and>
    (\<forall>q\<in>set (readreq r). \<exists>p\<in>set (prereq r). tq_ts p < tq_ts q)"
proof -
  obtain r H' where run: "ts_run twr cs (ts_init row) H = Inr (r, H')" and inv: "ts_inv H' r"
    using ts_run_ok [OF assms ts_inv_init] by blast
  have "\<exists>p\<in>set (prereq r). tq_ts p < tq_ts q" if q: "q \<in> set (readreq r)" for q
  proof -
    have less: "cal_min (prereq r) < tq_ts q" using inv q unfolding ts_inv_def ts_reads_above_def by metis
    then have "cal_min (prereq r) \<noteq> UINT64_MAX" using word_order.extremum_strict by auto
    then obtain p where "p \<in> set (prereq r)" "tq_ts p = cal_min (prereq r)" using cal_min_attained [of "prereq r"] by blast
    with less show ?thesis by metis
  qed
  with run show ?thesis by blast
qed

definition sample_ts_txns :: "nat mv_txns" where
  "sample_ts_txns = (\<lambda>t. \<lparr>mt_timestamp = t, mt_cur_row = Some 0, mt_ts_ready = True\<rparr>)"

lemmas ts_eval =
  ts_access_def ts_read_def ts_prewrite_def ts_write_def ts_finish_def ts_debuffer_txn_def ts_update_buffer.simps
  ts_update_turn_def ts_turn_writes_def ts_debuffer_reads_def ts_debuffer_writes_def ts_perform_writes_def
  cal_min_def ts_init_def sample_ts_txns_def assert_that_def Let_def

text \<open>Transaction 3 prewrites; transaction 5 reads and waits for it.\<close>

theorem ts_waiting_reads_blocked_witness:
  "ts_calls_ok False [(3, P_REQ, None), (5, R_REQ, None)] (ts_init 7) sample_ts_txns \<and>
   (\<exists>r H'. ts_run False [(3, P_REQ, None), (5, R_REQ, None)] (ts_init 7) sample_ts_txns = Inr (r, H') \<and>
     readreq r \<noteq> [] \<and> (\<forall>q\<in>set (readreq r). \<exists>p\<in>set (prereq r). tq_ts p < tq_ts q))"
proof -
  let ?cs = "[(3, P_REQ, None), (5, R_REQ, None)] :: nat ts_call list"
  have ok: "ts_calls_ok False ?cs (ts_init 7) sample_ts_txns" by (simp add: ts_eval)
  obtain r H' where r: "ts_run False ?cs (ts_init 7) sample_ts_txns = Inr (r, H')"
    "\<forall>q\<in>set (readreq r). \<exists>p\<in>set (prereq r). tq_ts p < tq_ts q"
    using ts_waiting_reads_blocked [OF ok] by blast
  then have "readreq r \<noteq> []" by (auto simp: ts_eval)
  with ok r show ?thesis by blast
qed

text \<open>
  Claim C25. Timestamp order between reads and writes: after any such sequence, a read that succeeds is not
  older than the last write, not younger than any pending prewrite, and returns the contents of
  the row; waiting reads are not older than the last write and pending prewrites not older than
  the last read.
\<close>

theorem ts_reads_in_order:
  assumes "ts_calls_ok twr cs (ts_init row) H" "ts_run twr cs (ts_init row) H = Inr (r, H1)"
    and "ts_access twr t R_REQ x r H1 = Inr (RCOK, r', H2, rs)"
  shows "wts r \<le> mt_timestamp (H1 t) \<and> (\<forall>p\<in>set (prereq r). mt_timestamp (H1 t) \<le> tq_ts p) \<and>
    mt_cur_row (H2 t) = Some (ts_row r) \<and>
    (\<forall>q\<in>set (readreq r). wts r \<le> tq_ts q) \<and> (\<forall>p\<in>set (prereq r). rts r' \<le> tq_ts p)"
proof -
  let ?ts = "mt_timestamp (H1 t)"
  have inv: "ts_inv H1 r" using ts_run_ok [OF assms(1) ts_inv_init] assms(2) by auto
  have rd: "\<not> ?ts < wts r" "\<not> ?ts > ts_min_pts r" "r' = r\<lparr>rts := if rts r < ?ts then ?ts else rts r\<rparr>"
    "mt_cur_row (H2 t) = Some (ts_row r)"
    using assms(3) by (auto simp: ts_access_def ts_read_def Let_def split: if_splits)
  have "?ts \<le> tq_ts p" if "p \<in> set (prereq r)" for p
    using rd(2) cal_min_le [OF that] inv by (simp add: ts_inv_def not_less)
  with rd inv show ?thesis by (simp add: ts_inv_def ts_order_def not_less)
qed

theorem ts_reads_in_order_witness:
  "\<exists>r H1 r' H2 rs. ts_run False [(3, P_REQ, None), (3, W_REQ, Some 30), (9, P_REQ, None)] (ts_init 7) sample_ts_txns = Inr (r, H1) \<and>
     ts_access False 5 R_REQ None r H1 = Inr (RCOK, r', H2, rs) \<and> mt_cur_row (H2 5) = Some 30 \<and>
     (\<forall>p\<in>set (prereq r). 5 \<le> tq_ts p) \<and> prereq r \<noteq> []"
proof -
  let ?cs = "[(3, P_REQ, None), (3, W_REQ, Some 30), (9, P_REQ, None)] :: nat ts_call list"
  have ok: "ts_calls_ok False ?cs (ts_init 7) sample_ts_txns" by (simp add: ts_eval)
  obtain r H1 where r: "ts_run False ?cs (ts_init 7) sample_ts_txns = Inr (r, H1)" "ts_row r = 30" "prereq r \<noteq> []" "mt_timestamp (H1 5) = 5"
    by (simp add: ts_eval)
  obtain r' H2 rs where a: "ts_access False 5 R_REQ None r H1 = Inr (RCOK, r', H2, rs)"
    using r by (auto simp: ts_eval)
  from ts_reads_in_order [OF ok r(1) a] r a show ?thesis by auto
qed

text \<open>
  A buffered write is applied only together with a buffered read: as long as no read is buffered,
  no call takes a write out of the buffer, whatever transactions finish. So a write that had to
  wait for an older prewrite is not performed when that prewrite finishes, and the prewrite that
  belongs to it keeps blocking younger reads.
\<close>

theorem ts_buffered_writes_stay:
  assumes "ts_inv H r" "readreq r = []" "w \<in> set (writereq r)"
    and "ts_access twr t type row r H = Inr (rc, r', H', rs)"
  shows "w \<in> set (writereq r')"
proof -
  have ub: "writereq r2 = writereq r1"
    if "ts_update_buffer r1 H1 [] = Inr (r2, H2, rs2)" "readreq r1 = []" for r1 r2 :: "'a Row_ts" and H1 H2 rs2
    using that by (subst (asm) ts_update_buffer.simps)
      (auto simp: ts_update_turn_def Let_def ts_debuffer_reads_def assert_that_def split: if_splits)
  have fin: "writereq r2 = writereq r1"
    if "ts_finish t r1 H = Inr (rc, r2, H2, rs2)" "readreq r1 = []" for r1 r2 :: "'a Row_ts" and H2 rs2
    using that by (auto simp: ts_finish_def bind_result_Inr_iff dest!: ts_debuffer_txn_row ub)
  show ?thesis
  proof (cases type)
    case W_REQ
    with assms(2-4) show ?thesis
      by (auto simp: ts_access_def ts_write_def Let_def bind_result_Inr_iff split: if_splits option.splits dest!: fin)
  next
    case XP_REQ
    with assms(2-4) fin show ?thesis by (auto simp: ts_access_def)
  qed (use assms(3,4) in \<open>auto simp: ts_access_def ts_read_def ts_prewrite_def Let_def split: if_splits\<close>)
qed

text \<open>
  Both transactions write and finish; the second write stays in the buffer, the row keeps the
  first value and a later read waits although no transaction is left to wake it.
\<close>

theorem ts_buffered_writes_stay_witness:
  "\<exists>r H r' H' w. ts_run False [(3, P_REQ, None), (5, P_REQ, None), (5, W_REQ, Some 50)] (ts_init 7) sample_ts_txns = Inr (r, H) \<and>
     ts_access False 3 W_REQ (Some 30) r H = Inr (RCOK, r', H', []) \<and> w \<in> set (writereq r') \<and> tq_row w = Some 50 \<and> ts_row r' = 30 \<and>
     (\<exists>r'' H''. ts_access False 9 R_REQ None r' H' = Inr (WAIT, r'', H'', []))"
proof -
  let ?cs = "[(3, P_REQ, None), (5, P_REQ, None), (5, W_REQ, Some 50)] :: nat ts_call list"
  have ok: "ts_calls_ok False ?cs (ts_init 7) sample_ts_txns" by (simp add: ts_eval)
  obtain r H where r: "ts_run False ?cs (ts_init 7) sample_ts_txns = Inr (r, H)" "ts_inv H r"
    using ts_run_ok [OF ok ts_inv_init] by blast
  let ?w = "\<lparr>tq_txn = 5, tq_row = Some 50, tq_ts = 5\<rparr> :: nat TsReqEntry"
  have st: "readreq r = []" "?w \<in> set (writereq r)" using r(1) by (auto simp: ts_eval)
  obtain r' H' where a: "ts_access False 3 W_REQ (Some 30) r H = Inr (RCOK, r', H', [])" "ts_row r' = 30"
    "\<exists>r'' H''. ts_access False 9 R_REQ None r' H' = Inr (WAIT, r'', H'', [])"
    using r(1) by (auto simp: ts_eval)
  from ts_buffered_writes_stay [OF r(2) st a(1)] r(1) a show ?thesis by (intro exI [of _ r] exI [of _ H] exI [of _ r'] exI [of _ H'] exI [of _ ?w]) simp
qed

end
