(* ===== verification/Maat.thy ===== *)
theory Maat
imports KeyedTable
begin

text \<open>
  Dynamic timestamp ranges: \<open>TimeTable\<close> and the validation of \<open>Maat\<close> (\<open>maat.cpp\<close>) and the soft
  locks of a row, \<open>Row_maat\<close> (\<open>row_maat.cpp\<close>). Each method is one step: \<open>validate\<close> runs under its semaphore and
  \<open>commit\<close> of a row under the row's latch, but a commit on another row changes the time table under the mutexes
  of its buckets only; such changes in the middle of a method are not represented. A \<open>std::set\<close> is a set,
  traversed in ascending order. \<open>tpcc\<close> is \<open>WORKLOAD == TPCC\<close>.
\<close>

section \<open>TimeTable\<close>

datatype MAATState = MAAT_RUNNING | MAAT_VALIDATED | MAAT_COMMITTED | MAAT_ABORTED

record TimeTableEntry =
  tt_lower :: "64 word"
  tt_upper :: "64 word"
  tt_state :: MAATState

type_synonym time_table = "TimeTableEntry bucket_table"

definition tt_entry_init :: TimeTableEntry where
  "tt_entry_init = \<lparr>tt_lower = 0, tt_upper = UINT64_MAX, tt_state = MAAT_RUNNING\<rparr>"

definition tt_table_init :: "nat \<Rightarrow> time_table" where
  "tt_table_init g_inflight_max = table_empty g_inflight_max"

definition tt_hash :: "time_table \<Rightarrow> 64 word \<Rightarrow> nat" where
  "tt_hash tbl key = table_hash tbl key"

definition tt_find :: "time_table \<Rightarrow> 64 word \<Rightarrow> TimeTableEntry option" where
  "tt_find tbl key = table_find tbl key"

definition tt_init :: "64 word \<Rightarrow> time_table \<Rightarrow> time_table" where
  "tt_init key tbl = table_init_key tt_entry_init key tbl"

definition tt_release :: "64 word \<Rightarrow> time_table \<Rightarrow> time_table" where
  "tt_release key tbl = table_release key tbl"

definition get_lower :: "64 word \<Rightarrow> time_table \<Rightarrow> 64 word" where
  "get_lower key tbl = (case tt_find tbl key of None \<Rightarrow> 0 | Some e \<Rightarrow> tt_lower e)"

definition get_upper :: "64 word \<Rightarrow> time_table \<Rightarrow> 64 word" where
  "get_upper key tbl = (case tt_find tbl key of None \<Rightarrow> UINT64_MAX | Some e \<Rightarrow> tt_upper e)"

definition set_lower :: "64 word \<Rightarrow> 64 word \<Rightarrow> time_table \<Rightarrow> time_table" where
  "set_lower key v tbl = table_update (\<lambda>e. e\<lparr>tt_lower := v\<rparr>) key tbl"

definition set_upper :: "64 word \<Rightarrow> 64 word \<Rightarrow> time_table \<Rightarrow> time_table" where
  "set_upper key v tbl = table_update (\<lambda>e. e\<lparr>tt_upper := v\<rparr>) key tbl"

definition tt_get_state :: "64 word \<Rightarrow> time_table \<Rightarrow> MAATState" where
  "tt_get_state key tbl = (case tt_find tbl key of None \<Rightarrow> MAAT_ABORTED | Some e \<Rightarrow> tt_state e)"

definition tt_set_state :: "64 word \<Rightarrow> MAATState \<Rightarrow> time_table \<Rightarrow> time_table" where
  "tt_set_state key v tbl = table_update (\<lambda>e. e\<lparr>tt_state := v\<rparr>) key tbl"

section \<open>Validation\<close>

record maat_txn =
  ma_txn_id :: "64 word"
  greatest_write_timestamp :: "64 word"
  greatest_read_timestamp :: "64 word"
  uncommitted_writes :: "64 word set"
  uncommitted_writes_y :: "64 word set"
  uncommitted_reads :: "64 word set"
  ma_commit_timestamp :: "64 word"

definition decided :: "MAATState \<Rightarrow> bool" where
  "decided st \<longleftrightarrow> st = MAAT_VALIDATED \<or> st = MAAT_COMMITTED"

fun writes_loop :: "time_table \<Rightarrow> 64 word list \<Rightarrow> 64 word \<times> 64 word set \<Rightarrow> 64 word \<times> 64 word set" where
  "writes_loop tbl [] (upper, after) = (upper, after)"
| "writes_loop tbl (i # is) (upper, after) =
    (let it_lower = get_lower i tbl; state = tt_get_state i tbl in
     writes_loop tbl is
       (if upper \<ge> it_lower then
          (if decided state then (if it_lower > 0 then it_lower - 1 else it_lower) else upper,
           if state = MAAT_RUNNING then insert i after else after)
        else (upper, after)))"

fun reads_loop :: "time_table \<Rightarrow> 64 word list \<Rightarrow> 64 word \<times> 64 word set \<Rightarrow> 64 word \<times> 64 word set" where
  "reads_loop tbl [] (lower, before) = (lower, before)"
| "reads_loop tbl (i # is) (lower, before) =
    (let it_upper = get_upper i tbl; state = tt_get_state i tbl in
     reads_loop tbl is
       (if lower \<le> it_upper then
          (if decided state then (if it_upper < UINT64_MAX then it_upper + 1 else it_upper) else lower,
           if state = MAAT_RUNNING then insert i before else before)
        else (lower, before)))"

fun writes_y_loop :: "time_table \<Rightarrow> 64 word list \<Rightarrow> 64 word \<times> 64 word set \<Rightarrow> 64 word \<times> 64 word set" where
  "writes_y_loop tbl [] (lower, after) = (lower, after)"
| "writes_y_loop tbl (i # is) (lower, after) =
    (let it_upper = get_upper i tbl; state = tt_get_state i tbl in
     writes_y_loop tbl is
       (if state = MAAT_ABORTED then (lower, after)
        else
          (if decided state \<and> lower \<le> it_upper then (if it_upper < UINT64_MAX then it_upper + 1 else it_upper) else lower,
           if state = MAAT_RUNNING then insert i after else after)))"

text \<open>The loops of the successful branch.\<close>

fun raise_lower :: "time_table \<Rightarrow> 64 word \<Rightarrow> 64 word list \<Rightarrow> 64 word \<Rightarrow> 64 word" where
  "raise_lower tbl upper [] lower = lower"
| "raise_lower tbl upper (i # is) lower =
    (let it_upper = get_upper i tbl in
     raise_lower tbl upper is (if it_upper > lower \<and> it_upper < upper - 1 then it_upper + 1 else lower))"

fun cut_before :: "64 word \<Rightarrow> 64 word list \<Rightarrow> time_table \<Rightarrow> time_table" where
  "cut_before lower [] tbl = tbl"
| "cut_before lower (i # is) tbl =
    cut_before lower is
      (if get_upper i tbl \<ge> lower then set_upper i (if lower > 0 then lower - 1 else lower) tbl else tbl)"

fun reduce_upper :: "time_table \<Rightarrow> 64 word \<Rightarrow> 64 word list \<Rightarrow> 64 word \<Rightarrow> 64 word" where
  "reduce_upper tbl lower [] upper = upper"
| "reduce_upper tbl lower (i # is) upper =
    (let it_lower = get_lower i tbl; it_upper = get_upper i tbl;
         upper1 = (if it_upper \<noteq> UINT64_MAX \<and> it_upper > lower + 2 \<and> it_upper < upper then it_upper - 2 else upper);
         upper2 = (if it_lower < upper1 \<and> it_lower > lower + 1 then it_lower - 1 else upper1)
     in reduce_upper tbl lower is upper2)"

fun cut_after :: "64 word \<Rightarrow> 64 word list \<Rightarrow> time_table \<Rightarrow> time_table" where
  "cut_after upper [] tbl = tbl"
| "cut_after upper (i # is) tbl =
    cut_after upper is
      (if get_lower i tbl \<le> upper then set_lower i (if upper < UINT64_MAX then upper + 1 else upper) tbl else tbl)"

text \<open>The range of the transaction, and the running ones that must come before and after it.\<close>

definition maat_range :: "maat_txn \<Rightarrow> time_table \<Rightarrow> 64 word \<times> 64 word \<times> 64 word set \<times> 64 word set" where
  "maat_range T tbl =
    (let k = ma_txn_id T;
         lower0 = get_lower k tbl; upper0 = get_upper k tbl;
         lower1 = (if lower0 \<le> greatest_write_timestamp T then greatest_write_timestamp T + 1 else lower0);
         (upper1, after1) = writes_loop tbl (sorted_list_of_set (uncommitted_writes T)) (upper0, {});
         lower2 = (if lower1 \<le> greatest_read_timestamp T then greatest_read_timestamp T + 1 else lower1);
         (lower3, before) = reads_loop tbl (sorted_list_of_set (uncommitted_reads T)) (lower2, {});
         (lower4, after) = writes_y_loop tbl (sorted_list_of_set (uncommitted_writes_y T)) (lower3, after1)
     in (lower4, upper1, before, after))"

definition maat_decide ::
  "64 word \<Rightarrow> 64 word \<times> 64 word \<times> 64 word set \<times> 64 word set \<Rightarrow> time_table \<Rightarrow> (RC \<times> time_table) result" where
  "maat_decide k = (\<lambda>(lower, upper, before, after) tbl.
    if lower \<ge> upper then
      Inr (Abort, set_upper k upper (set_lower k lower (tt_set_state k MAAT_ABORTED tbl)))
    else
      (let tbl1 = tt_set_state k MAAT_VALIDATED tbl;
           bs = sorted_list_of_set before; as = sorted_list_of_set after;
           lower1 = raise_lower tbl1 upper bs lower;
           tbl2 = cut_before lower1 bs tbl1;
           upper1 = reduce_upper tbl2 lower1 as upper;
           tbl3 = cut_after upper1 as tbl2
       in bind_result (assert_that (lower1 < upper1)) (\<lambda>_.
            Inr (RCOK, set_upper k upper1 (set_lower k lower1 tbl3)))))"

definition maat_validate :: "maat_txn \<Rightarrow> time_table \<Rightarrow> (RC \<times> time_table) result" where
  "maat_validate T tbl = maat_decide (ma_txn_id T) (maat_range T tbl) tbl"

definition find_bound :: "maat_txn \<Rightarrow> time_table \<Rightarrow> RC \<times> maat_txn \<times> time_table" where
  "find_bound T tbl =
    (let k = ma_txn_id T; lower = get_lower k tbl; upper = get_upper k tbl in
     if lower \<ge> upper then (Abort, T, tt_set_state k MAAT_VALIDATED tbl)
     else (RCOK, T\<lparr>ma_commit_timestamp := lower\<rparr>, tt_set_state k MAAT_COMMITTED tbl))"

section \<open>The rows\<close>

record 'r Row_maat =
  mr_row :: 'r
  mr_uncommitted_reads :: "64 word set"
  mr_uncommitted_writes :: "64 word set"
  timestamp_last_read :: "64 word"
  timestamp_last_write :: "64 word"


definition copy_write_ts :: "'r Row_maat \<Rightarrow> maat_txn \<Rightarrow> maat_txn" where
  "copy_write_ts s T =
    (if greatest_write_timestamp T < timestamp_last_write s
     then T\<lparr>greatest_write_timestamp := timestamp_last_write s\<rparr> else T)"

definition copy_read_ts :: "'r Row_maat \<Rightarrow> maat_txn \<Rightarrow> maat_txn" where
  "copy_read_ts s T =
    (if greatest_read_timestamp T < timestamp_last_read s
     then T\<lparr>greatest_read_timestamp := timestamp_last_read s\<rparr> else T)"

definition maat_read :: "maat_txn \<Rightarrow> 'r Row_maat \<Rightarrow> maat_txn \<times> 'r Row_maat" where
  "maat_read T s =
    (copy_write_ts s (T\<lparr>uncommitted_writes := uncommitted_writes T \<union> mr_uncommitted_writes s\<rparr>),
     s\<lparr>mr_uncommitted_reads := insert (ma_txn_id T) (mr_uncommitted_reads s)\<rparr>)"

definition maat_prewrite :: "maat_txn \<Rightarrow> 'r Row_maat \<Rightarrow> maat_txn \<times> 'r Row_maat" where
  "maat_prewrite T s =
    (copy_write_ts s (copy_read_ts s
       (T\<lparr>uncommitted_reads := uncommitted_reads T \<union> mr_uncommitted_reads s,
          uncommitted_writes_y := uncommitted_writes_y T \<union> mr_uncommitted_writes s\<rparr>)),
     s\<lparr>mr_uncommitted_writes := insert (ma_txn_id T) (mr_uncommitted_writes s)\<rparr>)"

definition maat_read_and_prewrite :: "maat_txn \<Rightarrow> 'r Row_maat \<Rightarrow> maat_txn \<times> 'r Row_maat" where
  "maat_read_and_prewrite T s =
    (copy_write_ts s (copy_read_ts s
       (T\<lparr>uncommitted_writes := uncommitted_writes T \<union> mr_uncommitted_writes s,
          uncommitted_writes_y := uncommitted_writes_y T \<union> mr_uncommitted_writes s,
          uncommitted_reads := uncommitted_reads T \<union> mr_uncommitted_reads s\<rparr>)),
     s\<lparr>mr_uncommitted_reads := insert (ma_txn_id T) (mr_uncommitted_reads s),
       mr_uncommitted_writes := insert (ma_txn_id T) (mr_uncommitted_writes s)\<rparr>)"

definition maat_access :: "bool \<Rightarrow> access_t \<Rightarrow> maat_txn \<Rightarrow> 'r Row_maat \<Rightarrow> maat_txn \<times> 'r Row_maat" where
  "maat_access tpcc type T s =
    (if tpcc then maat_read_and_prewrite T s
     else if type = RD then maat_read T s
     else if type = WR then maat_prewrite T s
     else (T, s))"

definition maat_abort :: "bool \<Rightarrow> access_t \<Rightarrow> maat_txn \<Rightarrow> 'r Row_maat \<Rightarrow> 'r Row_maat" where
  "maat_abort tpcc type T s =
    (let k = ma_txn_id T in
     if tpcc then s\<lparr>mr_uncommitted_reads := mr_uncommitted_reads s - {k},
                    mr_uncommitted_writes := mr_uncommitted_writes s - {k}\<rparr>
     else if type = RD then s\<lparr>mr_uncommitted_reads := mr_uncommitted_reads s - {k}\<rparr>
     else if type = WR then s\<lparr>mr_uncommitted_writes := mr_uncommitted_writes s - {k}\<rparr>
     else s)"








section \<open>The table as a map\<close>

lemmas tt_updates = set_lower_def set_upper_def tt_set_state_def

lemma tt_ok [simp]:
  assumes "table_ok tbl"
  shows "table_ok (set_lower k v tbl)" "table_ok (set_upper k v tbl)" "table_ok (tt_set_state k st tbl)"
    "table_ok (tt_init k tbl)" "table_ok (tt_release k tbl)"
  using assms by (simp_all add: tt_updates tt_init_def tt_release_def kt.ok_upd kt.ok_ins kt.ok_del)

lemma tt_find_simps:
  assumes "table_ok tbl"
  shows "tt_find (set_lower k v tbl) j = (if j = k then map_option (\<lambda>e. e\<lparr>tt_lower := v\<rparr>) (tt_find tbl k) else tt_find tbl j)"
    "tt_find (set_upper k v tbl) j = (if j = k then map_option (\<lambda>e. e\<lparr>tt_upper := v\<rparr>) (tt_find tbl k) else tt_find tbl j)"
    "tt_find (tt_set_state k st tbl) j = (if j = k then map_option (\<lambda>e. e\<lparr>tt_state := st\<rparr>) (tt_find tbl k) else tt_find tbl j)"
    "tt_find (tt_init k tbl) j = (if j = k \<and> tt_find tbl k = None then Some tt_entry_init else tt_find tbl j)"
    "tt_find (tt_release k tbl) j = (if j = k then None else tt_find tbl j)"
  using assms
  by (simp_all add: tt_updates tt_find_def tt_init_def tt_release_def kt.find_upd kt.find_ins kt.find_del)

lemma bounds_set:
  assumes "table_ok tbl"
  shows "get_lower j (set_lower k v tbl) = (if j = k \<and> tt_find tbl k \<noteq> None then v else get_lower j tbl)"
    "get_upper j (set_upper k v tbl) = (if j = k \<and> tt_find tbl k \<noteq> None then v else get_upper j tbl)"
    "tt_get_state j (tt_set_state k st tbl) = (if j = k \<and> tt_find tbl k \<noteq> None then st else tt_get_state j tbl)"
  using assms by (auto simp: get_lower_def get_upper_def tt_get_state_def tt_find_simps split: option.splits)

lemma bounds_frame [simp]:
  assumes "table_ok tbl"
  shows "get_upper j (set_lower k v tbl) = get_upper j tbl" "tt_get_state j (set_lower k v tbl) = tt_get_state j tbl"
    "get_lower j (set_upper k v tbl) = get_lower j tbl" "tt_get_state j (set_upper k v tbl) = tt_get_state j tbl"
    "get_lower j (tt_set_state k st tbl) = get_lower j tbl" "get_upper j (tt_set_state k st tbl) = get_upper j tbl"
    "tt_find (set_lower k v tbl) j = None \<longleftrightarrow> tt_find tbl j = None"
    "tt_find (set_upper k v tbl) j = None \<longleftrightarrow> tt_find tbl j = None"
    "tt_find (tt_set_state k st tbl) j = None \<longleftrightarrow> tt_find tbl j = None"
  using assms by (auto simp: get_lower_def get_upper_def tt_get_state_def tt_find_simps split: option.splits)

lemma running_entry: "tt_get_state j tbl = MAAT_RUNNING \<Longrightarrow> tt_find tbl j \<noteq> None"
  by (auto simp: tt_get_state_def split: option.splits)

section \<open>The loops of validation\<close>

text \<open>
  After the loop over the uncommitted writes the bound is below every decided writer, and every
  running writer above which it is not is remembered.
\<close>

lemma writes_loop_spec:
  assumes "writes_loop tbl is (upper, after) = (u, A)"
  shows "u \<le> upper \<and> after \<subseteq> A \<and> A \<subseteq> after \<union> {i \<in> set is. tt_get_state i tbl = MAAT_RUNNING} \<and>
    (\<forall>i\<in>set is. decided (tt_get_state i tbl) \<longrightarrow> u < get_lower i tbl \<or> u = 0) \<and>
    (\<forall>i\<in>set is. tt_get_state i tbl = MAAT_RUNNING \<longrightarrow> u < get_lower i tbl \<or> i \<in> A)"
  using assms
proof (induction "is" arbitrary: upper after)
  case (Cons i "is")
  let ?l = "get_lower i tbl" and ?st = "tt_get_state i tbl"
  define upper1 where "upper1 = (if upper \<ge> ?l \<and> decided ?st then (if ?l > 0 then ?l - 1 else ?l) else upper)"
  define after1 where "after1 = (if upper \<ge> ?l \<and> ?st = MAAT_RUNNING then insert i after else after)"
  have run: "writes_loop tbl is (upper1, after1) = (u, A)"
    using Cons.prems by (simp add: upper1_def after1_def Let_def split: if_splits)
  note IH = Cons.IH [OF run]
  have le: "upper1 \<le> upper"
    using word_dec(1) [of 0 ?l] by (auto simp: upper1_def word_gt_0 dest: order_trans [OF less_imp_le])
  have dec: "upper1 < ?l \<or> upper1 = 0" if "decided ?st"
    using that word_dec(1) [of 0 ?l] by (auto simp: upper1_def word_gt_0 not_le)
  have run: "upper1 < ?l \<or> i \<in> after1" if "?st = MAAT_RUNNING"
    using that by (auto simp: upper1_def after1_def decided_def not_le)
  have u: "u \<le> upper1" using IH by blast
  have "decided ?st \<longrightarrow> u < ?l \<or> u = 0" using dec u by (metis le_less_trans word_le_0_iff)
  moreover have "?st = MAAT_RUNNING \<longrightarrow> u < ?l \<or> i \<in> A" using run u IH by (meson le_less_trans subsetD)
  moreover have "u \<le> upper" using u le by (rule order_trans)
  moreover have "after \<subseteq> A" "A \<subseteq> after \<union> {j \<in> set (i # is). tt_get_state j tbl = MAAT_RUNNING}"
    using IH by (auto simp: after1_def split: if_splits)
  ultimately show ?case using IH by simp
qed simp

lemma reads_loop_spec:
  assumes "reads_loop tbl is (lower, before) = (l, B)"
  shows "lower \<le> l \<and> before \<subseteq> B \<and> B \<subseteq> before \<union> {i \<in> set is. tt_get_state i tbl = MAAT_RUNNING} \<and>
    (\<forall>i\<in>set is. decided (tt_get_state i tbl) \<longrightarrow> get_upper i tbl < l \<or> l = UINT64_MAX) \<and>
    (\<forall>i\<in>set is. tt_get_state i tbl = MAAT_RUNNING \<longrightarrow> get_upper i tbl < l \<or> i \<in> B) \<and>
    (l = lower \<or> l = UINT64_MAX \<or> (\<exists>i\<in>set is. get_upper i tbl \<noteq> UINT64_MAX \<and> l = get_upper i tbl + 1))"
  using assms
proof (induction "is" arbitrary: lower before)
  case (Cons i "is")
  let ?u = "get_upper i tbl" and ?st = "tt_get_state i tbl"
  define lower1 where "lower1 = (if lower \<le> ?u \<and> decided ?st then (if ?u < UINT64_MAX then ?u + 1 else ?u) else lower)"
  define before1 where "before1 = (if lower \<le> ?u \<and> ?st = MAAT_RUNNING then insert i before else before)"
  have run: "reads_loop tbl is (lower1, before1) = (l, B)"
    using Cons.prems by (simp add: lower1_def before1_def Let_def split: if_splits)
  note IH = Cons.IH [OF run]
  have le: "lower \<le> lower1"
    using word_inc(1) [of ?u UINT64_MAX] by (auto simp: lower1_def dest: order_trans [OF _ less_imp_le])
  have dec: "?u < lower1 \<or> lower1 = UINT64_MAX" if "decided ?st"
    using that word_inc(1) [of ?u UINT64_MAX] by (auto simp: lower1_def not_le word_less_max_iff)
  have run: "?u < lower1 \<or> i \<in> before1" if "?st = MAAT_RUNNING"
    using that by (auto simp: lower1_def before1_def decided_def not_le)
  have l: "lower1 \<le> l" using IH by blast
  have "decided ?st \<longrightarrow> ?u < l \<or> l = UINT64_MAX" using dec l by (metis less_le_trans word_order.extremum_uniqueI)
  moreover have "?st = MAAT_RUNNING \<longrightarrow> ?u < l \<or> i \<in> B" using run l IH by (meson less_le_trans subsetD)
  moreover have "lower \<le> l" using le l by (rule order_trans)
  moreover have "before \<subseteq> B" "B \<subseteq> before \<union> {j \<in> set (i # is). tt_get_state j tbl = MAAT_RUNNING}"
    using IH by (auto simp: before1_def split: if_splits)
  moreover have "lower1 = lower \<or> lower1 = UINT64_MAX \<or> ?u \<noteq> UINT64_MAX \<and> lower1 = ?u + 1"
    by (auto simp: lower1_def word_less_max_iff)
  ultimately show ?case using IH by auto
qed simp

lemma writes_y_loop_spec:
  assumes "writes_y_loop tbl is (lower, after) = (l, A)"
  shows "lower \<le> l \<and> after \<subseteq> A \<and> A \<subseteq> after \<union> {i \<in> set is. tt_get_state i tbl = MAAT_RUNNING} \<and>
    (\<forall>i\<in>set is. decided (tt_get_state i tbl) \<longrightarrow> get_upper i tbl < l \<or> l = UINT64_MAX) \<and>
    (\<forall>i\<in>set is. tt_get_state i tbl = MAAT_RUNNING \<longrightarrow> i \<in> A) \<and>
    (l = lower \<or> l = UINT64_MAX \<or> (\<exists>i\<in>set is. get_upper i tbl \<noteq> UINT64_MAX \<and> l = get_upper i tbl + 1))"
  using assms
proof (induction "is" arbitrary: lower after)
  case (Cons i "is")
  let ?u = "get_upper i tbl" and ?st = "tt_get_state i tbl"
  define lower1 where "lower1 = (if decided ?st \<and> lower \<le> ?u then (if ?u < UINT64_MAX then ?u + 1 else ?u) else lower)"
  define after1 where "after1 = (if ?st = MAAT_RUNNING then insert i after else after)"
  have run: "writes_y_loop tbl is (lower1, after1) = (l, A)"
    using Cons.prems by (cases ?st) (simp_all add: lower1_def after1_def Let_def decided_def)
  note IH = Cons.IH [OF run]
  have le: "lower \<le> lower1"
    using word_inc(1) [of ?u UINT64_MAX] by (auto simp: lower1_def dest: order_trans [OF _ less_imp_le])
  have dec: "?u < lower1 \<or> lower1 = UINT64_MAX" if "decided ?st"
    using that word_inc(1) [of ?u UINT64_MAX] by (auto simp: lower1_def not_le word_less_max_iff)
  have l: "lower1 \<le> l" using IH by blast
  have "decided ?st \<longrightarrow> ?u < l \<or> l = UINT64_MAX" using dec l by (metis less_le_trans word_order.extremum_uniqueI)
  moreover have "?st = MAAT_RUNNING \<longrightarrow> i \<in> A" using IH by (auto simp: after1_def)
  moreover have "lower \<le> l" using le l by (rule order_trans)
  moreover have "after \<subseteq> A" "A \<subseteq> after \<union> {j \<in> set (i # is). tt_get_state j tbl = MAAT_RUNNING}"
    using IH by (auto simp: after1_def split: if_splits)
  moreover have "lower1 = lower \<or> lower1 = UINT64_MAX \<or> ?u \<noteq> UINT64_MAX \<and> lower1 = ?u + 1"
    by (auto simp: lower1_def word_less_max_iff)
  ultimately show ?case using IH by auto
qed simp

lemma raise_lower_spec:
  assumes "lower < upper"
  shows "lower \<le> raise_lower tbl upper is lower \<and> raise_lower tbl upper is lower < upper \<and>
    (raise_lower tbl upper is lower = lower \<or>
     (\<exists>i\<in>set is. get_upper i tbl \<noteq> UINT64_MAX \<and> raise_lower tbl upper is lower = get_upper i tbl + 1))"
  using assms
proof (induction "is" arbitrary: lower)
  case (Cons i "is")
  let ?u = "get_upper i tbl"
  define lower1 where "lower1 = (if ?u > lower \<and> ?u < upper - 1 then ?u + 1 else lower)"
  have eq: "raise_lower tbl upper (i # is) lower = raise_lower tbl upper is lower1"
    by (simp add: lower1_def Let_def)
  have less: "lower1 < upper"
    using Cons.prems by (simp add: lower1_def word_inc_below)
  have le: "lower \<le> lower1"
    using word_inc(1) [of ?u "upper - 1"] by (auto simp: lower1_def dest: less_trans less_imp_le)
  have "lower1 = lower \<or> ?u \<noteq> UINT64_MAX \<and> lower1 = ?u + 1"
    by (auto simp: lower1_def word_less_max_iff [symmetric] intro: less_le_trans)
  then show ?case using Cons.IH [OF less] le unfolding eq by (auto intro: order_trans)
qed simp

lemma cut_before_spec:
  assumes "table_ok tbl" "0 < lower"
  shows "table_ok (cut_before lower is tbl) \<and>
    (\<forall>j. get_lower j (cut_before lower is tbl) = get_lower j tbl \<and>
         (tt_find (cut_before lower is tbl) j = None \<longleftrightarrow> tt_find tbl j = None) \<and>
         get_upper j (cut_before lower is tbl) \<le> get_upper j tbl \<and>
         (j \<in> set is \<and> tt_find tbl j \<noteq> None \<longrightarrow> get_upper j (cut_before lower is tbl) < lower))"
  using assms(1)
proof (induction "is" arbitrary: tbl)
  case (Cons i "is")
  define tbl1 where "tbl1 = (if get_upper i tbl \<ge> lower then set_upper i (if lower > 0 then lower - 1 else lower) tbl else tbl)"
  have ok: "table_ok tbl1" using Cons.prems by (simp add: tbl1_def)
  have up: "get_upper j tbl1 = (if j = i \<and> tt_find tbl i \<noteq> None \<and> get_upper i tbl \<ge> lower then lower - 1 else get_upper j tbl)" for j
    using Cons.prems assms(2) by (auto simp: tbl1_def bounds_set)
  have dec: "lower - 1 < lower" using word_dec(1) [OF assms(2)] .
  have fr: "get_lower j tbl1 = get_lower j tbl" "tt_find tbl1 j = None \<longleftrightarrow> tt_find tbl j = None" for j
    using Cons.prems by (simp_all add: tbl1_def)
  have le: "get_upper j tbl1 \<le> get_upper j tbl" for j
    using up [of j] dec by (auto dest: less_le_trans less_imp_le)
  have i: "get_upper i tbl1 < lower" if "tt_find tbl i \<noteq> None"
    using up [of i] dec that by (auto simp: not_le)
  have eq: "cut_before lower (i # is) tbl = cut_before lower is tbl1" by (simp add: tbl1_def)
  note IH = Cons.IH [OF ok]
  show ?case unfolding eq
  proof (intro conjI allI impI)
    show "table_ok (cut_before lower is tbl1)" using IH by blast
    fix j
    show "get_lower j (cut_before lower is tbl1) = get_lower j tbl"
      "tt_find (cut_before lower is tbl1) j = None \<longleftrightarrow> tt_find tbl j = None" using IH fr by auto
    have "get_upper j (cut_before lower is tbl1) \<le> get_upper j tbl1" using IH by blast
    then show "get_upper j (cut_before lower is tbl1) \<le> get_upper j tbl" using le by (rule order_trans)
    assume j: "j \<in> set (i # is) \<and> tt_find tbl j \<noteq> None"
    show "get_upper j (cut_before lower is tbl1) < lower"
    proof (cases "j \<in> set is")
      case True
      moreover have "tt_find tbl1 j \<noteq> None" using j fr(2) by simp
      ultimately show ?thesis using IH by blast
    next
      case False
      with j i have "get_upper j tbl1 < lower" by auto
      then show ?thesis using \<open>get_upper j (cut_before lower is tbl1) \<le> get_upper j tbl1\<close> by (rule le_less_trans [rotated])
    qed
  qed
qed simp

lemma reduce_upper_spec:
  assumes "lower < upper" "lower \<le> - 3"
  shows "reduce_upper tbl lower is upper \<le> upper \<and> lower < reduce_upper tbl lower is upper"
  using assms(1)
proof (induction "is" arbitrary: upper)
  case (Cons i "is")
  let ?l = "get_lower i tbl" and ?u = "get_upper i tbl"
  define upper1 where "upper1 = (if ?u \<noteq> UINT64_MAX \<and> ?u > lower + 2 \<and> ?u < upper then ?u - 2 else upper)"
  define upper2 where "upper2 = (if ?l < upper1 \<and> ?l > lower + 1 then ?l - 1 else upper1)"
  have eq: "reduce_upper tbl lower (i # is) upper = reduce_upper tbl lower is upper2"
    by (simp add: upper1_def upper2_def Let_def)
  have 1: "lower < upper1" "upper1 \<le> upper"
    using Cons.prems word_dec2_above [OF assms(2), of ?u] by (auto simp: upper1_def dest: less_trans less_imp_le)
  have 2: "lower < upper2" "upper2 \<le> upper1"
    using 1(1) word_dec_above [OF Cons.prems, of ?l] by (auto simp: upper2_def dest: less_trans less_imp_le)
  show ?case using Cons.IH [OF 2(1)] 2(2) 1(2) unfolding eq by (auto intro: order_trans)
qed simp

lemma cut_after_spec:
  assumes "table_ok tbl"
  shows "table_ok (cut_after upper is tbl) \<and>
    (\<forall>j. get_upper j (cut_after upper is tbl) = get_upper j tbl \<and>
         (tt_find (cut_after upper is tbl) j = None \<longleftrightarrow> tt_find tbl j = None) \<and>
         get_lower j tbl \<le> get_lower j (cut_after upper is tbl) \<and>
         (j \<in> set is \<and> tt_find tbl j \<noteq> None \<longrightarrow> upper < get_lower j (cut_after upper is tbl) \<or> get_lower j (cut_after upper is tbl) = UINT64_MAX))"
  using assms
proof (induction "is" arbitrary: tbl)
  case (Cons i "is")
  define v where "v = (if upper < UINT64_MAX then upper + 1 else upper)"
  define tbl1 where "tbl1 = (if get_lower i tbl \<le> upper then set_lower i v tbl else tbl)"
  have ok: "table_ok tbl1" using Cons.prems by (simp add: tbl1_def)
  have lo: "get_lower j tbl1 = (if j = i \<and> tt_find tbl i \<noteq> None \<and> get_lower i tbl \<le> upper then v else get_lower j tbl)" for j
    using Cons.prems by (auto simp: tbl1_def bounds_set)
  have v: "upper \<le> v" "upper < v \<or> v = UINT64_MAX"
    using word_inc(1) [of upper UINT64_MAX] by (auto simp: v_def word_less_max_iff)
  have fr: "get_upper j tbl1 = get_upper j tbl" "tt_find tbl1 j = None \<longleftrightarrow> tt_find tbl j = None" for j
    using Cons.prems by (simp_all add: tbl1_def)
  have le: "get_lower j tbl \<le> get_lower j tbl1" for j
    using lo [of j] v(1) by (auto intro: order_trans)
  have i: "upper < get_lower i tbl1 \<or> get_lower i tbl1 = UINT64_MAX" if "tt_find tbl i \<noteq> None"
    using lo [of i] v(2) that by (auto simp: not_le)
  have eq: "cut_after upper (i # is) tbl = cut_after upper is tbl1" by (simp add: tbl1_def v_def)
  note IH = Cons.IH [OF ok]
  show ?case unfolding eq
  proof (intro conjI allI impI)
    show "table_ok (cut_after upper is tbl1)" using IH by blast
    fix j
    show "get_upper j (cut_after upper is tbl1) = get_upper j tbl"
      "tt_find (cut_after upper is tbl1) j = None \<longleftrightarrow> tt_find tbl j = None" using IH fr by auto
    have ge: "get_lower j tbl1 \<le> get_lower j (cut_after upper is tbl1)" using IH by blast
    with le show "get_lower j tbl \<le> get_lower j (cut_after upper is tbl1)" by (rule order_trans)
    assume j: "j \<in> set (i # is) \<and> tt_find tbl j \<noteq> None"
    show "upper < get_lower j (cut_after upper is tbl1) \<or> get_lower j (cut_after upper is tbl1) = UINT64_MAX"
    proof (cases "j \<in> set is")
      case True
      moreover have "tt_find tbl1 j \<noteq> None" using j fr(2) by simp
      ultimately show ?thesis using IH by blast
    next
      case False
      with j i have "upper < get_lower j tbl1 \<or> get_lower j tbl1 = UINT64_MAX" by auto
      then show ?thesis using ge by (metis less_le_trans word_order.extremum_unique)
    qed
  qed
qed simp

section \<open>Validation as a whole\<close>

text \<open>The timestamps are far enough from the end of their range that no increment wraps around.\<close>

definition maat_bounded :: "maat_txn \<Rightarrow> time_table \<Rightarrow> bool" where
  "maat_bounded T tbl \<longleftrightarrow> greatest_write_timestamp T < - 3 \<and> greatest_read_timestamp T < - 3 \<and>
     get_lower (ma_txn_id T) tbl \<le> - 3 \<and> (\<forall>i. get_upper i tbl = UINT64_MAX \<or> get_upper i tbl < - 3)"

definition maat_sets_finite :: "maat_txn \<Rightarrow> bool" where
  "maat_sets_finite T \<longleftrightarrow> finite (uncommitted_writes T) \<and> finite (uncommitted_reads T) \<and> finite (uncommitted_writes_y T)"

text \<open>
  What the first part of \<open>validate\<close> computes: a range \<open>[l, u]\<close>, the running transactions \<open>before\<close> and
  \<open>after\<close>, and how they relate to the sets of the transaction.
\<close>

definition maat_range_ok :: "maat_txn \<Rightarrow> time_table \<Rightarrow> 64 word \<Rightarrow> 64 word \<Rightarrow> 64 word set \<Rightarrow> 64 word set \<Rightarrow> bool" where
  "maat_range_ok T tbl l u before after \<longleftrightarrow>
     finite before \<and> finite after \<and>
     greatest_write_timestamp T < l \<and> greatest_read_timestamp T < l \<and> (l \<le> - 3 \<or> l = UINT64_MAX) \<and>
     (\<forall>i\<in>before \<union> after. tt_get_state i tbl = MAAT_RUNNING) \<and>
     (\<forall>i\<in>uncommitted_writes T. decided (tt_get_state i tbl) \<longrightarrow> u < get_lower i tbl \<or> u = 0) \<and>
     (\<forall>i\<in>uncommitted_reads T \<union> uncommitted_writes_y T. decided (tt_get_state i tbl) \<longrightarrow> get_upper i tbl < l \<or> l = UINT64_MAX) \<and>
     (\<forall>i\<in>uncommitted_writes T. tt_get_state i tbl = MAAT_RUNNING \<longrightarrow> u < get_lower i tbl \<or> i \<in> after) \<and>
     (\<forall>i\<in>uncommitted_writes_y T. tt_get_state i tbl = MAAT_RUNNING \<longrightarrow> i \<in> after) \<and>
     (\<forall>i\<in>uncommitted_reads T. tt_get_state i tbl = MAAT_RUNNING \<longrightarrow> get_upper i tbl < l \<or> i \<in> before)"

lemma raise_above:
  assumes "(g :: 64 word) < - 3" "x \<le> - 3"
  defines "y \<equiv> if x \<le> g then g + 1 else x"
  shows "g < y" "x \<le> y" "y \<le> - 3"
proof -
  show "g < y" using word_inc(1) [OF assms(1)] by (simp add: y_def not_le)
  show "x \<le> y" using word_inc(1) [OF assms(1)] by (auto simp: y_def dest: le_less_trans less_imp_le)
  show "y \<le> - 3" using assms(2) word_inc(2) [OF assms(1)] by (simp add: y_def)
qed

lemma maat_range_spec:
  assumes fin: "maat_sets_finite T" and bnd: "maat_bounded T tbl"
  obtains l u before after where "maat_range T tbl = (l, u, before, after)" "maat_range_ok T tbl l u before after"
proof -
  let ?k = "ma_txn_id T" and ?gw = "greatest_write_timestamp T" and ?gr = "greatest_read_timestamp T"
  define l1 where "l1 = (if get_lower ?k tbl \<le> ?gw then ?gw + 1 else get_lower ?k tbl)"
  define l2 where "l2 = (if l1 \<le> ?gr then ?gr + 1 else l1)"
  obtain u A1 where w: "writes_loop tbl (sorted_list_of_set (uncommitted_writes T)) (get_upper ?k tbl, {}) = (u, A1)" by fastforce
  obtain l3 B where r: "reads_loop tbl (sorted_list_of_set (uncommitted_reads T)) (l2, {}) = (l3, B)" by fastforce
  obtain l A where y: "writes_y_loop tbl (sorted_list_of_set (uncommitted_writes_y T)) (l3, A1) = (l, A)" by fastforce
  have f: "finite (uncommitted_writes T)" "finite (uncommitted_reads T)" "finite (uncommitted_writes_y T)"
    using fin by (simp_all add: maat_sets_finite_def)
  note W = writes_loop_spec [OF w] and R = reads_loop_spec [OF r] and Y = writes_y_loop_spec [OF y]
  note W = W [unfolded set_sorted_list_of_set [OF f(1)]] and R = R [unfolded set_sorted_list_of_set [OF f(2)]]
    and Y = Y [unfolded set_sorted_list_of_set [OF f(3)]]
  have b: "?gw < - 3" "?gr < - 3" "get_lower ?k tbl \<le> - 3" "get_upper i tbl = UINT64_MAX \<or> get_upper i tbl < - 3" for i
    using bnd by (auto simp: maat_bounded_def)
  note 1 = raise_above [OF b(1,3), folded l1_def]
  note 2 = raise_above [OF b(2) 1(3), folded l2_def]
  have up: "get_upper i tbl + 1 \<le> - 3" if "get_upper i tbl \<noteq> UINT64_MAX" for i
    using b(4) [of i] that word_inc(2) by blast
  have l3: "l3 \<le> - 3 \<or> l3 = UINT64_MAX" using R 2(3) up by metis
  then have l: "l \<le> - 3 \<or> l = UINT64_MAX" using Y up by metis
  have ge: "l2 \<le> l3" "l3 \<le> l" using R Y by blast+
  have g: "?gw < l" "?gr < l" using 1(1) 2(1,2) ge by (meson less_le_trans)+
  have dec: "get_upper i tbl < l \<or> l = UINT64_MAX" if "i \<in> uncommitted_reads T" "decided (tt_get_state i tbl)" for i
  proof -
    have "get_upper i tbl < l3 \<or> l3 = UINT64_MAX" using that R by blast
    then show ?thesis
    proof
      assume "get_upper i tbl < l3"
      then show ?thesis using ge(2) by (blast intro: less_le_trans)
    next
      assume "l3 = UINT64_MAX"
      then show ?thesis using ge(2) by (simp add: word_order.extremum_unique)
    qed
  qed
  have rdr: "get_upper i tbl < l \<or> i \<in> B" if "i \<in> uncommitted_reads T" "tt_get_state i tbl = MAAT_RUNNING" for i
  proof -
    have "get_upper i tbl < l3 \<or> i \<in> B" using that R by blast
    then show ?thesis using ge(2) by (blast intro: less_le_trans)
  qed
  have A1: "A1 \<subseteq> {i \<in> uncommitted_writes T. tt_get_state i tbl = MAAT_RUNNING}" using W by simp
  have B: "B \<subseteq> {i \<in> uncommitted_reads T. tt_get_state i tbl = MAAT_RUNNING}" using R by simp
  have A: "A \<subseteq> A1 \<union> {i \<in> uncommitted_writes_y T. tt_get_state i tbl = MAAT_RUNNING}" "A1 \<subseteq> A" using Y by simp_all
  have "finite B" by (rule finite_subset [OF B]) (simp add: f(2))
  moreover have "finite A1" by (rule finite_subset [OF A1]) (simp add: f(1))
  then have "finite A" by (intro finite_subset [OF A(1)]) (simp add: f(3))
  moreover have "\<forall>i\<in>B \<union> A. tt_get_state i tbl = MAAT_RUNNING" using A1 B A(1) by blast
  moreover have "\<forall>i\<in>uncommitted_writes T. decided (tt_get_state i tbl) \<longrightarrow> u < get_lower i tbl \<or> u = 0"
    using W by simp
  moreover have dy: "\<forall>i\<in>uncommitted_writes_y T. decided (tt_get_state i tbl) \<longrightarrow> get_upper i tbl < l \<or> l = UINT64_MAX"
    using Y by simp
  have "\<forall>i\<in>uncommitted_reads T \<union> uncommitted_writes_y T. decided (tt_get_state i tbl) \<longrightarrow> get_upper i tbl < l \<or> l = UINT64_MAX"
    using dy dec by blast
  moreover have "\<forall>i\<in>uncommitted_writes T. tt_get_state i tbl = MAAT_RUNNING \<longrightarrow> u < get_lower i tbl \<or> i \<in> A1"
    using W by simp
  then have "\<forall>i\<in>uncommitted_writes T. tt_get_state i tbl = MAAT_RUNNING \<longrightarrow> u < get_lower i tbl \<or> i \<in> A"
    using A(2) by blast
  moreover have "\<forall>i\<in>uncommitted_writes_y T. tt_get_state i tbl = MAAT_RUNNING \<longrightarrow> i \<in> A" using Y by simp
  moreover have "\<forall>i\<in>uncommitted_reads T. tt_get_state i tbl = MAAT_RUNNING \<longrightarrow> get_upper i tbl < l \<or> i \<in> B"
    using rdr by blast
  ultimately have "maat_range_ok T tbl l u B A" using g l unfolding maat_range_ok_def by (intro conjI)
  moreover have "maat_range T tbl = (l, u, B, A)"
    unfolding maat_range_def Let_def by (simp only: l1_def [symmetric] l2_def [symmetric] w r y prod.case)
  ultimately show thesis by (intro that)
qed

lemma maat_decide_ok:
  assumes ok: "table_ok tbl" and k: "tt_find tbl k \<noteq> None" and bnd: "maat_bounded T tbl"
    and rng: "maat_range_ok T tbl l u before after" and less: "l < u"
  shows "\<exists>lower upper tbl'. maat_decide k (l, u, before, after) tbl = Inr (RCOK, tbl') \<and> table_ok tbl' \<and>
    get_lower k tbl' = lower \<and> get_upper k tbl' = upper \<and> l \<le> lower \<and> lower < upper \<and> upper \<le> u \<and>
    (\<forall>j. j \<noteq> k \<longrightarrow> get_lower j tbl \<le> get_lower j tbl' \<and> get_upper j tbl' \<le> get_upper j tbl) \<and>
    (\<forall>j\<in>before. j \<noteq> k \<longrightarrow> get_upper j tbl' < lower) \<and>
    (\<forall>j\<in>after. j \<noteq> k \<longrightarrow> upper < get_lower j tbl' \<or> get_lower j tbl' = UINT64_MAX)"
proof -
  define tbl1 where "tbl1 = tt_set_state k MAAT_VALIDATED tbl"
  define bs where "bs = sorted_list_of_set before"
  define as where "as = sorted_list_of_set after"
  define lower where "lower = raise_lower tbl1 u bs l"
  define tbl2 where "tbl2 = cut_before lower bs tbl1"
  define upper where "upper = reduce_upper tbl2 lower as u"
  define tbl3 where "tbl3 = cut_after upper as tbl2"
  define tbl' where "tbl' = set_upper k upper (set_lower k lower tbl3)"
  have r: "finite before" "finite after" "greatest_write_timestamp T < l" "l \<le> - 3 \<or> l = UINT64_MAX"
    "\<forall>i\<in>before \<union> after. tt_get_state i tbl = MAAT_RUNNING"
    using rng by (simp_all add: maat_range_ok_def)
  have sets: "set bs = before" "set as = after" using r(1,2) by (simp_all add: bs_def as_def)
  have ok1: "table_ok tbl1" using ok by (simp add: tbl1_def)
  have same: "get_lower j tbl1 = get_lower j tbl" "get_upper j tbl1 = get_upper j tbl"
    "tt_find tbl1 j = None \<longleftrightarrow> tt_find tbl j = None" for j
    using ok by (simp_all add: tbl1_def)
  note L = raise_lower_spec [OF less, of tbl1 bs, folded lower_def]
  have pos: "0 < lower" using r(3) L by (meson le_less_trans less_le_trans word_zero_le)
  note C = cut_before_spec [OF ok1 pos, of bs, folded tbl2_def]
  have small: "lower \<le> - 3"
  proof -
    have "l \<noteq> UINT64_MAX" using less word_order.extremum_strict by auto
    moreover have "get_upper i tbl1 + 1 \<le> - 3" if "get_upper i tbl1 \<noteq> UINT64_MAX" for i
      using bnd that word_inc(2) unfolding maat_bounded_def same(2) by blast
    ultimately show ?thesis using L r(4) by metis
  qed
  have lu: "lower < u" "l \<le> lower" using L by simp_all
  note U = reduce_upper_spec [OF lu(1) small, of tbl2 as, folded upper_def]
  have ok2: "table_ok tbl2" using C by simp
  note D = cut_after_spec [OF ok2, of upper as, folded tbl3_def]
  have ok3: "table_ok tbl3" using D by simp
  have find: "tt_find tbl2 j = None \<longleftrightarrow> tt_find tbl j = None" "tt_find tbl3 j = None \<longleftrightarrow> tt_find tbl j = None" for j
    using C D same(3) by simp_all
  have run: "maat_decide k (l, u, before, after) tbl = Inr (RCOK, tbl')"
    using less U by (simp add: maat_decide_def Let_def tbl1_def [symmetric] bs_def [symmetric] as_def [symmetric]
        lower_def [symmetric] tbl2_def [symmetric] upper_def [symmetric] tbl3_def [symmetric] tbl'_def [symmetric]
        assert_that_def)
  have own: "get_lower k tbl' = lower" "get_upper k tbl' = upper" "table_ok tbl'"
    using ok3 k find(2) by (simp_all add: tbl'_def bounds_set)
  have other: "get_lower j tbl' = get_lower j tbl3" "get_upper j tbl' = get_upper j tbl3" if "j \<noteq> k" for j
    using ok3 that by (simp_all add: tbl'_def bounds_set)
  have entry: "tt_find tbl j \<noteq> None" if "j \<in> before \<union> after" for j
    using r(5) that running_entry by blast
  have mono: "get_lower j tbl \<le> get_lower j tbl3" "get_upper j tbl3 \<le> get_upper j tbl" for j
    using C D same by simp_all
  have b: "get_upper j tbl3 < lower" if "j \<in> before" for j
    using C D that sets(1) entry same(3) by simp
  have a: "upper < get_lower j tbl3 \<or> get_lower j tbl3 = UINT64_MAX" if "j \<in> after" for j
    using D that sets(2) entry find(1) by simp
  show ?thesis
    using run own lu U other mono b a
    by (intro exI [of _ lower] exI [of _ upper] exI [of _ tbl']) simp
qed

section \<open>Forward validation\<close>



section \<open>Properties\<close>

text \<open>
  Claim C24. When the timestamps stay clear of the end of their range (\<open>maat_bounded\<close>), a successful validation puts
  the transaction between its neighbours: its range is not empty and above the last committed reads
  and writes it depends on; it is above the ranges of the readers it must follow, decided or still running,
  and of the decided writers it must follow, and below the ranges of the writers it must precede, decided
  or still running. When its range reaches the largest timestamp, a running writer that must follow is left with
  the lower bound \<open>UINT64_MAX\<close>, that is with no range.
\<close>

theorem maat_validate_orders:
  assumes "table_ok tbl" "tt_find tbl (ma_txn_id T) \<noteq> None" "maat_sets_finite T" "maat_bounded T tbl"
    and "maat_validate T tbl = Inr (RCOK, tbl')"
    and "l = get_lower (ma_txn_id T) tbl'" "u = get_upper (ma_txn_id T) tbl'"
  shows "l < u \<and> greatest_write_timestamp T < l \<and> greatest_read_timestamp T < l \<and>
    (\<forall>i\<in>uncommitted_reads T - {ma_txn_id T}. tt_get_state i tbl \<noteq> MAAT_ABORTED \<longrightarrow> get_upper i tbl' < l) \<and>
    (\<forall>i\<in>uncommitted_writes_y T - {ma_txn_id T}. decided (tt_get_state i tbl) \<longrightarrow> get_upper i tbl' < l) \<and>
    (\<forall>i\<in>uncommitted_writes T - {ma_txn_id T}. decided (tt_get_state i tbl) \<longrightarrow> u < get_lower i tbl') \<and>
    (\<forall>i\<in>uncommitted_writes T \<union> uncommitted_writes_y T - {ma_txn_id T}. tt_get_state i tbl = MAAT_RUNNING \<longrightarrow>
       u < get_lower i tbl' \<or> get_lower i tbl' = UINT64_MAX)"
proof -
  let ?k = "ma_txn_id T"
  obtain l0 u0 B A where rng: "maat_range T tbl = (l0, u0, B, A)" and r: "maat_range_ok T tbl l0 u0 B A"
    by (rule maat_range_spec [OF assms(3,4)])
  have less: "l0 < u0"
    using assms(5) rng by (simp add: maat_validate_def maat_decide_def not_le [symmetric] split: if_splits)
  have run: "maat_decide ?k (l0, u0, B, A) tbl = Inr (RCOK, tbl')" using assms(5) by (simp add: maat_validate_def rng)
  have d: "l0 \<le> l" "l < u" "u \<le> u0"
    "\<And>j. j \<noteq> ?k \<Longrightarrow> get_lower j tbl \<le> get_lower j tbl'" "\<And>j. j \<noteq> ?k \<Longrightarrow> get_upper j tbl' \<le> get_upper j tbl"
    "\<And>j. j \<in> B \<Longrightarrow> j \<noteq> ?k \<Longrightarrow> get_upper j tbl' < l"
    "\<And>j. j \<in> A \<Longrightarrow> j \<noteq> ?k \<Longrightarrow> u < get_lower j tbl' \<or> get_lower j tbl' = UINT64_MAX"
    using maat_decide_ok [OF assms(1,2,4) r less] run assms(6,7) by auto
  have ne: "l0 \<noteq> UINT64_MAX" "u0 \<noteq> 0" using less word_order.extremum_strict by auto
  have below: "get_upper i tbl' < l" if "i \<noteq> ?k" "get_upper i tbl < l0" for i
    using d(5) [OF that(1)] that(2) d(1) by (meson le_less_trans less_le_trans)
  have above: "u < get_lower i tbl'" if "i \<noteq> ?k" "u0 < get_lower i tbl" for i
    using d(4) [OF that(1)] that(2) d(3) by (meson le_less_trans less_le_trans)
  show ?thesis
  proof (intro conjI ballI impI)
    show "l < u" by (rule d(2))
    show "greatest_write_timestamp T < l" "greatest_read_timestamp T < l"
      using r d(1) unfolding maat_range_ok_def by (meson less_le_trans)+
    show "get_upper i tbl' < l" if "i \<in> uncommitted_reads T - {?k}" "tt_get_state i tbl \<noteq> MAAT_ABORTED" for i
    proof (cases "decided (tt_get_state i tbl)")
      case True
      with that r ne(1) have "get_upper i tbl < l0" by (auto simp: maat_range_ok_def)
      with that below show ?thesis by blast
    next
      case False
      with that(2) have "tt_get_state i tbl = MAAT_RUNNING" by (cases "tt_get_state i tbl") (simp_all add: decided_def)
      with that(1) r have "get_upper i tbl < l0 \<or> i \<in> B" by (simp add: maat_range_ok_def)
      with that(1) below d(6) show ?thesis by blast
    qed
    show "get_upper i tbl' < l" if "i \<in> uncommitted_writes_y T - {?k}" "decided (tt_get_state i tbl)" for i
    proof -
      have "get_upper i tbl < l0" using that r ne(1) by (auto simp: maat_range_ok_def)
      with that below show ?thesis by blast
    qed
    show "u < get_lower i tbl'" if "i \<in> uncommitted_writes T - {?k}" "decided (tt_get_state i tbl)" for i
    proof -
      have "u0 < get_lower i tbl" using that r ne(2) by (auto simp: maat_range_ok_def)
      with that above show ?thesis by blast
    qed
    show "u < get_lower i tbl' \<or> get_lower i tbl' = UINT64_MAX"
      if "i \<in> uncommitted_writes T \<union> uncommitted_writes_y T - {?k}" "tt_get_state i tbl = MAAT_RUNNING" for i
    proof -
      have "u0 < get_lower i tbl \<or> i \<in> A" using that r by (auto simp: maat_range_ok_def)
      with that(1) above d(7) show ?thesis by blast
    qed
  qed
qed

text \<open>
  A table with the transaction itself (1), a running writer (2) and a committed reader (3).
\<close>

definition sample_time_table :: "64 word \<Rightarrow> 64 word \<Rightarrow> time_table" where
  "sample_time_table lower2 upper2 =
    [[], [(1, tt_entry_init)], [(2, \<lparr>tt_lower = lower2, tt_upper = upper2, tt_state = MAAT_RUNNING\<rparr>)],
     [(3, \<lparr>tt_lower = 4, tt_upper = 6, tt_state = MAAT_COMMITTED\<rparr>)]]"

definition sample_maat_txn :: "64 word \<Rightarrow> maat_txn" where
  "sample_maat_txn gw = \<lparr>ma_txn_id = 1, greatest_write_timestamp = gw, greatest_read_timestamp = 0,
     uncommitted_writes = {2}, uncommitted_writes_y = {}, uncommitted_reads = {3}, ma_commit_timestamp = 0\<rparr>"

lemma less_4_cases:
  "(n :: nat) < 4 \<longleftrightarrow> n = 0 \<or> n = 1 \<or> n = 2 \<or> n = 3"
  "n < Suc (Suc (Suc (Suc 0))) \<longleftrightarrow> n = 0 \<or> n = 1 \<or> n = 2 \<or> n = 3"
  by auto

lemma sample_time_table_ok: "table_ok (sample_time_table l2 u2)"
  by (auto simp: table_ok_def sample_time_table_def table_hash_def less_4_cases)

lemmas maat_eval =
  maat_validate_def maat_range_def maat_decide_def get_lower_def get_upper_def tt_get_state_def tt_find_def
  table_find_def table_hash_def sample_time_table_def sample_maat_txn_def tt_entry_init_def decided_def
  tt_updates table_update_def assert_that_def Let_def word_order.extremum_unique word_less_max_iff

lemma sample_upper: "get_upper i (sample_time_table l2 UINT64_MAX) = UINT64_MAX \<or> get_upper i (sample_time_table l2 UINT64_MAX) < - 3"
proof -
  have "bucket_find (sample_time_table l2 UINT64_MAX ! n) i = None \<or>
      tt_upper (the (bucket_find (sample_time_table l2 UINT64_MAX ! n) i)) \<in> {UINT64_MAX, 6}" if "n < 4" for n
    using that by (auto simp: sample_time_table_def less_4_cases tt_entry_init_def split: if_splits)
  from this [of "table_hash (sample_time_table l2 UINT64_MAX) i"] show ?thesis
    by (auto simp: get_upper_def tt_find_def table_find_def table_hash_def sample_time_table_def split: option.splits)
qed

theorem maat_validate_orders_witness:
  "\<exists>tbl'. maat_validate (sample_maat_txn 2) (sample_time_table 20 UINT64_MAX) = Inr (RCOK, tbl') \<and>
     get_lower 1 tbl' = 7 \<and> get_upper 1 tbl' = 19 \<and> get_upper 3 tbl' < 7 \<and> 19 < get_lower 2 tbl'"
proof -
  let ?T = "sample_maat_txn 2" and ?tbl = "sample_time_table 20 UINT64_MAX"
  obtain tbl' where v: "maat_validate ?T ?tbl = Inr (RCOK, tbl')" "get_lower 1 tbl' = 7" "get_upper 1 tbl' = 19"
    by (simp add: maat_eval)
  have "tt_find ?tbl 1 \<noteq> None" "get_lower 1 ?tbl = 0" by (simp_all add: maat_eval)
  then have pre: "tt_find ?tbl (ma_txn_id ?T) \<noteq> None" "maat_sets_finite ?T" "maat_bounded ?T ?tbl"
    using sample_upper [of _ 20] by (simp_all add: maat_sets_finite_def maat_bounded_def sample_maat_txn_def word_gt_0)
  have "tt_get_state 3 ?tbl \<noteq> MAAT_ABORTED" "tt_get_state 2 ?tbl = MAAT_RUNNING" by (simp_all add: maat_eval)
  with maat_validate_orders [OF sample_time_table_ok pre v(1) refl refl] v(2,3)
  have "get_upper 3 tbl' < 7 \<and> (19 < get_lower 2 tbl')" by (auto simp: sample_maat_txn_def word_less_max_iff)
  with v show ?thesis by blast
qed

text \<open>
  Claim C32. Validation always returns (its assertion cannot fail) when the timestamps stay clear of the end of
  their range, and an abort leaves the ranges and states of all other transactions as they were.
\<close>

theorem maat_validate_returns:
  assumes "table_ok tbl" "tt_find tbl (ma_txn_id T) \<noteq> None" "maat_sets_finite T" "maat_bounded T tbl"
  shows "\<exists>tbl'. maat_validate T tbl = Inr (RCOK, tbl') \<or>
    maat_validate T tbl = Inr (Abort, tbl') \<and> tt_get_state (ma_txn_id T) tbl' = MAAT_ABORTED \<and>
    (\<forall>j. j \<noteq> ma_txn_id T \<longrightarrow> tt_find tbl' j = tt_find tbl j)"
proof -
  let ?k = "ma_txn_id T"
  obtain l u B A where rng: "maat_range T tbl = (l, u, B, A)" and r: "maat_range_ok T tbl l u B A"
    by (rule maat_range_spec [OF assms(3,4)])
  show ?thesis
  proof (cases "l < u")
    case True
    from maat_decide_ok [OF assms(1,2,4) r True] show ?thesis by (auto simp: maat_validate_def rng)
  next
    case False
    then have "u \<le> l" by (rule leI)
    then have "maat_validate T tbl = Inr (Abort, set_upper ?k u (set_lower ?k l (tt_set_state ?k MAAT_ABORTED tbl)))"
      by (simp add: maat_validate_def maat_decide_def rng)
    then show ?thesis using assms(1,2) by (simp add: bounds_set tt_find_simps)
  qed
qed

text \<open>The last committed write is not below the committed reader's range: nothing is left and it aborts.\<close>

theorem maat_validate_returns_witness:
  "\<exists>tbl'. maat_validate (sample_maat_txn 2) ((sample_time_table 20 UINT64_MAX)[2 := [(2, \<lparr>tt_lower = 5, tt_upper = 6, tt_state = MAAT_COMMITTED\<rparr>)]]) =
      Inr (Abort, tbl') \<and> tt_get_state 1 tbl' = MAAT_ABORTED"
proof -
  let ?T = "sample_maat_txn 2" and ?tbl = "(sample_time_table 20 UINT64_MAX)[2 := [(2, \<lparr>tt_lower = 5, tt_upper = 6, tt_state = MAAT_COMMITTED\<rparr>)]]"
  have ok: "table_ok ?tbl"
    by (auto simp: table_ok_def sample_time_table_def table_hash_def less_4_cases)
  have up: "get_upper i ?tbl = UINT64_MAX \<or> get_upper i ?tbl < - 3" for i
  proof -
    have "bucket_find (?tbl ! n) i = None \<or> tt_upper (the (bucket_find (?tbl ! n) i)) \<in> {UINT64_MAX, 6}" if "n < 4" for n
      using that by (auto simp: sample_time_table_def less_4_cases tt_entry_init_def split: if_splits)
    from this [of "table_hash ?tbl i"] show ?thesis
      by (auto simp: get_upper_def tt_find_def table_find_def table_hash_def sample_time_table_def split: option.splits)
  qed
  moreover have "tt_find ?tbl 1 \<noteq> None" "get_lower 1 ?tbl = 0" by (simp_all add: maat_eval)
  ultimately have pre: "tt_find ?tbl (ma_txn_id ?T) \<noteq> None" "maat_sets_finite ?T" "maat_bounded ?T ?tbl"
    by (simp_all add: maat_sets_finite_def maat_bounded_def sample_maat_txn_def word_gt_0)
  have "\<exists>tbl'. maat_validate ?T ?tbl = Inr (Abort, tbl')" by (simp add: maat_eval)
  with maat_validate_returns [OF ok pre] show ?thesis by (auto simp: sample_maat_txn_def)
qed





end
