(* ===== verification/SiloRow.thy ===== *)
theory SiloRow
imports Interfaces
begin

text \<open>
  The row of Silo (\<open>row_silo.cpp\<close>) in its two forms: a mutex and a transaction id (\<open>ATOMIC_WORD\<close> off,
  as configured), and one word that packs a lock bit into the id. The second refines the first.
  The theory also holds the bubble sort that puts a write set into primary-key order.
\<close>

unbundle bit_operations_syntax

section \<open>Sorting the write set\<close>

text \<open>The inner loop over \<open>j\<close> and the outer loop over \<open>i\<close> of the bubble sort on the index array.\<close>

function bubble_pass :: "('a \<Rightarrow> 64 word) \<Rightarrow> nat \<Rightarrow> nat \<Rightarrow> 'a list \<Rightarrow> 'a list" where
  "bubble_pass key i j xs =
    (if j < i then
       bubble_pass key i (Suc j)
         (if key (xs ! j) > key (xs ! Suc j) then xs[j := xs ! Suc j, Suc j := xs ! j] else xs)
     else xs)"
  by pat_completeness auto
termination
  by (relation "measure (\<lambda>(_, i, j, _). i - j)") auto

declare bubble_pass.simps [simp del]

fun bubble_rounds :: "('a \<Rightarrow> 64 word) \<Rightarrow> nat \<Rightarrow> 'a list \<Rightarrow> 'a list" where
  "bubble_rounds key 0 xs = xs"
| "bubble_rounds key (Suc i) xs = bubble_rounds key i (bubble_pass key (Suc i) 0 xs)"

definition bubble_sort :: "('a \<Rightarrow> 64 word) \<Rightarrow> 'a list \<Rightarrow> 'a list" where
  "bubble_sort key xs = (if length xs > 1 then bubble_rounds key (length xs - 1) xs else xs)"

lemma length_bubble_pass [simp]: "length (bubble_pass key i j xs) = length xs"
proof (induction key i j xs rule: bubble_pass.induct)
  case (1 key i j xs)
  then show ?case by (subst bubble_pass.simps) (simp split: if_splits)
qed

lemma take_swap:
  assumes "Suc j < n" "n \<le> length xs"
  shows "mset (take n (xs[j := xs ! Suc j, Suc j := xs ! j])) = mset (take n xs)"
proof -
  have "take n (xs[j := xs ! Suc j, Suc j := xs ! j]) =
      (take n xs)[j := take n xs ! Suc j, Suc j := take n xs ! j]"
    using assms by (simp add: take_update_swap)
  with assms show ?thesis using mset_swap [of "Suc j" "take n xs" j] by simp
qed

text \<open>A pass permutes the first \<open>i + 1\<close> elements, keeps the others and moves a largest one to \<open>i\<close>.\<close>

lemma bubble_pass_spec:
  assumes "i < length xs" "j \<le> i" "\<forall>m<j. key (xs ! m) \<le> key (xs ! j)"
  shows "mset (take (Suc i) (bubble_pass key i j xs)) = mset (take (Suc i) xs) \<and>
    drop (Suc i) (bubble_pass key i j xs) = drop (Suc i) xs \<and>
    (\<forall>m\<le>i. key (bubble_pass key i j xs ! m) \<le> key (bubble_pass key i j xs ! i))"
  using assms
proof (induction key i j xs rule: bubble_pass.induct)
  case (1 key i j xs)
  show ?case
  proof (cases "j < i")
    case True
    define ys where "ys = (if key (xs ! j) > key (xs ! Suc j) then xs[j := xs ! Suc j, Suc j := xs ! j] else xs)"
    have eq: "bubble_pass key i j xs = bubble_pass key i (Suc j) ys"
      using True by (subst bubble_pass.simps) (simp add: ys_def)
    have len: "length ys = length xs" by (simp add: ys_def)
    have ms: "mset (take (Suc i) ys) = mset (take (Suc i) xs)" "drop (Suc i) ys = drop (Suc i) xs"
      using True 1(2) take_swap [of j "Suc i" xs] by (simp_all add: ys_def)
    have "key (ys ! m) \<le> key (ys ! Suc j)" if "m < Suc j" for m
    proof (cases "m = j")
      case True
      then show ?thesis using \<open>j < i\<close> 1(2) by (simp add: ys_def nth_list_update not_less less_imp_le)
    next
      case False
      with that have "m < j" by simp
      then have "key (xs ! m) \<le> key (xs ! j)" using 1(4) by simp
      then show ?thesis
        using \<open>m < j\<close> \<open>j < i\<close> 1(2) by (auto simp: ys_def nth_list_update not_less intro: order_trans)
    qed
    then have IH: "mset (take (Suc i) (bubble_pass key i (Suc j) ys)) = mset (take (Suc i) ys) \<and>
      drop (Suc i) (bubble_pass key i (Suc j) ys) = drop (Suc i) ys \<and>
      (\<forall>m\<le>i. key (bubble_pass key i (Suc j) ys ! m) \<le> key (bubble_pass key i (Suc j) ys ! i))"
      using True 1(2) len by (intro 1(1) [folded ys_def]) simp_all
    then show ?thesis unfolding eq using ms by simp
  next
    case False
    with 1(3) have "j = i" by simp
    moreover have "bubble_pass key i j xs = xs" using False by (subst bubble_pass.simps) simp
    ultimately show ?thesis using 1(4) by (auto simp: order.order_iff_strict)
  qed
qed

lemma bubble_rounds_spec:
  assumes "i < length xs" "sorted_wrt (\<lambda>a b. key a \<le> key b) (drop (Suc i) xs)"
    and "\<forall>a\<in>set (take (Suc i) xs). \<forall>b\<in>set (drop (Suc i) xs). key a \<le> key b"
  shows "mset (bubble_rounds key i xs) = mset xs \<and> sorted_wrt (\<lambda>a b. key a \<le> key b) (bubble_rounds key i xs)"
  using assms
proof (induction i arbitrary: xs)
  case 0
  then obtain x xs' where "xs = x # xs'" by (cases xs) auto
  with 0 show ?case by simp
next
  case (Suc i)
  define ys where "ys = bubble_pass key (Suc i) 0 xs"
  have p: "mset (take (Suc (Suc i)) ys) = mset (take (Suc (Suc i)) xs)" "drop (Suc (Suc i)) ys = drop (Suc (Suc i)) xs"
    "\<forall>m\<le>Suc i. key (ys ! m) \<le> key (ys ! Suc i)"
    using bubble_pass_spec [OF Suc.prems(1), of 0 key] by (simp_all add: ys_def)
  have len: "length ys = length xs" by (simp add: ys_def)
  have same: "set (take (Suc (Suc i)) ys) = set (take (Suc (Suc i)) xs)" using p(1) by (rule mset_eq_setD)
  have d: "drop (Suc i) ys = ys ! Suc i # drop (Suc (Suc i)) xs"
    using Suc.prems(1) len p(2) by (metis Cons_nth_drop_Suc)
  have last: "ys ! Suc i \<in> set (take (Suc (Suc i)) xs)"
    using same Suc.prems(1) len by (metis in_set_conv_nth length_take lessI min_less_iff_conj nth_take)
  have "sorted_wrt (\<lambda>a b. key a \<le> key b) (drop (Suc i) ys)"
    unfolding d using Suc.prems(2,3) last by simp
  moreover have "key a \<le> key b" if a: "a \<in> set (take (Suc i) ys)" and b: "b \<in> set (drop (Suc i) ys)" for a b
  proof -
    obtain m where m: "m < Suc i" "m < length ys" "a = ys ! m" using a by (auto simp: in_set_conv_nth)
    then have max: "key a \<le> key (ys ! Suc i)" using p(3) by simp
    from b consider "b = ys ! Suc i" | "b \<in> set (drop (Suc (Suc i)) xs)" unfolding d by auto
    then show ?thesis using max last Suc.prems(3) by cases (auto intro: order_trans)
  qed
  ultimately have IH: "mset (bubble_rounds key i ys) = mset ys \<and> sorted_wrt (\<lambda>a b. key a \<le> key b) (bubble_rounds key i ys)"
    using Suc.prems(1) len by (intro Suc.IH) auto
  have "mset ys = mset xs"
    using p(1,2) by (metis append_take_drop_id mset_append)
  with IH show ?case by (simp add: ys_def)
qed

lemma bubble_sort_spec:
  "mset (bubble_sort key xs) = mset xs" "sorted_wrt (\<lambda>a b. key a \<le> key b) (bubble_sort key xs)"
proof -
  have "mset (bubble_sort key xs) = mset xs \<and> sorted_wrt (\<lambda>a b. key a \<le> key b) (bubble_sort key xs)"
  proof (cases "length xs > 1")
    case True
    then show ?thesis using bubble_rounds_spec [of "length xs - 1" xs key] by (simp add: bubble_sort_def)
  next
    case False
    then show ?thesis by (cases xs) (auto simp: bubble_sort_def)
  qed
  then show "mset (bubble_sort key xs) = mset xs" "sorted_wrt (\<lambda>a b. key a \<le> key b) (bubble_sort key xs)" by simp_all
qed

section \<open>The row with a mutex\<close>

record 'r Row_silo =
  silo_row :: 'r
  silo_tid :: ts_t
  silo_latch :: bool

definition silo_row_init :: "'r \<Rightarrow> 'r Row_silo" where
  "silo_row_init d = \<lparr>silo_row = d, silo_tid = 0, silo_latch = False\<rparr>"

definition silo_try_lock :: "'r Row_silo \<Rightarrow> bool \<times> 'r Row_silo" where
  "silo_try_lock row = (if silo_latch row then (False, row) else (True, row\<lparr>silo_latch := True\<rparr>))"

text \<open>\<open>None\<close>: the call blocks.\<close>

definition silo_lock :: "'r Row_silo \<Rightarrow> 'r Row_silo option" where
  "silo_lock row = (if silo_latch row then None else Some (row\<lparr>silo_latch := True\<rparr>))"

definition silo_release :: "'r Row_silo \<Rightarrow> 'r Row_silo" where
  "silo_release row = row\<lparr>silo_latch := False\<rparr>"

definition silo_get_tid :: "'r Row_silo \<Rightarrow> ts_t" where
  "silo_get_tid row = silo_tid row"

definition silo_write :: "'r \<Rightarrow> ts_t \<Rightarrow> 'r Row_silo \<Rightarrow> 'r Row_silo" where
  "silo_write d tid row = row\<lparr>silo_row := d, silo_tid := tid\<rparr>"

text \<open>\<open>access\<close> and \<open>validate\<close> take the mutex for the time of the call; the returned pair of
  \<open>access\<close> is the copy and \<open>last_tid\<close>.\<close>

definition silo_access :: "'r Row_silo \<Rightarrow> RC \<times> ('r \<times> ts_t) option \<times> 'r Row_silo" where
  "silo_access row =
    (let (got, row1) = silo_try_lock row in
     if got then (RCOK, Some (silo_row row1, silo_tid row1), silo_release row1)
     else (Abort, None, row))"

definition silo_validate :: "ts_t \<Rightarrow> bool \<Rightarrow> 'r Row_silo \<Rightarrow> bool \<times> 'r Row_silo" where
  "silo_validate tid in_write_set row =
    (if in_write_set then (tid = silo_tid row, row)
     else let (got, row1) = silo_try_lock row in
       if got then (tid = silo_tid row1, silo_release row1) else (False, row))"

lemma silo_row_simps [simp]:
  "silo_tid (silo_release row) = silo_tid row" "silo_row (silo_release row) = silo_row row"
  "silo_latch (silo_release row) = False" "silo_get_tid row = silo_tid row"
  "silo_tid (silo_write d tid row) = tid" "silo_row (silo_write d tid row) = d"
  "silo_latch (silo_write d tid row) = silo_latch row"
  by (simp_all add: silo_release_def silo_get_tid_def silo_write_def)

section \<open>The row with a lock bit\<close>

definition LOCK_BIT :: "64 word" where
  "LOCK_BIT = push_bit 63 1"

record 'r Row_silo_word =
  sw_row :: 'r
  tid_word :: "64 word"

definition sw_init :: "'r \<Rightarrow> 'r Row_silo_word" where
  "sw_init d = \<lparr>sw_row = d, tid_word = 0\<rparr>"

definition sw_try_lock :: "'r Row_silo_word \<Rightarrow> bool \<times> 'r Row_silo_word" where
  "sw_try_lock row =
    (let v = tid_word row in
     if v AND LOCK_BIT \<noteq> 0 then (False, row) else (True, row\<lparr>tid_word := v OR LOCK_BIT\<rparr>))"

definition sw_lock :: "'r Row_silo_word \<Rightarrow> 'r Row_silo_word option" where
  "sw_lock row =
    (let v = tid_word row in
     if v AND LOCK_BIT \<noteq> 0 then None else Some (row\<lparr>tid_word := v OR LOCK_BIT\<rparr>))"

definition sw_release :: "'r Row_silo_word \<Rightarrow> 'r Row_silo_word result" where
  "sw_release row =
    bind_result (assert_that (tid_word row AND LOCK_BIT \<noteq> 0)) (\<lambda>_.
    Inr (row\<lparr>tid_word := tid_word row AND NOT LOCK_BIT\<rparr>))"

definition sw_get_tid :: "'r Row_silo_word \<Rightarrow> ts_t" where
  "sw_get_tid row = tid_word row AND NOT LOCK_BIT"

definition sw_write :: "'r \<Rightarrow> ts_t \<Rightarrow> 'r Row_silo_word \<Rightarrow> 'r Row_silo_word" where
  "sw_write d tid row =
    (let row1 = row\<lparr>sw_row := d\<rparr>; v = tid_word row1 in
     if tid > (v AND NOT LOCK_BIT) \<and> v AND LOCK_BIT \<noteq> 0 then row1\<lparr>tid_word := tid OR LOCK_BIT\<rparr> else row1)"

text \<open>
  \<open>None\<close>: with the lock bit set the call spins. The source reads the word, copies the row and reads the
  word again until both reads agree; here nobody writes in between, so this is one atomic read.
\<close>

definition sw_access :: "'r Row_silo_word \<Rightarrow> (RC \<times> 'r \<times> ts_t) option" where
  "sw_access row =
    (let v = tid_word row in
     if v AND LOCK_BIT \<noteq> 0 then None else Some (RCOK, sw_row row, v AND NOT LOCK_BIT))"

definition sw_validate :: "ts_t \<Rightarrow> bool \<Rightarrow> 'r Row_silo_word \<Rightarrow> bool" where
  "sw_validate tid in_write_set row =
    (let v = tid_word row in
     if in_write_set then tid = (v AND NOT LOCK_BIT)
     else if v AND LOCK_BIT \<noteq> 0 then False
     else if tid \<noteq> (v AND NOT LOCK_BIT) then False
     else True)"

section \<open>Refinement\<close>

definition silo_abs :: "'r Row_silo_word \<Rightarrow> 'r Row_silo" where
  "silo_abs w = \<lparr>silo_row = sw_row w, silo_tid = tid_word w AND NOT LOCK_BIT, silo_latch = (tid_word w AND LOCK_BIT \<noteq> 0)\<rparr>"

lemma lock_bit_facts:
  "(v OR LOCK_BIT) AND LOCK_BIT = LOCK_BIT" "(v OR LOCK_BIT) AND NOT LOCK_BIT = v AND NOT LOCK_BIT"
  "(v AND NOT LOCK_BIT) AND LOCK_BIT = 0" "(v AND NOT LOCK_BIT) AND NOT LOCK_BIT = v AND NOT LOCK_BIT"
  by (rule bit_word_eqI; auto simp: bit_simps)+

lemma LOCK_BIT_nonzero [simp]: "LOCK_BIT \<noteq> 0"
  by (simp add: LOCK_BIT_def)

lemma bit_LOCK_BIT: "bit LOCK_BIT n \<longleftrightarrow> n = 63"
  unfolding LOCK_BIT_def bit_push_bit_iff by (auto simp: bit_1_iff)

lemma below_lock_bit:
  assumes "tid < LOCK_BIT"
  shows "tid AND NOT LOCK_BIT = tid"
proof -
  have "tid < 2 ^ 63" using assms by (simp add: LOCK_BIT_def push_bit_eq_mult)
  then have "unat tid < 2 ^ 63" by (simp add: word_less_nat_alt)
  then have "\<not> bit (unat tid) 63" by (simp add: bit_iff_odd)
  then have "\<not> bit tid 63" by (simp add: bit_unsigned_iff)
  then show ?thesis by (intro bit_word_eqI) (auto simp: bit_simps bit_LOCK_BIT)
qed

lemmas silo_word_defs = silo_abs_def sw_try_lock_def sw_lock_def sw_release_def sw_get_tid_def sw_write_def sw_access_def sw_validate_def
lemmas silo_latch_defs = silo_try_lock_def silo_lock_def silo_release_def silo_write_def silo_access_def silo_validate_def silo_get_tid_def

text \<open>
  Claim C17. The row that packs the lock bit into the id behaves as the row with a mutex: locking, reading the
  id, validation and, on an unlocked row, a read give the same answers and corresponding rows, and
  so does a write of a locked row with an id that is larger than the old one and leaves the lock
  bit clear; the assertion of \<open>release\<close> fails exactly on a row that is not locked.
\<close>

theorem silo_word_refines_latch:
  assumes "tid < LOCK_BIT"
  shows "map_prod id silo_abs (sw_try_lock w) = silo_try_lock (silo_abs w) \<and>
    map_option silo_abs (sw_lock w) = silo_lock (silo_abs w) \<and>
    sw_get_tid w = silo_get_tid (silo_abs w) \<and>
    (sw_validate tid b w, silo_abs w) = silo_validate tid b (silo_abs w) \<and>
    silo_access (silo_abs w) =
      (case sw_access w of None \<Rightarrow> (Abort, None, silo_abs w) | Some (rc, d, t) \<Rightarrow> (rc, Some (d, t), silo_abs w)) \<and>
    map_sum id silo_abs (sw_release w) =
      (if silo_latch (silo_abs w) then Inr (silo_release (silo_abs w)) else Inl Assert_failed) \<and>
    (silo_latch (silo_abs w) \<and> sw_get_tid w < tid \<longrightarrow> silo_abs (sw_write d tid w) = silo_write d tid (silo_abs w))"
  by (intro conjI; simp add: silo_word_defs silo_latch_defs Let_def lock_bit_facts assert_that_def below_lock_bit [OF assms])

text \<open>A locked row with id 4 and a write with id 5.\<close>

theorem silo_word_refines_latch_witness:
  "let w = \<lparr>sw_row = 10, tid_word = 4 OR LOCK_BIT\<rparr> in
     (5::64 word) < LOCK_BIT \<and> silo_latch (silo_abs w) \<and> sw_get_tid w < 5 \<and>
     silo_abs (sw_write (20::nat) 5 w) = silo_write 20 5 (silo_abs w)"
proof -
  define w where "w = \<lparr>sw_row = 10::nat, tid_word = 4 OR LOCK_BIT\<rparr>"
  have lt: "(5::64 word) < LOCK_BIT" "(4::64 word) < LOCK_BIT" by (simp_all add: LOCK_BIT_def)
  have w: "silo_latch (silo_abs w)" "sw_get_tid w < 5"
    using below_lock_bit [OF lt(2)] by (simp_all add: w_def silo_word_defs lock_bit_facts)
  with silo_word_refines_latch [OF lt(1), of w True 20] show ?thesis unfolding Let_def w_def using lt by blast
qed

end
