(* ===== verification/Silo.thy ===== *)
theory Silo
imports SiloRow
begin

text \<open>
  Silo transactions (\<open>silo.cpp\<close>, and the parts of \<open>txn.cpp\<close> and \<open>row.cpp\<close> that serve it): accesses,
  validation and finish. Validation locks, checks and releases row by row, so a transaction is a
  program counter with one step per call on a row, and transactions interleave at these points.
  The commit protocol is that of a transaction that runs on its home node; an acknowledgement of
  another node only raises its \<open>_cur_tid\<close>.
\<close>

section \<open>State\<close>

record 'r silo_data =
  sa_type :: access_t
  sa_orig :: row_ref
  sa_tid :: ts_t
  sa_data :: 'r

record 'r silo_txn =
  si_accesses :: "'r silo_data list"
  si_write_cnt :: nat
  write_set :: "nat list"
  read_set :: "nat list"
  num_locks :: nat
  si_max_tid :: ts_t
  cur_tid :: ts_t
  si_commit_ts :: ts_t
  pre_abort :: bool
  validation_no_wait :: bool

type_synonym 'r silo_rows = "row_ref \<Rightarrow> 'r Row_silo"

definition silo_txn_init :: "bool \<Rightarrow> bool \<Rightarrow> 'r silo_txn" where
  "silo_txn_init pa nw = \<lparr>si_accesses = [], si_write_cnt = 0, write_set = [], read_set = [], num_locks = 0,
     si_max_tid = 0, cur_tid = 0, si_commit_ts = 0, pre_abort = pa, validation_no_wait = nw\<rparr>"

text \<open>
  Where a transaction stands. \<open>Reading\<close> and \<open>HeldR\<close> are inside \<open>access\<close> and \<open>validate\<close> of a row, with its
  mutex taken; \<open>LockedW\<close> has just locked a row of the write set. The second argument of the checks
  is the local \<open>max_tid\<close>.
\<close>

datatype silo_pc = Running | Reading access_t row_ref
  | PreW nat | PreR nat | LockW nat | LockedW nat | CheckR nat ts_t | HeldR nat ts_t | CheckW nat ts_t
  | Validated | Failed | WriteC nat | RelC nat | RelA nat | Finished

section \<open>Access to a row\<close>

definition silo_get_start :: "access_t \<Rightarrow> row_ref \<Rightarrow> 'r silo_rows \<Rightarrow> silo_pc \<times> 'r silo_rows" where
  "silo_get_start type r R =
    (let (got, row1) = silo_try_lock (R r) in if got then (Reading type r, R(r := row1)) else (Failed, R))"

definition silo_get_end :: "access_t \<Rightarrow> row_ref \<Rightarrow> 'r silo_txn \<Rightarrow> 'r silo_rows \<Rightarrow> 'r silo_txn \<times> 'r silo_rows" where
  "silo_get_end type r T R =
    (let last_tid = silo_tid (R r); cur_row = silo_row (R r);
         access = \<lparr>sa_type = type, sa_orig = r, sa_tid = last_tid, sa_data = cur_row\<rparr> in
     (T\<lparr>si_accesses := si_accesses T @ [access],
        si_write_cnt := (if type = WR then Suc (si_write_cnt T) else si_write_cnt T)\<rparr>,
      R(r := silo_release (R r))))"

section \<open>Validation\<close>

text \<open>The index arrays; \<open>write_set\<close> has room for 100 entries.\<close>

fun collect_sets :: "'r silo_data list \<Rightarrow> nat \<Rightarrow> nat list \<times> nat list \<Rightarrow> (nat list \<times> nat list) result" where
  "collect_sets [] rid (ws, rs) = Inr (ws, rs)"
| "collect_sets (a # as) rid (ws, rs) =
    (if sa_type a = WR then
       if length ws < 100 then collect_sets as (Suc rid) (ws @ [rid], rs) else Inl Out_of_bounds
     else collect_sets as (Suc rid) (ws, rs @ [rid]))"

definition silo_prepare :: "(row_ref \<Rightarrow> 64 word) \<Rightarrow> 'r silo_txn \<Rightarrow> 'r silo_txn result" where
  "silo_prepare pk T =
    bind_result (collect_sets (si_accesses T) 0 ([], [])) (\<lambda>(ws, rs).
    Inr (T\<lparr>write_set := bubble_sort (\<lambda>i. pk (sa_orig (si_accesses T ! i))) ws, read_set := rs, num_locks := 0\<rparr>))"

definition w_access :: "'r silo_txn \<Rightarrow> nat \<Rightarrow> 'r silo_data" where
  "w_access T i = si_accesses T ! (write_set T ! i)"

definition r_access :: "'r silo_txn \<Rightarrow> nat \<Rightarrow> 'r silo_data" where
  "r_access T i = si_accesses T ! (read_set T ! i)"

definition read_cnt :: "'r silo_txn \<Rightarrow> nat" where
  "read_cnt T = length (si_accesses T) - si_write_cnt T"

definition pre_abort_writes :: "nat \<Rightarrow> 'r silo_txn \<Rightarrow> 'r silo_rows \<Rightarrow> silo_pc" where
  "pre_abort_writes i T R =
    (if i < si_write_cnt T then
       if silo_get_tid (R (sa_orig (w_access T i))) \<noteq> sa_tid (w_access T i) then Failed else PreW (Suc i)
     else PreR 0)"

definition pre_abort_reads :: "nat \<Rightarrow> 'r silo_txn \<Rightarrow> 'r silo_rows \<Rightarrow> silo_pc" where
  "pre_abort_reads i T R =
    (if i < read_cnt T then
       if silo_get_tid (R (sa_orig (r_access T i))) \<noteq> sa_tid (r_access T i) then Failed else PreR (Suc i)
     else LockW 0)"

text \<open>\<open>None\<close>: \<open>lock\<close> blocks.\<close>

definition lock_write :: "nat \<Rightarrow> 'r silo_txn \<Rightarrow> 'r silo_rows \<Rightarrow> (silo_pc \<times> 'r silo_rows) option" where
  "lock_write i T R =
    (if i < si_write_cnt T then
       let r = sa_orig (w_access T i) in
       if validation_no_wait T then
         let (got, row1) = silo_try_lock (R r) in
         if got then Some (LockedW i, R(r := row1)) else Some (Failed, R)
       else map_option (\<lambda>row1. (LockedW i, R(r := row1))) (silo_lock (R r))
     else Some (CheckR 0 0, R))"

definition locked_write :: "nat \<Rightarrow> 'r silo_txn \<Rightarrow> 'r silo_rows \<Rightarrow> silo_pc \<times> 'r silo_txn" where
  "locked_write i T R =
    (if silo_get_tid (R (sa_orig (w_access T i))) \<noteq> sa_tid (w_access T i) then Failed else LockW (Suc i),
     T\<lparr>num_locks := Suc (num_locks T)\<rparr>)"

definition check_read :: "nat \<Rightarrow> ts_t \<Rightarrow> 'r silo_txn \<Rightarrow> 'r silo_rows \<Rightarrow> silo_pc \<times> 'r silo_rows" where
  "check_read i m T R =
    (if i < read_cnt T then
       let r = sa_orig (r_access T i); (got, row1) = silo_try_lock (R r) in
       if got then (HeldR i m, R(r := row1)) else (Failed, R)
     else (CheckW 0 m, R))"

definition held_read :: "nat \<Rightarrow> ts_t \<Rightarrow> 'r silo_txn \<Rightarrow> 'r silo_rows \<Rightarrow> silo_pc \<times> 'r silo_rows" where
  "held_read i m T R =
    (let a = r_access T i; r = sa_orig a; valid = (sa_tid a = silo_tid (R r)) in
     (if valid then CheckR (Suc i) (if sa_tid a > m then sa_tid a else m) else Failed,
      R(r := silo_release (R r))))"

text \<open>After the last check \<open>TxnManager::validate\<close> draws the commit timestamp.\<close>

definition silo_draw_tid :: "'r silo_txn \<Rightarrow> 'r silo_txn" where
  "silo_draw_tid T = T\<lparr>cur_tid := cur_tid T + 1, si_commit_ts := cur_tid T + 1\<rparr>"

definition check_write :: "nat \<Rightarrow> ts_t \<Rightarrow> 'r silo_txn \<Rightarrow> 'r silo_rows \<Rightarrow> silo_pc \<times> 'r silo_txn" where
  "check_write i m T R =
    (if i < si_write_cnt T then
       let a = w_access T i; success = fst (silo_validate (sa_tid a) True (R (sa_orig a))) in
       if success then (CheckW (Suc i) (if sa_tid a > m then sa_tid a else m), T) else (Failed, T)
     else (Validated, silo_draw_tid (T\<lparr>si_max_tid := m\<rparr>)))"

definition find_tid_silo :: "ts_t \<Rightarrow> 'r silo_txn \<Rightarrow> 'r silo_txn" where
  "find_tid_silo m T = (if m > cur_tid T then T\<lparr>cur_tid := m\<rparr> else T)"

section \<open>Finish\<close>

definition silo_finish :: "RC \<Rightarrow> 'r silo_txn \<Rightarrow> silo_pc" where
  "silo_finish rc T =
    (if rc = Abort then if num_locks T > length (si_accesses T) then Finished else RelA 0 else WriteC 0)"

definition abort_release :: "nat \<Rightarrow> 'r silo_txn \<Rightarrow> 'r silo_rows \<Rightarrow> silo_pc \<times> 'r silo_txn \<times> 'r silo_rows" where
  "abort_release i T R =
    (if i < num_locks T then
       let r = sa_orig (w_access T i) in (RelA (Suc i), T, R(r := silo_release (R r)))
     else (Finished, T\<lparr>num_locks := 0\<rparr>, R))"

definition commit_write :: "nat \<Rightarrow> 'r silo_txn \<Rightarrow> 'r silo_rows \<Rightarrow> silo_pc \<times> 'r silo_txn \<times> 'r silo_rows" where
  "commit_write i T R =
    (if i < si_write_cnt T then
       let a = w_access T i; r = sa_orig a in
       (RelC i, T, R(r := silo_write (sa_data a) (si_commit_ts T) (R r)))
     else (Finished, T\<lparr>num_locks := 0\<rparr>, R))"

definition commit_release :: "nat \<Rightarrow> 'r silo_txn \<Rightarrow> 'r silo_rows \<Rightarrow> silo_pc \<times> 'r silo_rows" where
  "commit_release i T R =
    (let r = sa_orig (w_access T i) in (WriteC (Suc i), R(r := silo_release (R r))))"

section \<open>One step of a transaction\<close>

text \<open>
  \<open>SStep\<close> continues the call the transaction is in; the other events enter one: a new transaction, an
  access, a change of a local copy, an acknowledgement, \<open>validate\<close> and \<open>finish\<close>.
\<close>

datatype 'r silo_act = SBegin bool bool | SGet access_t row_ref | SModify nat 'r | SAck ts_t | SValidate | SFinish RC | SStep

fun silo_continue :: "silo_pc \<Rightarrow> 'r silo_txn \<Rightarrow> 'r silo_rows \<Rightarrow> (silo_pc \<times> 'r silo_txn \<times> 'r silo_rows) option" where
  "silo_continue (Reading type r) T R = (let (T', R') = silo_get_end type r T R in Some (Running, T', R'))"
| "silo_continue (PreW i) T R = Some (pre_abort_writes i T R, T, R)"
| "silo_continue (PreR i) T R = Some (pre_abort_reads i T R, T, R)"
| "silo_continue (LockW i) T R = map_option (\<lambda>(pc, R'). (pc, T, R')) (lock_write i T R)"
| "silo_continue (LockedW i) T R = (let (pc, T') = locked_write i T R in Some (pc, T', R))"
| "silo_continue (CheckR i m) T R = (let (pc, R') = check_read i m T R in Some (pc, T, R'))"
| "silo_continue (HeldR i m) T R = (let (pc, R') = held_read i m T R in Some (pc, T, R'))"
| "silo_continue (CheckW i m) T R = (let (pc, T') = check_write i m T R in Some (pc, T', R))"
| "silo_continue (RelA i) T R = Some (abort_release i T R)"
| "silo_continue (WriteC i) T R = Some (commit_write i T R)"
| "silo_continue (RelC i) T R = (let (pc, R') = commit_release i T R in Some (pc, T, R'))"
| "silo_continue _ T R = None"

fun silo_step :: "(row_ref \<Rightarrow> 64 word) \<Rightarrow> 'r silo_act \<Rightarrow> silo_pc \<Rightarrow> 'r silo_txn \<Rightarrow> 'r silo_rows \<Rightarrow>
    (silo_pc \<times> 'r silo_txn \<times> 'r silo_rows) option" where
  "silo_step pk (SBegin pa nw) pc T R = (if pc = Finished then Some (Running, silo_txn_init pa nw, R) else None)"
| "silo_step pk (SGet type r) pc T R =
    (if pc = Running then let (pc', R') = silo_get_start type r R in Some (pc', T, R') else None)"
| "silo_step pk (SModify i d) pc T R =
    (if pc = Running \<and> i < length (si_accesses T) \<and> sa_type (si_accesses T ! i) = WR
     then Some (pc, T\<lparr>si_accesses := (si_accesses T)[i := (si_accesses T ! i)\<lparr>sa_data := d\<rparr>]\<rparr>, R) else None)"
| "silo_step pk (SAck m) pc T R = (if pc = Running then Some (pc, find_tid_silo m T, R) else None)"
| "silo_step pk SValidate pc T R =
    (if pc = Running
     then case silo_prepare pk T of Inl e \<Rightarrow> None | Inr T' \<Rightarrow> Some (if pre_abort T then PreW 0 else LockW 0, T', R)
     else None)"
| "silo_step pk (SFinish rc) pc T R =
    (if pc = Validated \<and> rc \<in> {RCOK, Abort} \<or> pc \<in> {Running, Failed} \<and> rc = Abort
     then Some (silo_finish rc T, T, R) else None)"
| "silo_step pk SStep pc T R = silo_continue pc T R"

section \<open>The system\<close>

text \<open>
  The rows and the transactions, and the history of the run that the properties speak of: a counter
  that numbers transactions as they get past the locking of their write set, the values each has
  read, the versions of every row with the number of their writer, and the committed transactions
  with what they read and write. The history does not influence the code.
\<close>

record 'r silo_sys =
  sys_rows :: "'r silo_rows"
  sys_txns :: "txnid_t \<Rightarrow> 'r silo_txn"
  sys_pc :: "txnid_t \<Rightarrow> silo_pc"
  g_clock :: nat
  g_seq :: "txnid_t \<Rightarrow> nat"
  g_seen :: "txnid_t \<Rightarrow> 'r list"
  g_hist :: "row_ref \<Rightarrow> (nat \<times> ts_t \<times> 'r) list"
  g_done :: "(nat \<times> (row_ref \<times> 'r) list \<times> (row_ref \<times> 'r) list) list"

definition silo_sys_init :: "(row_ref \<Rightarrow> 'r) \<Rightarrow> 'r silo_sys" where
  "silo_sys_init v = \<lparr>sys_rows = silo_row_init \<circ> v, sys_txns = (\<lambda>_. silo_txn_init False False), sys_pc = (\<lambda>_. Finished),
     g_clock = 1, g_seq = (\<lambda>_. 0), g_seen = (\<lambda>_. []), g_hist = (\<lambda>r. [(0, 0, v r)]), g_done = []\<rparr>"

definition reads_of :: "'r silo_txn \<Rightarrow> 'r list \<Rightarrow> (row_ref \<times> 'r) list" where
  "reads_of T seen = zip (map sa_orig (si_accesses T)) seen"

definition writes_of :: "'r silo_txn \<Rightarrow> (row_ref \<times> 'r) list" where
  "writes_of T = map (\<lambda>i. (sa_orig (si_accesses T ! i), sa_data (si_accesses T ! i))) (write_set T)"

fun silo_log :: "txnid_t \<Rightarrow> 'r silo_act \<Rightarrow> silo_pc \<Rightarrow> 'r silo_txn \<Rightarrow> 'r silo_sys \<Rightarrow> 'r silo_sys" where
  "silo_log t (SBegin pa nw) pc T s = s\<lparr>g_seen := (g_seen s)(t := [])\<rparr>"
| "silo_log t SStep (Reading type r) T s = s\<lparr>g_seen := (g_seen s)(t := g_seen s t @ [silo_row (sys_rows s r)])\<rparr>"
| "silo_log t SStep (LockW i) T s =
    (if i < si_write_cnt T then s else s\<lparr>g_seq := (g_seq s)(t := g_clock s), g_clock := Suc (g_clock s)\<rparr>)"
| "silo_log t SStep (WriteC i) T s =
    (if i < si_write_cnt T then
       let a = w_access T i; r = sa_orig a in
       s\<lparr>g_hist := (g_hist s)(r := (g_seq s t, si_commit_ts T, sa_data a) # g_hist s r)\<rparr>
     else s)"
| "silo_log t (SFinish rc) Validated T s =
    (if rc = Abort then s else s\<lparr>g_done := (g_seq s t, reads_of T (g_seen s t), writes_of T) # g_done s\<rparr>)"
| "silo_log t _ _ T s = s"

definition silo_do :: "(row_ref \<Rightarrow> 64 word) \<Rightarrow> txnid_t \<times> 'r silo_act \<Rightarrow> 'r silo_sys \<Rightarrow> 'r silo_sys option" where
  "silo_do pk = (\<lambda>(t, act) s.
     (case silo_step pk act (sys_pc s t) (sys_txns s t) (sys_rows s) of
        None \<Rightarrow> None
      | Some (pc, T, R) \<Rightarrow> Some ((silo_log t act (sys_pc s t) (sys_txns s t) s)
          \<lparr>sys_rows := R, sys_txns := (sys_txns s)(t := T), sys_pc := (sys_pc s)(t := pc)\<rparr>)))"

fun silo_run :: "(row_ref \<Rightarrow> 64 word) \<Rightarrow> (txnid_t \<times> 'r silo_act) list \<Rightarrow> 'r silo_sys \<Rightarrow> 'r silo_sys option" where
  "silo_run pk [] s = Some s"
| "silo_run pk (e # es) s = (case silo_do pk e s of None \<Rightarrow> None | Some s' \<Rightarrow> silo_run pk es s')"

section \<open>Locks\<close>

definition wrows :: "'r silo_txn \<Rightarrow> row_ref list" where
  "wrows T = map (\<lambda>i. sa_orig (si_accesses T ! i)) (write_set T)"

text \<open>The rows whose mutex a transaction holds.\<close>

fun silo_holds :: "silo_pc \<Rightarrow> 'r silo_txn \<Rightarrow> row_ref list" where
  "silo_holds (Reading type r) T = [r]"
| "silo_holds (LockW i) T = take i (wrows T)"
| "silo_holds (LockedW i) T = take (Suc i) (wrows T)"
| "silo_holds (CheckR i m) T = wrows T"
| "silo_holds (HeldR i m) T = sa_orig (r_access T i) # wrows T"
| "silo_holds (CheckW i m) T = wrows T"
| "silo_holds Validated T = wrows T"
| "silo_holds (WriteC i) T = drop i (wrows T)"
| "silo_holds (RelC i) T = drop i (wrows T)"
| "silo_holds Failed T = take (num_locks T) (wrows T)"
| "silo_holds (RelA i) T = drop i (take (num_locks T) (wrows T))"
| "silo_holds _ T = []"

text \<open>The counters and index arrays at each point.\<close>

definition sets_ok :: "'r silo_txn \<Rightarrow> bool" where
  "sets_ok T \<longleftrightarrow> length (write_set T) = si_write_cnt T \<and> length (read_set T) = read_cnt T \<and>
     set (write_set T) \<union> set (read_set T) = {..<length (si_accesses T)}"

fun silo_thread_ok :: "silo_pc \<Rightarrow> 'r silo_txn \<Rightarrow> bool" where
  "silo_thread_ok Running T \<longleftrightarrow> num_locks T = 0"
| "silo_thread_ok (Reading type r) T \<longleftrightarrow> num_locks T = 0"
| "silo_thread_ok (PreW i) T \<longleftrightarrow> num_locks T = 0 \<and> sets_ok T"
| "silo_thread_ok (PreR i) T \<longleftrightarrow> num_locks T = 0 \<and> sets_ok T"
| "silo_thread_ok (LockW i) T \<longleftrightarrow> num_locks T = i \<and> i \<le> si_write_cnt T \<and> sets_ok T"
| "silo_thread_ok (LockedW i) T \<longleftrightarrow> num_locks T = i \<and> i < si_write_cnt T \<and> sets_ok T"
| "silo_thread_ok (CheckR i m) T \<longleftrightarrow> num_locks T = si_write_cnt T \<and> i \<le> read_cnt T \<and> sets_ok T"
| "silo_thread_ok (HeldR i m) T \<longleftrightarrow> num_locks T = si_write_cnt T \<and> i < read_cnt T \<and> sets_ok T"
| "silo_thread_ok (CheckW i m) T \<longleftrightarrow> num_locks T = si_write_cnt T \<and> i \<le> si_write_cnt T \<and> sets_ok T"
| "silo_thread_ok Validated T \<longleftrightarrow> num_locks T = si_write_cnt T \<and> sets_ok T"
| "silo_thread_ok (WriteC i) T \<longleftrightarrow> i \<le> si_write_cnt T \<and> sets_ok T"
| "silo_thread_ok (RelC i) T \<longleftrightarrow> i < si_write_cnt T \<and> sets_ok T"
| "silo_thread_ok Failed T \<longleftrightarrow> num_locks T \<le> length (write_set T) \<and> num_locks T \<le> length (si_accesses T)"
| "silo_thread_ok (RelA i) T \<longleftrightarrow> i \<le> num_locks T \<and> num_locks T \<le> length (write_set T) \<and> num_locks T \<le> length (si_accesses T)"
| "silo_thread_ok Finished T \<longleftrightarrow> num_locks T = 0"

definition count_ok :: "'r silo_txn \<Rightarrow> bool" where
  "count_ok T \<longleftrightarrow> si_write_cnt T = length (filter (\<lambda>a. sa_type a = WR) (si_accesses T))"

lemma collect_sets_spec:
  assumes "collect_sets as rid (ws, rs) = Inr (ws', rs')"
  shows "length ws' = length ws + length (filter (\<lambda>a. sa_type a = WR) as) \<and>
    length rs' = length rs + length (filter (\<lambda>a. sa_type a \<noteq> WR) as) \<and>
    set ws' \<union> set rs' = set ws \<union> set rs \<union> {rid..<rid + length as}"
  using assms
proof (induction as arbitrary: rid ws rs)
  case (Cons a as)
  have "{rid..<Suc (rid + length as)} = insert rid {Suc rid..<Suc (rid + length as)}" by auto
  moreover have "if sa_type a = WR then collect_sets as (Suc rid) (ws @ [rid], rs) = Inr (ws', rs')
      else collect_sets as (Suc rid) (ws, rs @ [rid]) = Inr (ws', rs')"
    using Cons.prems by (simp split: if_splits)
  ultimately show ?case
    using Cons.IH [of "Suc rid" "ws @ [rid]" rs] Cons.IH [of "Suc rid" ws "rs @ [rid]"]
    by (cases "sa_type a = WR") (simp_all add: Un_assoc)
qed simp

lemma silo_prepare_ok:
  assumes "silo_prepare pk T = Inr T'" "count_ok T"
  shows "sets_ok T'" "count_ok T'" "num_locks T' = 0" "si_accesses T' = si_accesses T"
proof -
  obtain ws rs where c: "collect_sets (si_accesses T) 0 ([], []) = Inr (ws, rs)"
    and T': "T' = T\<lparr>write_set := bubble_sort (\<lambda>i. pk (sa_orig (si_accesses T ! i))) ws, read_set := rs, num_locks := 0\<rparr>"
    using assms(1) by (auto simp: silo_prepare_def bind_result_Inr_iff)
  note s = bubble_sort_spec(1) [of "\<lambda>i. pk (sa_orig (si_accesses T ! i))" ws]
  note l = collect_sets_spec [OF c]
  have "length (filter (\<lambda>a. sa_type a \<noteq> WR) (si_accesses T)) = read_cnt T"
    using assms(2) sum_length_filter_compl [of "\<lambda>a. sa_type a = WR" "si_accesses T"] by (simp add: read_cnt_def count_ok_def)
  with l assms(2) show "sets_ok T'"
    using mset_eq_setD [OF s] mset_eq_length [OF s] by (auto simp: T' sets_ok_def count_ok_def read_cnt_def atLeast0LessThan)
qed (use assms in \<open>auto simp: silo_prepare_def bind_result_Inr_iff count_ok_def\<close>)

lemma sets_okD: "sets_ok T \<Longrightarrow> length (write_set T) = si_write_cnt T"
  by (simp add: sets_ok_def)

lemma write_cnt_le: "count_ok T \<Longrightarrow> si_write_cnt T \<le> length (si_accesses T)"
  by (simp add: count_ok_def)

lemmas silo_call_defs = silo_get_start_def silo_get_end_def pre_abort_writes_def pre_abort_reads_def lock_write_def
  locked_write_def check_read_def held_read_def check_write_def silo_finish_def abort_release_def commit_write_def
  commit_release_def silo_try_lock_def silo_lock_def find_tid_silo_def silo_draw_tid_def

lemma sets_ok_upd [simp]:
  "sets_ok (T\<lparr>num_locks := n\<rparr>) = sets_ok T" "sets_ok (T\<lparr>si_max_tid := m\<rparr>) = sets_ok T"
  "sets_ok (T\<lparr>cur_tid := m\<rparr>) = sets_ok T" "sets_ok (T\<lparr>si_commit_ts := m\<rparr>) = sets_ok T"
  "count_ok (T\<lparr>num_locks := n\<rparr>) = count_ok T" "count_ok (T\<lparr>si_max_tid := m\<rparr>) = count_ok T"
  "count_ok (T\<lparr>cur_tid := m\<rparr>) = count_ok T" "count_ok (T\<lparr>si_commit_ts := m\<rparr>) = count_ok T"
  "wrows (T\<lparr>num_locks := n\<rparr>) = wrows T" "wrows (T\<lparr>si_max_tid := m\<rparr>) = wrows T"
  "wrows (T\<lparr>cur_tid := m\<rparr>) = wrows T" "wrows (T\<lparr>si_commit_ts := m\<rparr>) = wrows T"
  "read_cnt (T\<lparr>num_locks := n\<rparr>) = read_cnt T" "read_cnt (T\<lparr>si_max_tid := m\<rparr>) = read_cnt T"
  "read_cnt (T\<lparr>cur_tid := m\<rparr>) = read_cnt T" "read_cnt (T\<lparr>si_commit_ts := m\<rparr>) = read_cnt T"
  by (simp_all add: sets_ok_def count_ok_def wrows_def read_cnt_def)

lemma count_ok_types: "count_ok T \<longleftrightarrow> si_write_cnt T = count_list (map sa_type (si_accesses T)) WR"
  by (simp add: count_ok_def count_list_eq_length_filter filter_map o_def eq_commute)

lemma count_ok_modify:
  "i < length (si_accesses T) \<Longrightarrow>
    count_ok (T\<lparr>si_accesses := (si_accesses T)[i := (si_accesses T ! i)\<lparr>sa_data := d\<rparr>]\<rparr>) = count_ok T"
proof -
  assume i: "i < length (si_accesses T)"
  have "map sa_type ((si_accesses T)[i := (si_accesses T ! i)\<lparr>sa_data := d\<rparr>]) = map sa_type (si_accesses T)"
    using i by (intro nth_equalityI) (auto simp: nth_list_update)
  then show ?thesis by (simp add: count_ok_types del: map_update)
qed

lemma silo_step_thread_ok:
  assumes "silo_step pk act pc T R = Some (pc', T', R')" "silo_thread_ok pc T" "count_ok T"
  shows "silo_thread_ok pc' T' \<and> count_ok T'"
proof (cases act)
  case (SModify i d)
  with assms count_ok_modify [of i T d] show ?thesis by (auto split: if_splits)
next
  case SValidate
  with assms show ?thesis by (auto split: if_splits sum.splits dest: silo_prepare_ok)
next
  case (SGet type r)
  with assms show ?thesis by (auto simp: silo_call_defs split: if_splits)
next
  case (SFinish rc)
  with assms write_cnt_le [of T] sets_okD [of T] show ?thesis
    by (auto simp: silo_finish_def split: if_splits)
next
  case SStep
  have len: "sets_ok T \<Longrightarrow> length (write_set T) = si_write_cnt T" by (rule sets_okD)
  show ?thesis
  proof (cases pc)
    case (Reading type r)
    with SStep assms show ?thesis by (auto simp: silo_get_end_def Let_def count_ok_def)
  next
    case (CheckW i m)
    with SStep assms len write_cnt_le [of T] show ?thesis
      by (auto simp: check_write_def silo_draw_tid_def Let_def split: if_splits)
  qed (use SStep assms len write_cnt_le [of T] in \<open>auto simp: silo_call_defs Let_def split: if_splits option.splits\<close>)
qed (use assms in \<open>auto simp: silo_txn_init_def count_ok_def find_tid_silo_def split: if_splits\<close>)

definition latches :: "'r silo_rows \<Rightarrow> row_ref \<Rightarrow> bool" where
  "latches R r = silo_latch (R r)"

lemma latches_upd [simp]: "latches (R(r := x)) = (latches R)(r := silo_latch x)"
  by (rule ext) (simp add: latches_def)

lemma latches_keep: "silo_latch x = silo_latch (R r) \<Longrightarrow> latches (R(r := x)) = latches R"
  by (rule ext) (simp add: latches_def)

lemma latch_take: "\<not> silo_latch (R r) \<Longrightarrow> mset hs' = mset (r # hs) \<Longrightarrow> lock_change (latches R) hs ((latches R)(r := True)) hs'"
  by (rule lock_change_take) (simp_all add: latches_def)

lemma latch_give: "mset hs = mset (r # hs') \<Longrightarrow> lock_change (latches R) hs ((latches R)(r := False)) hs'"
  by (rule lock_change_give) simp_all

lemma length_wrows [simp]: "length (wrows T) = length (write_set T)"
  by (simp add: wrows_def)

lemma wrows_nth: "i < length (write_set T) \<Longrightarrow> wrows T ! i = sa_orig (w_access T i)"
  by (simp add: wrows_def w_access_def)

lemma take_wrows: "i < length (write_set T) \<Longrightarrow> take (Suc i) (wrows T) = take i (wrows T) @ [sa_orig (w_access T i)]"
  by (simp add: take_Suc_conv_app_nth wrows_nth)

lemma drop_wrows: "i < length (write_set T) \<Longrightarrow> drop i (wrows T) = sa_orig (w_access T i) # drop (Suc i) (wrows T)"
  by (simp add: Cons_nth_drop_Suc [symmetric] wrows_nth)

lemma drop_take_wrows:
  "i < n \<Longrightarrow> n \<le> length (write_set T) \<Longrightarrow>
    drop i (take n (wrows T)) = sa_orig (w_access T i) # drop (Suc i) (take n (wrows T))"
  using Cons_nth_drop_Suc [of i "take n (wrows T)"] by (simp add: wrows_nth)

lemma lock_write_cases:
  assumes "lock_write i T R = Some (pc', R')" "i < si_write_cnt T"
  shows "\<not> silo_latch (R (sa_orig (w_access T i))) \<and> pc' = LockedW i \<and>
      R' = R(sa_orig (w_access T i) := (R (sa_orig (w_access T i)))\<lparr>silo_latch := True\<rparr>) \<or> pc' = Failed \<and> R' = R"
  using assms
  by (cases "validation_no_wait T"; cases "silo_latch (R (sa_orig (w_access T i)))")
    (simp_all add: lock_write_def silo_try_lock_def silo_lock_def Let_def)

lemma silo_continue_locks:
  assumes "silo_continue pc T R = Some (pc', T', R')" "silo_thread_ok pc T" "count_ok T"
  shows "lock_change (latches R) (silo_holds pc T) (latches R') (silo_holds pc' T')"
proof (cases pc)
  case (Reading type r)
  with assms show ?thesis by (auto simp: silo_get_end_def Let_def intro: latch_give)
next
  case (LockW i)
  with assms(2) have i: "sets_ok T" "i = num_locks T" "i \<le> si_write_cnt T" "length (write_set T) = si_write_cnt T"
    by (auto dest: sets_okD)
  show ?thesis
  proof (cases "i < si_write_cnt T")
    case True
    let ?r = "sa_orig (w_access T i)"
    have "lock_write i T R = Some (pc', R')" "T' = T" 
      using assms(1) unfolding LockW by (cases "lock_write i T R"; force)+
    from lock_write_cases [OF this(1) True] this(2) consider
        "\<not> silo_latch (R ?r)" "pc' = LockedW i" "T' = T" "R' = R(?r := (R ?r)\<lparr>silo_latch := True\<rparr>)"
      | "pc' = Failed" "T' = T" "R' = R"
      by blast
    then show ?thesis
    proof cases
      case 1
      with i True LockW show ?thesis
        by (intro lock_change_take [of _ ?r]) (auto simp: take_wrows latches_def)
    qed (use i LockW in \<open>auto intro: lock_change_same\<close>)
  next
    case False
    with assms(1) i LockW show ?thesis by (auto simp: lock_write_def intro: lock_change_same)
  qed
next
  case (CheckR i m)
  with assms sets_okD [of T] show ?thesis
    by (auto simp: check_read_def silo_try_lock_def Let_def split: if_splits
        intro: lock_change_same latch_take)
next
  case (HeldR i m)
  with assms sets_okD [of T] show ?thesis
    by (auto simp: held_read_def Let_def intro!: latch_give)
next
  case (RelA i)
  with assms(1,2) show ?thesis
    by (auto simp: abort_release_def Let_def drop_take_wrows split: if_splits
        intro: lock_change_same latch_give)
next
  case (RelC i)
  with assms(1,2) sets_okD [of T] show ?thesis
    by (auto simp: commit_release_def Let_def drop_wrows intro: latch_give)
next
  case (WriteC i)
  with assms(1,2) sets_okD [of T] show ?thesis
    by (auto simp: commit_write_def Let_def latches_keep simp del: latches_upd split: if_splits intro!: lock_change_same)
qed (use assms sets_okD [of T] in \<open>auto simp: silo_call_defs Let_def split: if_splits intro!: lock_change_same\<close>)

lemma silo_step_locks:
  assumes "silo_step pk act pc T R = Some (pc', T', R')" "silo_thread_ok pc T" "count_ok T"
  shows "lock_change (latches R) (silo_holds pc T) (latches R') (silo_holds pc' T')"
proof (cases act)
  case (SGet type r)
  with assms show ?thesis
    by (auto simp: silo_get_start_def silo_try_lock_def split: if_splits intro: lock_change_same latch_take)
next
  case SStep
  with assms show ?thesis by (auto intro: silo_continue_locks)
next
  case (SFinish rc)
  with assms sets_okD [of T] write_cnt_le [of T] show ?thesis
    by (auto simp: silo_finish_def split: if_splits intro!: lock_change_same)
qed (use assms in \<open>auto split: if_splits sum.splits intro: lock_change_same\<close>)

definition silo_locks_inv :: "'r silo_sys \<Rightarrow> bool" where
  "silo_locks_inv s \<longleftrightarrow> (\<forall>t. silo_thread_ok (sys_pc s t) (sys_txns s t) \<and> count_ok (sys_txns s t)) \<and>
     locks_ok (latches (sys_rows s)) (\<lambda>t. silo_holds (sys_pc s t) (sys_txns s t))"

lemma silo_log_sys [simp]:
  "sys_rows (silo_log t act pc T s) = sys_rows s" "sys_txns (silo_log t act pc T s) = sys_txns s" "sys_pc (silo_log t act pc T s) = sys_pc s"
  by (induction t act pc T s rule: silo_log.induct) (simp_all add: Let_def)

lemma silo_doE:
  assumes "silo_do pk (t, act) s = Some s'"
  obtains pc T R where "silo_step pk act (sys_pc s t) (sys_txns s t) (sys_rows s) = Some (pc, T, R)"
    "s' = (silo_log t act (sys_pc s t) (sys_txns s t) s)\<lparr>sys_rows := R, sys_txns := (sys_txns s)(t := T), sys_pc := (sys_pc s)(t := pc)\<rparr>"
  using assms by (auto simp: silo_do_def split: option.splits)

lemma silo_locks_inv_step:
  assumes "silo_locks_inv s" "silo_do pk e s = Some s'"
  shows "silo_locks_inv s'"
proof -
  obtain t act where e: "e = (t, act)" by (cases e)
  obtain pc T R where st: "silo_step pk act (sys_pc s t) (sys_txns s t) (sys_rows s) = Some (pc, T, R)"
    and s': "s' = (silo_log t act (sys_pc s t) (sys_txns s t) s)\<lparr>sys_rows := R, sys_txns := (sys_txns s)(t := T), sys_pc := (sys_pc s)(t := pc)\<rparr>"
    using assms(2) unfolding e by (rule silo_doE)
  have th: "silo_thread_ok (sys_pc s t) (sys_txns s t)" "count_ok (sys_txns s t)" using assms(1) by (simp_all add: silo_locks_inv_def)
  let ?H = "\<lambda>t. silo_holds (sys_pc s t) (sys_txns s t)"
  have "locks_ok (latches (sys_rows s)) ?H" using assms(1) by (simp add: silo_locks_inv_def)
  then have "locks_ok (latches R) (?H(t := silo_holds pc T))" by (rule locks_ok_change) (rule silo_step_locks [OF st th])
  moreover have "?H(t := silo_holds pc T) = (\<lambda>u. silo_holds (sys_pc s' u) (sys_txns s' u))" by (auto simp: s')
  ultimately show ?thesis
    using assms(1) silo_step_thread_ok [OF st th] by (simp add: silo_locks_inv_def s')
qed

lemma silo_locks_inv_init: "silo_locks_inv (silo_sys_init v)"
  by (simp add: silo_locks_inv_def silo_sys_init_def silo_txn_init_def count_ok_def locks_ok_def latches_def silo_row_init_def)

lemma silo_run_invariant:
  assumes "silo_run pk es s = Some s'" "P s" "\<And>e s s'. P s \<Longrightarrow> silo_do pk e s = Some s' \<Longrightarrow> P s'"
  shows "P s'"
  using assms(1,2)
proof (induction es arbitrary: s)
  case (Cons e es)
  then obtain s1 where s1: "silo_do pk e s = Some s1" "silo_run pk es s1 = Some s'"
    by (auto split: option.splits)
  from Cons.IH [OF s1(2) assms(3) [OF Cons.prems(2) s1(1)]] show ?case .
qed simp

lemma silo_run_locks_inv: "silo_run pk es (silo_sys_init v) = Some s \<Longrightarrow> silo_locks_inv s"
  by (erule silo_run_invariant) (auto intro: silo_locks_inv_init silo_locks_inv_step)

text \<open>
  Claim C11. Mutual exclusion, without leaks. In every interleaving a row is locked exactly when one transaction
  holds it, that transaction is unique, and when every transaction has finished, committed or
  aborted at whatever point, no row is locked.
\<close>

theorem silo_mutual_exclusion:
  assumes "silo_run pk es (silo_sys_init v) = Some s"
  shows "(silo_latch (sys_rows s r) \<longleftrightarrow> (\<exists>!t. r \<in> set (silo_holds (sys_pc s t) (sys_txns s t)))) \<and>
    ((\<forall>t. sys_pc s t = Finished) \<longrightarrow> \<not> silo_latch (sys_rows s r))"
proof -
  have lo: "locks_ok (latches (sys_rows s)) (\<lambda>t. silo_holds (sys_pc s t) (sys_txns s t))"
    using silo_run_locks_inv [OF assms] by (simp add: silo_locks_inv_def)
  have "silo_latch (sys_rows s r) \<longleftrightarrow> (\<exists>t. r \<in> set (silo_holds (sys_pc s t) (sys_txns s t)))"
    using locks_ok_latch [OF lo, of r] by (simp add: latches_def)
  then show ?thesis using locks_ok_unique [OF lo, of r] by auto
qed

definition sample_pk :: "row_ref \<Rightarrow> 64 word" where
  "sample_pk r = of_nat r"

text \<open>A transaction that has locked row 0, is validated and aborts all the same.\<close>

definition sample_abort :: "(txnid_t \<times> nat silo_act) list" where
  "sample_abort = map (Pair 1) [SBegin True True, SGet WR 0, SStep, SValidate, SStep, SStep, SStep, SStep, SStep, SStep, SStep, SStep, SStep]"

lemmas silo_eval = silo_call_defs silo_do_def silo_sys_init_def silo_txn_init_def silo_prepare_def bubble_sort_def
  sample_pk_def Let_def silo_row_init_def silo_release_def silo_write_def silo_get_tid_def
  silo_validate_def w_access_def r_access_def read_cnt_def numeral_eq_Suc

theorem silo_mutual_exclusion_witness:
  "\<exists>s s'. silo_run sample_pk sample_abort (silo_sys_init (\<lambda>_. 0)) = Some s \<and> silo_latch (sys_rows s 0) \<and>
     (\<exists>!t. 0 \<in> set (silo_holds (sys_pc s t) (sys_txns s t))) \<and>
     silo_run sample_pk (sample_abort @ map (Pair 1) [SFinish Abort, SStep, SStep]) (silo_sys_init (\<lambda>_. 0)) = Some s' \<and>
     (\<forall>t. sys_pc s' t = Finished) \<and> \<not> silo_latch (sys_rows s' 0)"
proof -
  have "\<exists>s. silo_run sample_pk sample_abort (silo_sys_init (\<lambda>_. 0)) = Some s \<and> silo_latch (sys_rows s 0)"
    unfolding sample_abort_def by (simp add: silo_eval)
  then obtain s where s: "silo_run sample_pk sample_abort (silo_sys_init (\<lambda>_. 0)) = Some s" "silo_latch (sys_rows s 0)" by blast
  have "\<exists>s'. silo_run sample_pk (sample_abort @ map (Pair 1) [SFinish Abort, SStep, SStep]) (silo_sys_init (\<lambda>_. 0)) = Some s' \<and>
      (\<forall>t. sys_pc s' t = Finished)"
    unfolding sample_abort_def by (simp add: silo_eval)
  then obtain s' where s': "silo_run sample_pk (sample_abort @ map (Pair 1) [SFinish Abort, SStep, SStep]) (silo_sys_init (\<lambda>_. 0)) = Some s'"
    "\<forall>t. sys_pc s' t = Finished" by blast
  show ?thesis
    using s s' silo_mutual_exclusion [OF s(1), of 0] silo_mutual_exclusion [OF s'(1), of 0] by blast
qed

section \<open>Waiting in key order\<close>

text \<open>The write set is in primary-key order while it is locked.\<close>

fun order_ok :: "(row_ref \<Rightarrow> 64 word) \<Rightarrow> silo_pc \<Rightarrow> 'r silo_txn \<Rightarrow> bool" where
  "order_ok pk (PreW i) T = sorted_wrt (\<lambda>a b. pk a \<le> pk b) (wrows T)"
| "order_ok pk (PreR i) T = sorted_wrt (\<lambda>a b. pk a \<le> pk b) (wrows T)"
| "order_ok pk (LockW i) T = sorted_wrt (\<lambda>a b. pk a \<le> pk b) (wrows T)"
| "order_ok pk (LockedW i) T = sorted_wrt (\<lambda>a b. pk a \<le> pk b) (wrows T)"
| "order_ok pk _ T = True"

lemma silo_prepare_sorted:
  assumes "silo_prepare pk T = Inr T'"
  shows "sorted_wrt (\<lambda>a b. pk a \<le> pk b) (wrows T')"
proof -
  obtain ws rs where "T' = T\<lparr>write_set := bubble_sort (\<lambda>i. pk (sa_orig (si_accesses T ! i))) ws, read_set := rs, num_locks := 0\<rparr>"
    using assms by (auto simp: silo_prepare_def bind_result_Inr_iff)
  then show ?thesis
    using bubble_sort_spec(2) [of "\<lambda>i. pk (sa_orig (si_accesses T ! i))" ws] by (simp add: wrows_def sorted_wrt_map)
qed

lemma silo_step_order_ok:
  assumes "silo_step pk act pc T R = Some (pc', T', R')" "order_ok pk pc T"
  shows "order_ok pk pc' T'"
proof (cases act)
  case SValidate
  with assms show ?thesis by (auto split: if_splits sum.splits dest: silo_prepare_sorted)
next
  case SStep
  show ?thesis
  proof (cases pc)
    case (LockW i)
    then have l: "lock_write i T R = Some (pc', R')" "T' = T"
      using assms(1) SStep by (cases "lock_write i T R"; force)+
    show ?thesis
    proof (cases "i < si_write_cnt T")
      case True
      with lock_write_cases [OF l(1)] l(2) LockW assms(2) show ?thesis by auto
    next
      case False
      with l show ?thesis by (auto simp: lock_write_def)
    qed
  qed (use SStep assms in \<open>auto simp: silo_call_defs Let_def split: if_splits\<close>)
qed (use assms in \<open>auto simp: silo_call_defs Let_def split: if_splits\<close>)

definition silo_blocked :: "'r silo_sys \<Rightarrow> txnid_t \<Rightarrow> bool" where
  "silo_blocked s t \<longleftrightarrow> (\<exists>i. sys_pc s t = LockW i \<and> lock_write i (sys_txns s t) (sys_rows s) = None)"

definition silo_waits :: "'r silo_sys \<Rightarrow> txnid_t \<Rightarrow> txnid_t \<Rightarrow> bool" where
  "silo_waits s t u \<longleftrightarrow> (\<exists>i. silo_blocked s t \<and> sys_pc s t = LockW i \<and>
     sa_orig (w_access (sys_txns s t) i) \<in> set (silo_holds (sys_pc s u) (sys_txns s u)))"

text \<open>The rank of a transaction that waits is the key of the row it waits for.\<close>

definition silo_rank :: "(row_ref \<Rightarrow> 64 word) \<Rightarrow> 'r silo_sys \<Rightarrow> txnid_t \<Rightarrow> nat" where
  "silo_rank pk s t = (case sys_pc s t of
     LockW i \<Rightarrow> if i < si_write_cnt (sys_txns s t) then unat (pk (sa_orig (w_access (sys_txns s t) i))) else 2 ^ 64
   | _ \<Rightarrow> 2 ^ 64)"

definition silo_wait_inv :: "(row_ref \<Rightarrow> 64 word) \<Rightarrow> 'r silo_sys \<Rightarrow> bool" where
  "silo_wait_inv pk s \<longleftrightarrow> silo_locks_inv s \<and> (\<forall>t. order_ok pk (sys_pc s t) (sys_txns s t)) \<and> finite {t. sys_pc s t \<noteq> Finished}"

definition silo_wait_ok :: "(row_ref \<Rightarrow> 64 word) \<Rightarrow> 'r silo_sys \<Rightarrow> bool" where
  "silo_wait_ok pk s \<longleftrightarrow> silo_wait_inv pk s \<and> inj_on pk {r. \<exists>t. r \<in> set (wrows (sys_txns s t))} \<and> (\<forall>t. distinct (wrows (sys_txns s t)))"

lemma silo_wait_inv_step:
  assumes "silo_wait_inv pk s" "silo_do pk e s = Some s'"
  shows "silo_wait_inv pk s'"
proof -
  obtain t act where e: "e = (t, act)" by (cases e)
  obtain pc T R where st: "silo_step pk act (sys_pc s t) (sys_txns s t) (sys_rows s) = Some (pc, T, R)"
    and s': "s' = (silo_log t act (sys_pc s t) (sys_txns s t) s)\<lparr>sys_rows := R, sys_txns := (sys_txns s)(t := T), sys_pc := (sys_pc s)(t := pc)\<rparr>"
    using assms(2) unfolding e by (rule silo_doE)
  have "{u. sys_pc s' u \<noteq> Finished} \<subseteq> insert t {u. sys_pc s u \<noteq> Finished}" by (auto simp: s' split: if_splits)
  then have "finite {u. sys_pc s' u \<noteq> Finished}" using assms(1) by (auto simp: silo_wait_inv_def dest: finite_subset)
  moreover have "order_ok pk pc T" using silo_step_order_ok [OF st] assms(1) by (simp add: silo_wait_inv_def)
  ultimately show ?thesis
    using assms silo_locks_inv_step [OF _ assms(2)] by (simp add: silo_wait_inv_def s')
qed

lemma silo_waits_rank:
  assumes "silo_wait_ok pk s" "silo_waits s t u"
  shows "silo_rank pk s t < silo_rank pk s u"
proof -
  obtain i where i: "silo_blocked s t" "sys_pc s t = LockW i" "sa_orig (w_access (sys_txns s t) i) \<in> set (silo_holds (sys_pc s u) (sys_txns s u))"
    using assms(2) by (auto simp: silo_waits_def)
  let ?r = "sa_orig (w_access (sys_txns s t) i)"
  have lt: "i < si_write_cnt (sys_txns s t)" using i(1,2) by (auto simp: silo_blocked_def lock_write_def split: if_splits)
  then have rank: "silo_rank pk s t = unat (pk ?r)" using i(2) by (simp add: silo_rank_def)
  have below: "unat (pk ?r) < 2 ^ 64" using unsigned_less [of "pk ?r"] by simp
  show ?thesis
  proof (cases "\<exists>j. sys_pc s u = LockW j \<and> j < si_write_cnt (sys_txns s u)")
    case True
    then obtain j where j: "sys_pc s u = LockW j" "j < si_write_cnt (sys_txns s u)" by blast
    let ?q = "sa_orig (w_access (sys_txns s u) j)"
    have "silo_thread_ok (sys_pc s u) (sys_txns s u)" "order_ok pk (sys_pc s u) (sys_txns s u)"
      using assms(1) by (simp_all add: silo_wait_ok_def silo_wait_inv_def silo_locks_inv_def)
    then have ok: "silo_thread_ok (LockW j) (sys_txns s u)" "sorted_wrt (\<lambda>a b. pk a \<le> pk b) (wrows (sys_txns s u))"
      by (simp_all add: j(1))
    have dist: "distinct (wrows (sys_txns s u))" using assms(1) by (simp add: silo_wait_ok_def)
    have len: "j < length (wrows (sys_txns s u))" using ok(1) j(2) sets_okD [of "sys_txns s u"] by simp
    obtain k where k: "k < j" "wrows (sys_txns s u) ! k = ?r"
      using i(3) j(1) len by (auto simp: in_set_conv_nth)
    have "wrows (sys_txns s u) ! j = ?q" using len by (simp add: wrows_nth)
    moreover from this k len have rows: "?r \<in> {r. \<exists>t. r \<in> set (wrows (sys_txns s t))}" "?q \<in> {r. \<exists>t. r \<in> set (wrows (sys_txns s t))}"
      using nth_mem [of k "wrows (sys_txns s u)"] nth_mem [of j "wrows (sys_txns s u)"] by auto
    ultimately have "pk ?r \<le> pk ?q" "?r \<noteq> ?q"
      using sorted_wrt_nth_less [OF ok(2) k(1) len] k nth_eq_iff_index_eq [OF dist, of k j] len by auto
    moreover have "pk ?r \<noteq> pk ?q"
      using inj_on_contraD [OF _ \<open>?r \<noteq> ?q\<close> rows, of pk] assms(1) by (simp add: silo_wait_ok_def)
    ultimately have "pk ?r < pk ?q" by (simp only: order.strict_iff_order simp_thms)
    then have "unat (pk ?r) < unat (pk ?q)" by (rule unat_mono)
    then show ?thesis using rank j by (simp add: silo_rank_def)
  next
    case False
    then have "silo_rank pk s u = 2 ^ 64" by (auto simp: silo_rank_def split: silo_pc.splits)
    then show ?thesis using rank below by simp
  qed
qed

interpretation silo_w: ranked_waits "silo_wait_ok pk" "silo_rank pk" silo_waits
  by unfold_locales (rule silo_waits_rank)

lemma silo_run_wait_inv: "silo_run pk es (silo_sys_init v) = Some s \<Longrightarrow> silo_wait_inv pk s"
proof (erule silo_run_invariant)
  show "silo_wait_inv pk (silo_sys_init v)"
    using silo_locks_inv_init [of v] by (simp add: silo_wait_inv_def silo_sys_init_def)
qed (rule silo_wait_inv_step)

lemma holder_can_step:
  assumes "silo_holds (sys_pc s u) (sys_txns s u) \<noteq> []" "\<not> silo_blocked s u"
  shows "\<exists>act. silo_do pk (u, act) s \<noteq> None"
proof -
  have "\<exists>act. silo_step pk act (sys_pc s u) (sys_txns s u) (sys_rows s) \<noteq> None"
  proof (cases "sys_pc s u")
    case Validated
    then show ?thesis by (intro exI [of _ "SFinish Abort"]) simp
  next
    case Failed
    then show ?thesis by (intro exI [of _ "SFinish Abort"]) simp
  next
    case (LockW i)
    with assms(2) show ?thesis by (intro exI [of _ SStep]) (simp add: silo_blocked_def)
  qed (use assms(1) in \<open>auto intro!: exI [of _ SStep] simp: silo_get_end_def locked_write_def check_read_def held_read_def
      check_write_def commit_release_def commit_write_def abort_release_def Let_def silo_try_lock_def split: if_splits\<close>)
  then show ?thesis by (auto simp: silo_do_def split: option.splits)
qed

text \<open>
  Claim C15. In waiting mode validation cannot deadlock: write sets are locked in primary-key order, so if keys
  identify rows and no transaction writes a row through two accesses, then whenever some transaction
  is blocked there is a blocked one that waits for a transaction that is not and that can take a step.
\<close>

theorem silo_waiting_no_deadlock:
  assumes "silo_run pk es (silo_sys_init v) = Some s" "inj_on pk {r. \<exists>t. r \<in> set (wrows (sys_txns s t))}" "\<forall>t. distinct (wrows (sys_txns s t))" "silo_blocked s t"
  shows "\<exists>a u. silo_blocked s a \<and> silo_waits s a u \<and> \<not> silo_blocked s u \<and> (\<exists>act. silo_do pk (u, act) s \<noteq> None)"
proof -
  have inv: "silo_wait_inv pk s" using assms(1) by (rule silo_run_wait_inv)
  then have ok: "silo_wait_ok pk s" using assms(2,3) by (simp add: silo_wait_ok_def)
  have "{t. silo_blocked s t} \<subseteq> {t. sys_pc s t \<noteq> Finished}" by (auto simp: silo_blocked_def)
  then have "finite {t. silo_blocked s t}" using inv by (auto simp: silo_wait_inv_def dest: finite_subset)
  then obtain a where a: "silo_blocked s a" "\<And>b. silo_blocked s b \<Longrightarrow> \<not> silo_waits s a b"
    using silo_w.some_unblocked [OF ok, of "{t. silo_blocked s t}"] assms(4) by auto
  then obtain i where i: "sys_pc s a = LockW i" "lock_write i (sys_txns s a) (sys_rows s) = None" by (auto simp: silo_blocked_def)
  then have "latches (sys_rows s) (sa_orig (w_access (sys_txns s a) i))"
    by (auto simp: lock_write_def silo_lock_def silo_try_lock_def latches_def Let_def split: if_splits)
  moreover have lo: "locks_ok (latches (sys_rows s)) (\<lambda>t. silo_holds (sys_pc s t) (sys_txns s t))"
    using inv by (simp add: silo_wait_inv_def silo_locks_inv_def)
  ultimately obtain u where u: "sa_orig (w_access (sys_txns s a) i) \<in> set (silo_holds (sys_pc s u) (sys_txns s u))"
    using locks_ok_latch [OF lo, of "sa_orig (w_access (sys_txns s a) i)"] by auto
  then have w: "silo_waits s a u" using a(1) i(1) by (auto simp: silo_waits_def)
  then have nb: "\<not> silo_blocked s u" using a(2) by blast
  have "silo_holds (sys_pc s u) (sys_txns s u) \<noteq> []" using u by auto
  then show ?thesis using a(1) w nb holder_can_step [of s u pk] by blast
qed

text \<open>Transaction 2 waits for the row that transaction 1 has locked.\<close>

definition sample_wait :: "(txnid_t \<times> nat silo_act) list" where
  "sample_wait = map (Pair 1) [SBegin False False, SGet WR 0, SStep] @ map (Pair 2) [SBegin False False, SGet WR 0, SStep] @
     [(1, SValidate), (1, SStep), (2, SValidate)]"

theorem silo_waiting_no_deadlock_witness:
  "\<exists>s. silo_run sample_pk sample_wait (silo_sys_init (\<lambda>_. 0)) = Some s \<and> silo_blocked s 2 \<and>
     (\<exists>a u. silo_blocked s a \<and> silo_waits s a u \<and> \<not> silo_blocked s u \<and> (\<exists>act. silo_do sample_pk (u, act) s \<noteq> None))"
proof -
  have "\<exists>s. silo_run sample_pk sample_wait (silo_sys_init (\<lambda>_. 0)) = Some s \<and> silo_blocked s 2 \<and>
      (\<forall>t. wrows (sys_txns s t) \<in> {[], [0]})"
    unfolding sample_wait_def by (simp add: silo_eval silo_blocked_def wrows_def)
  then obtain s where s: "silo_run sample_pk sample_wait (silo_sys_init (\<lambda>_. 0)) = Some s" "silo_blocked s 2"
    "\<And>t. wrows (sys_txns s t) \<in> {[], [0]}" by blast
  have "r = 0" if "r \<in> set (wrows (sys_txns s t))" for r t using s(3) [of t] that by auto
  then have "inj_on sample_pk {r. \<exists>t. r \<in> set (wrows (sys_txns s t))}" by (auto simp: inj_on_def)
  moreover have "distinct (wrows (sys_txns s t))" for t using s(3) [of t] by auto
  ultimately show ?thesis using s(1,2) silo_waiting_no_deadlock [OF s(1) _ _ s(2)] by blast
qed

section \<open>Validation ends\<close>

text \<open>The number of steps that are left in the call a transaction is in.\<close>

fun silo_measure :: "silo_pc \<Rightarrow> 'r silo_txn \<Rightarrow> nat" where
  "silo_measure (Reading type r) T = 1"
| "silo_measure (PreW i) T = 5 + 3 * si_write_cnt T + 3 * read_cnt T + (si_write_cnt T - i)"
| "silo_measure (PreR i) T = 4 + 3 * si_write_cnt T + 2 * read_cnt T + (read_cnt T - i)"
| "silo_measure (LockW i) T = 3 + si_write_cnt T + 2 * read_cnt T + 2 * (si_write_cnt T - i)"
| "silo_measure (LockedW i) T = 2 + si_write_cnt T + 2 * read_cnt T + 2 * (si_write_cnt T - i)"
| "silo_measure (CheckR i m) T = 2 + si_write_cnt T + 2 * (read_cnt T - i)"
| "silo_measure (HeldR i m) T = 1 + si_write_cnt T + 2 * (read_cnt T - i)"
| "silo_measure (CheckW i m) T = 1 + (si_write_cnt T - i)"
| "silo_measure (WriteC i) T = 1 + 2 * (si_write_cnt T - i)"
| "silo_measure (RelC i) T = 2 * (si_write_cnt T - i)"
| "silo_measure (RelA i) T = 1 + (num_locks T - i)"
| "silo_measure _ T = 0"

lemma silo_continue_measure:
  assumes "silo_continue pc T R = Some (pc', T', R')" "silo_thread_ok pc T"
  shows "silo_measure pc' T' < silo_measure pc T"
proof (cases pc)
  case (LockW i)
  then have l: "lock_write i T R = Some (pc', R')" "T' = T"
    using assms(1) by (cases "lock_write i T R"; force)+
  show ?thesis
  proof (cases "i < si_write_cnt T")
    case True
    with lock_write_cases [OF l(1)] l(2) LockW show ?thesis by auto
  next
    case False
    with l LockW show ?thesis by (auto simp: lock_write_def)
  qed
qed (use assms in \<open>auto simp: silo_call_defs Let_def split: if_splits\<close>)

lemma silo_continue_total:
  assumes "pc \<notin> {Running, Validated, Failed, Finished}" "validation_no_wait T"
  shows "silo_continue pc T R \<noteq> None"
  using assms by (cases pc) (auto simp: silo_call_defs Let_def split: if_splits)

lemma silo_run_steps:
  assumes "silo_run pk es s = Some s'" "silo_locks_inv s" "\<forall>e\<in>set es. fst e = t \<longrightarrow> snd e = SStep"
  shows "length (filter (\<lambda>e. fst e = t) es) + silo_measure (sys_pc s' t) (sys_txns s' t) \<le> silo_measure (sys_pc s t) (sys_txns s t)"
  using assms
proof (induction es arbitrary: s)
  case (Cons e es)
  obtain u act where e: "e = (u, act)" by (cases e)
  obtain s1 where s1: "silo_do pk e s = Some s1" "silo_run pk es s1 = Some s'"
    using Cons.prems(1) by (auto split: option.splits)
  obtain pc T R where st: "silo_step pk act (sys_pc s u) (sys_txns s u) (sys_rows s) = Some (pc, T, R)"
    and s1': "s1 = (silo_log u act (sys_pc s u) (sys_txns s u) s)\<lparr>sys_rows := R, sys_txns := (sys_txns s)(u := T), sys_pc := (sys_pc s)(u := pc)\<rparr>"
    using s1(1) unfolding e by (rule silo_doE)
  have IH: "length (filter (\<lambda>e. fst e = t) es) + silo_measure (sys_pc s' t) (sys_txns s' t) \<le> silo_measure (sys_pc s1 t) (sys_txns s1 t)"
    using Cons.prems(3) by (intro Cons.IH [OF s1(2) silo_locks_inv_step [OF Cons.prems(2) s1(1)]]) simp
  show ?case
  proof (cases "u = t")
    case True
    then have "act = SStep" using Cons.prems(3) e by simp
    then have "silo_measure pc T < silo_measure (sys_pc s t) (sys_txns s t)"
      using st True Cons.prems(2) by (intro silo_continue_measure) (auto simp: silo_locks_inv_def)
    then show ?thesis using IH True by (simp add: e s1')
  qed (use IH in \<open>simp add: e s1'\<close>)
qed simp

text \<open>
  Claim C16. Validation ends. In no-wait mode a transaction inside a call can always go on, whatever the others do;
  and from any point it does so at most \<open>5 + 4 * write_cnt + 3 * read_cnt\<close> times before it has a verdict
  or has finished.
\<close>

theorem silo_validation_terminates:
  assumes "silo_run pk es (silo_sys_init v) = Some s"
  shows "(validation_no_wait (sys_txns s t) \<and> sys_pc s t \<notin> {Running, Validated, Failed, Finished} \<longrightarrow> silo_do pk (t, SStep) s \<noteq> None) \<and>
    (silo_run pk es' s = Some s' \<and> (\<forall>e\<in>set es'. fst e = t \<longrightarrow> snd e = SStep) \<longrightarrow>
       length (filter (\<lambda>e. fst e = t) es') \<le> 5 + 4 * si_write_cnt (sys_txns s t) + 3 * read_cnt (sys_txns s t))"
proof -
  have inv: "silo_locks_inv s" using assms by (rule silo_run_locks_inv)
  have "silo_measure (sys_pc s t) (sys_txns s t) \<le> 5 + 4 * si_write_cnt (sys_txns s t) + 3 * read_cnt (sys_txns s t)"
  proof -
    have ok: "silo_thread_ok (sys_pc s t) (sys_txns s t)" "count_ok (sys_txns s t)" using inv by (simp_all add: silo_locks_inv_def)
    have "length (si_accesses (sys_txns s t)) = si_write_cnt (sys_txns s t) + read_cnt (sys_txns s t)"
      using write_cnt_le [OF ok(2)] by (simp add: read_cnt_def)
    then show ?thesis using ok(1) by (cases "sys_pc s t") auto
  qed
  moreover have "silo_do pk (t, SStep) s \<noteq> None"
    if "validation_no_wait (sys_txns s t)" "sys_pc s t \<notin> {Running, Validated, Failed, Finished}"
    using silo_continue_total [OF that(2,1), of "sys_rows s"] by (auto simp: silo_do_def)
  ultimately show ?thesis using silo_run_steps [OF _ inv, of pk es' s' t] by fastforce
qed

theorem silo_validation_terminates_witness:
  "\<exists>s s'. silo_run sample_pk (take 4 sample_abort) (silo_sys_init (\<lambda>_. 0)) = Some s \<and> silo_run sample_pk (drop 4 sample_abort) s = Some s' \<and>
     sys_pc s 1 = PreW 0 \<and> sys_pc s' 1 = Validated \<and> silo_do sample_pk (1, SStep) s \<noteq> None \<and> length (drop 4 sample_abort) \<le> 9"
proof -
  have "\<exists>s s'. silo_run sample_pk (take 4 sample_abort) (silo_sys_init (\<lambda>_. 0)) = Some s \<and> silo_run sample_pk (drop 4 sample_abort) s = Some s' \<and>
      sys_pc s 1 = PreW 0 \<and> validation_no_wait (sys_txns s 1) \<and> sys_pc s' 1 = Validated \<and>
      si_write_cnt (sys_txns s 1) = 1 \<and> read_cnt (sys_txns s 1) = 0"
    unfolding sample_abort_def by (simp add: silo_eval)
  then obtain s s' where s: "silo_run sample_pk (take 4 sample_abort) (silo_sys_init (\<lambda>_. 0)) = Some s"
    and s': "silo_run sample_pk (drop 4 sample_abort) s = Some s'" "sys_pc s 1 = PreW 0" "validation_no_wait (sys_txns s 1)" "sys_pc s' 1 = Validated"
      "si_write_cnt (sys_txns s 1) = 1" "read_cnt (sys_txns s 1) = 0"
    by blast
  have "\<forall>e\<in>set (drop 4 sample_abort). fst e = 1 \<longrightarrow> snd e = SStep" "filter (\<lambda>e. fst e = 1) (drop 4 sample_abort) = drop 4 sample_abort"
    by (simp_all add: sample_abort_def)
  with silo_validation_terminates [OF s, of 1 "drop 4 sample_abort" s'] s s' show ?thesis by (intro exI [of _ s] exI [of _ s']) simp
qed

end
