(* ===== verification/SiloSerial.thy ===== *)
theory SiloSerial
imports Silo
begin

text \<open>
  Serialisability of Silo. Transactions are numbered when they have locked their write set; as long as
  no row gets the same transaction id twice, every committed transaction has read what a serial
  execution in the order of these numbers gives. The ids the code draws are not unique, and the last
  theorem shows the lost update this allows.
\<close>

section \<open>The order of commits\<close>

text \<open>Past the lock point; committing; and the rows that are still to be written.\<close>

fun committing :: "silo_pc \<Rightarrow> bool" where
  "committing (WriteC i) = True"
| "committing (RelC i) = True"
| "committing _ = False"

fun validating :: "silo_pc \<Rightarrow> bool" where
  "validating (CheckR i m) = True"
| "validating (HeldR i m) = True"
| "validating (CheckW i m) = True"
| "validating Validated = True"
| "validating _ = False"

definition past :: "silo_pc \<Rightarrow> bool" where
  "past pc \<longleftrightarrow> validating pc \<or> committing pc"

fun live :: "silo_pc \<Rightarrow> bool" where
  "live Failed = False"
| "live (RelA i) = False"
| "live Finished = False"
| "live _ = True"

fun towrite :: "silo_pc \<Rightarrow> 'r silo_txn \<Rightarrow> row_ref list" where
  "towrite (WriteC i) T = drop i (wrows T)"
| "towrite (RelC i) T = drop (Suc i) (wrows T)"
| "towrite pc T = (if validating pc then wrows T else [])"

text \<open>How many rows of the write set are locked with the id the transaction has seen, and how many
  reads are checked.\<close>

fun checked_writes :: "silo_pc \<Rightarrow> 'r silo_txn \<Rightarrow> nat" where
  "checked_writes (LockW i) T = i"
| "checked_writes (LockedW i) T = i"
| "checked_writes pc T = (if validating pc then si_write_cnt T else 0)"

fun checked_reads :: "silo_pc \<Rightarrow> 'r silo_txn \<Rightarrow> nat" where
  "checked_reads (CheckR i m) T = i"
| "checked_reads (HeldR i m) T = i"
| "checked_reads pc T = (if validating pc then read_cnt T else 0)"

definition version_before :: "nat \<Rightarrow> (nat \<times> ts_t \<times> 'r) list \<Rightarrow> 'r" where
  "version_before n h = snd (snd (hd (dropWhile (\<lambda>e. n \<le> fst e) h)))"

abbreviation to_write :: "'r silo_sys \<Rightarrow> txnid_t \<Rightarrow> row_ref set" where
  "to_write s t \<equiv> set (towrite (sys_pc s t) (sys_txns s t))"

text \<open>A read is settled when no version that precedes the reader can still be added.\<close>

definition settled :: "'r silo_sys \<Rightarrow> nat \<Rightarrow> row_ref \<Rightarrow> 'r \<Rightarrow> bool" where
  "settled s n r v \<longleftrightarrow> v = version_before n (g_hist s r) \<and> (\<forall>u. r \<in> to_write s u \<longrightarrow> n \<le> g_seq s u)"

definition hist_inv :: "'r silo_sys \<Rightarrow> bool" where
  "hist_inv s \<longleftrightarrow> (\<forall>r. (\<exists>n h. g_hist s r = (n, silo_tid (sys_rows s r), silo_row (sys_rows s r)) # h) \<and>
     sorted_wrt (\<lambda>a b. b < a) (map fst (g_hist s r)) \<and> (\<forall>e\<in>set (g_hist s r). fst e < g_clock s))"

definition seen_inv :: "'r silo_sys \<Rightarrow> bool" where
  "seen_inv s \<longleftrightarrow> (\<forall>t. live (sys_pc s t) \<longrightarrow> length (g_seen s t) = length (si_accesses (sys_txns s t)) \<and>
     (\<forall>k<length (g_seen s t). \<exists>n. (n, sa_tid (si_accesses (sys_txns s t) ! k), g_seen s t ! k)
        \<in> set (g_hist s (sa_orig (si_accesses (sys_txns s t) ! k))) \<and> (past (sys_pc s t) \<longrightarrow> n < g_seq s t)))"

definition order_inv :: "'r silo_sys \<Rightarrow> bool" where
  "order_inv s \<longleftrightarrow> (\<forall>t. past (sys_pc s t) \<longrightarrow> g_seq s t < g_clock s \<and>
     (\<forall>r\<in>to_write s t. \<forall>e\<in>set (g_hist s r). fst e < g_seq s t))"

definition held_inv :: "'r silo_sys \<Rightarrow> bool" where
  "held_inv s \<longleftrightarrow> (\<forall>t. \<forall>j<checked_writes (sys_pc s t) (sys_txns s t).
     silo_tid (sys_rows s (sa_orig (w_access (sys_txns s t) j))) = sa_tid (w_access (sys_txns s t) j))"

definition fresh_tids :: "'r silo_sys \<Rightarrow> bool" where
  "fresh_tids s \<longleftrightarrow> (\<forall>r. distinct (map (fst \<circ> snd) (g_hist s r)))"

definition reads_inv :: "'r silo_sys \<Rightarrow> bool" where
  "reads_inv s \<longleftrightarrow> (\<forall>t. \<forall>j<checked_reads (sys_pc s t) (sys_txns s t).
     settled s (g_seq s t) (sa_orig (r_access (sys_txns s t) j)) (g_seen s t ! (read_set (sys_txns s t) ! j)))"

definition done_inv :: "'r silo_sys \<Rightarrow> bool" where
  "done_inv s \<longleftrightarrow> (\<forall>(n, reads, writes)\<in>set (g_done s). \<forall>(r, v)\<in>set reads. settled s n r v)"

definition number_inv :: "'r silo_sys \<Rightarrow> bool" where
  "number_inv s \<longleftrightarrow> distinct (map fst (g_done s)) \<and> (\<forall>d\<in>set (g_done s). fst d < g_clock s) \<and>
     (\<forall>t. validating (sys_pc s t) \<longrightarrow> g_seq s t \<notin> fst ` set (g_done s)) \<and>
     (\<forall>t u. past (sys_pc s t) \<longrightarrow> past (sys_pc s u) \<longrightarrow> g_seq s t = g_seq s u \<longrightarrow> t = u)"

definition commit_inv :: "'r silo_sys \<Rightarrow> bool" where
  "commit_inv s \<longleftrightarrow> (\<forall>t. committing (sys_pc s t) \<longrightarrow> distinct (wrows (sys_txns s t)) \<and>
     (\<exists>reads. (g_seq s t, reads, writes_of (sys_txns s t)) \<in> set (g_done s)))"

definition origin_inv :: "(row_ref \<Rightarrow> 'r) \<Rightarrow> 'r silo_sys \<Rightarrow> bool" where
  "origin_inv v0 s \<longleftrightarrow> (\<forall>r n tid v. (n, tid, v) \<in> set (g_hist s r) \<longrightarrow>
     n = 0 \<and> v = v0 r \<or> (\<exists>reads writes. (n, reads, writes) \<in> set (g_done s) \<and> (r, v) \<in> set writes))"

definition install_inv :: "'r silo_sys \<Rightarrow> bool" where
  "install_inv s \<longleftrightarrow> (\<forall>n reads writes r v. (n, reads, writes) \<in> set (g_done s) \<longrightarrow> (r, v) \<in> set writes \<longrightarrow>
     (\<exists>tid. (n, tid, v) \<in> set (g_hist s r)) \<or>
     (\<exists>t. committing (sys_pc s t) \<and> g_seq s t = n \<and> writes_of (sys_txns s t) = writes \<and> r \<in> to_write s t))"

lemma towrite_holds: "set (towrite pc T) \<subseteq> set (silo_holds pc T)"
proof (cases pc)
  case (RelC i)
  then show ?thesis using set_drop_subset_set_drop [of i "Suc i" "wrows T"] by simp
qed auto

text \<open>
  The steps that neither write a row, nor pass the lock point, nor commit, nor read a value: what they
  may change.
\<close>

definition same_rows :: "'r silo_rows \<Rightarrow> 'r silo_rows \<Rightarrow> bool" where
  "same_rows R R' \<longleftrightarrow> (\<forall>r. silo_tid (R' r) = silo_tid (R r) \<and> silo_row (R' r) = silo_row (R r))"

definition same_reads :: "'r silo_txn \<Rightarrow> 'r silo_txn \<Rightarrow> bool" where
  "same_reads T T' \<longleftrightarrow> map (\<lambda>a. (sa_orig a, sa_tid a)) (si_accesses T') = map (\<lambda>a. (sa_orig a, sa_tid a)) (si_accesses T)"

definition same_sets :: "'r silo_txn \<Rightarrow> 'r silo_txn \<Rightarrow> bool" where
  "same_sets T T' \<longleftrightarrow> si_accesses T' = si_accesses T \<and> write_set T' = write_set T \<and> read_set T' = read_set T"

definition quiet :: "silo_pc \<Rightarrow> 'r silo_txn \<Rightarrow> 'r silo_rows \<Rightarrow> silo_pc \<Rightarrow> 'r silo_txn \<Rightarrow> 'r silo_rows \<Rightarrow> bool" where
  "quiet pc T R pc' T' R' \<longleftrightarrow> same_rows R R' \<and>
     (live pc' \<longrightarrow> live pc \<and> same_reads T T') \<and>
     (past pc' \<longrightarrow> past pc) \<and> (validating pc' \<longrightarrow> validating pc) \<and> (committing pc' \<longrightarrow> committing pc) \<and>
     set (towrite pc' T') \<subseteq> set (towrite pc T) \<and>
     (committing pc \<longrightarrow> T' = T\<lparr>num_locks := num_locks T'\<rparr> \<and> towrite pc' T' = towrite pc T \<and> (committing pc' \<or> towrite pc T = [])) \<and>
     (checked_writes pc' T' \<noteq> 0 \<longrightarrow> same_sets T T') \<and> (checked_reads pc' T' \<noteq> 0 \<longrightarrow> same_sets T T') \<and>
     (\<forall>j<checked_writes pc' T'. j < checked_writes pc T \<or> silo_tid (R (sa_orig (w_access T j))) = sa_tid (w_access T j)) \<and>
     (\<forall>j<checked_reads pc' T'. j < checked_reads pc T \<or>
        sa_orig (r_access T j) \<in> set (silo_holds pc T) \<and> validating pc \<and> silo_tid (R (sa_orig (r_access T j))) = sa_tid (r_access T j))"

lemma same_rows_refl [simp]: "same_rows R R"
  by (simp add: same_rows_def)

lemma same_rows_upd [simp]:
  "silo_tid x = silo_tid (R r) \<Longrightarrow> silo_row x = silo_row (R r) \<Longrightarrow> same_rows R (R(r := x))"
  by (simp add: same_rows_def)

lemma same_refl [simp]: "same_reads T T" "same_sets T T"
  by (simp_all add: same_reads_def same_sets_def)

lemma same_upd [simp]:
  "same_reads T (T\<lparr>num_locks := n\<rparr>)" "same_sets T (T\<lparr>num_locks := n\<rparr>)"
  "same_reads T (T\<lparr>cur_tid := m\<rparr>)" "same_sets T (T\<lparr>cur_tid := m\<rparr>)"
  "same_reads T (T\<lparr>si_max_tid := m, cur_tid := a, si_commit_ts := b\<rparr>)" "same_sets T (T\<lparr>si_max_tid := m, cur_tid := a, si_commit_ts := b\<rparr>)"
  by (simp_all add: same_reads_def same_sets_def)

lemma w_access_upd [simp]: "w_access (T\<lparr>num_locks := n\<rparr>) = w_access T" "r_access (T\<lparr>num_locks := n\<rparr>) = r_access T"
  by (simp_all add: fun_eq_iff w_access_def r_access_def)

lemma silo_continue_quiet:
  assumes "silo_continue pc T R = Some (pc', T', R')" "silo_thread_ok pc T"
    and "\<And>type r. pc \<noteq> Reading type r" "\<And>i. pc = LockW i \<Longrightarrow> i < si_write_cnt T" "\<And>i. pc = WriteC i \<Longrightarrow> \<not> i < si_write_cnt T"
  shows "quiet pc T R pc' T' R'"
proof (cases pc)
  case (LockW i)
  then have l: "lock_write i T R = Some (pc', R')" "T' = T"
    using assms(1) by (cases "lock_write i T R"; force)+
  from lock_write_cases [OF l(1) assms(4) [OF LockW]] l(2) LockW show ?thesis
    by (auto simp: quiet_def past_def)
next
  case (LockedW i)
  with assms(1,2) show ?thesis 
    by (cases "silo_tid (R (sa_orig (w_access T i))) = sa_tid (w_access T i)") (auto simp: quiet_def past_def locked_write_def less_Suc_eq)
next
  case (CheckW i m)
  with assms(1,2) show ?thesis
    by (auto simp: quiet_def past_def check_write_def silo_draw_tid_def Let_def split: if_splits)
next
  case (WriteC i)
  with assms(1,2,5) sets_okD [of T] show ?thesis by (auto simp: quiet_def past_def commit_write_def)
next
  case (HeldR i m)
  with assms(1,2) show ?thesis 
    by (cases "silo_tid (R (sa_orig (r_access T i))) = sa_tid (r_access T i)") (auto simp: quiet_def past_def held_read_def Let_def less_Suc_eq)
next
  case (CheckR i m)
  with assms(1,2) show ?thesis
    by (auto simp: quiet_def past_def check_read_def silo_try_lock_def Let_def split: if_splits)
qed (use assms in \<open>auto simp: quiet_def past_def silo_call_defs Let_def split: if_splits\<close>)

lemma silo_do_cases [consumes 2, case_names Quiet Begin Read LockPoint Commit Write]:
  assumes "silo_do pk (t, act) s = Some s'" "silo_locks_inv s"
  obtains
    pc T R where "quiet (sys_pc s t) (sys_txns s t) (sys_rows s) pc T R"
      "s' = s\<lparr>sys_rows := R, sys_txns := (sys_txns s)(t := T), sys_pc := (sys_pc s)(t := pc)\<rparr>"
  | T where "sys_pc s t = Finished" "si_accesses T = []"
      "s' = s\<lparr>sys_txns := (sys_txns s)(t := T), sys_pc := (sys_pc s)(t := Running), g_seen := (g_seen s)(t := [])\<rparr>"
  | type r a T R where "sys_pc s t = Reading type r" "si_accesses T = si_accesses (sys_txns s t) @ [a]" "sa_orig a = r"
      "sa_tid a = silo_tid (sys_rows s r)" "same_rows (sys_rows s) R"
      "s' = s\<lparr>sys_rows := R, sys_txns := (sys_txns s)(t := T), sys_pc := (sys_pc s)(t := Running),
         g_seen := (g_seen s)(t := g_seen s t @ [silo_row (sys_rows s r)])\<rparr>"
  | "sys_pc s t = LockW (si_write_cnt (sys_txns s t))"
      "s' = s\<lparr>sys_pc := (sys_pc s)(t := CheckR 0 0), g_seq := (g_seq s)(t := g_clock s), g_clock := Suc (g_clock s)\<rparr>"
  | "sys_pc s t = Validated"
      "s' = s\<lparr>sys_pc := (sys_pc s)(t := WriteC 0), g_done := (g_seq s t, reads_of (sys_txns s t) (g_seen s t), writes_of (sys_txns s t)) # g_done s\<rparr>"
  | i where "sys_pc s t = WriteC i" "i < si_write_cnt (sys_txns s t)"
      "s' = s\<lparr>sys_rows := (sys_rows s)(sa_orig (w_access (sys_txns s t) i) :=
           silo_write (sa_data (w_access (sys_txns s t) i)) (si_commit_ts (sys_txns s t)) (sys_rows s (sa_orig (w_access (sys_txns s t) i)))),
         sys_pc := (sys_pc s)(t := RelC i),
         g_hist := (g_hist s)(sa_orig (w_access (sys_txns s t) i) :=
           (g_seq s t, si_commit_ts (sys_txns s t), sa_data (w_access (sys_txns s t) i)) # g_hist s (sa_orig (w_access (sys_txns s t) i)))\<rparr>"
proof -
  let ?T = "sys_txns s t" and ?pc = "sys_pc s t"
  obtain pc T R where st: "silo_step pk act ?pc ?T (sys_rows s) = Some (pc, T, R)"
    and s': "s' = (silo_log t act ?pc ?T s)\<lparr>sys_rows := R, sys_txns := (sys_txns s)(t := T), sys_pc := (sys_pc s)(t := pc)\<rparr>"
    using assms(1) by (rule silo_doE)
  have th: "silo_thread_ok ?pc ?T" using assms(2) by (simp add: silo_locks_inv_def)
  note kinds = that
  have Q: thesis if "quiet ?pc ?T (sys_rows s) pc T R" "silo_log t act ?pc ?T s = s"
    using that(1) by (rule kinds(1)) (simp add: s' that(2))
  show thesis
  proof (cases act)
    case (SBegin pa nw)
    with st show thesis by (intro kinds(2) [of T]) (auto simp: s' silo_txn_init_def split: if_splits)
  next
    case (SGet type r)
    with st show thesis
      by (intro Q) (auto simp: quiet_def past_def silo_get_start_def silo_try_lock_def split: if_splits)
  next
    case (SModify i d)
    moreover have "map (\<lambda>a. (sa_orig a, sa_tid a)) ((si_accesses ?T)[i := (si_accesses ?T ! i)\<lparr>sa_data := d\<rparr>])
        = map (\<lambda>a. (sa_orig a, sa_tid a)) (si_accesses ?T)"
      by (cases "i < length (si_accesses ?T)") (auto intro!: nth_equalityI simp: nth_list_update simp del: map_update)
    ultimately show thesis using st
      by (intro Q) (auto simp: quiet_def past_def same_reads_def simp del: map_update split: if_splits)
  next
    case (SAck m)
    with st show thesis by (intro Q) (auto simp: quiet_def past_def find_tid_silo_def split: if_splits)
  next
    case SValidate
    with st show thesis
      by (intro Q) (auto simp: quiet_def past_def silo_prepare_def same_reads_def bind_result_Inr_iff split: if_splits sum.splits)
  next
    case (SFinish rc)
    show thesis
    proof (cases "?pc = Validated \<and> rc \<noteq> Abort")
      case True
      with SFinish st show thesis by (intro kinds(5)) (auto simp: s' silo_finish_def split: if_splits)
    next
      case False
      with SFinish st show thesis by (intro Q) (auto simp: quiet_def past_def silo_finish_def split: if_splits)
    qed
  next
    case SStep
    with st have c: "silo_continue ?pc ?T (sys_rows s) = Some (pc, T, R)" by simp
    consider (get) type r where "?pc = Reading type r" | (lock) i where "?pc = LockW i" "\<not> i < si_write_cnt ?T"
      | (put) i where "?pc = WriteC i" "i < si_write_cnt ?T"
      | (other) "\<And>type r. ?pc \<noteq> Reading type r" "\<And>i. ?pc = LockW i \<Longrightarrow> i < si_write_cnt ?T"
          "\<And>i. ?pc = WriteC i \<Longrightarrow> \<not> i < si_write_cnt ?T"
      by blast
    then show thesis
    proof cases
      case get
      with c SStep show thesis
        by (intro kinds(3) [of type r T "last (si_accesses T)" R]) (auto simp: s' silo_get_end_def Let_def)
    next
      case lock
      with c SStep th show thesis by (intro kinds(4)) (auto simp: s' lock_write_def)
    next
      case put
      with c SStep show thesis by (intro kinds(6) [of i]) (auto simp: s' commit_write_def Let_def)
    next
      case other
      then have "silo_log t act ?pc ?T s = s" using SStep by (cases ?pc) auto
      with silo_continue_quiet [OF c th other] show thesis by (rule Q)
    qed
  qed
qed

lemma checked_write_held:
  assumes "silo_thread_ok pc T" "j < checked_writes pc T"
  shows "sa_orig (w_access T j) \<in> set (silo_holds pc T)"
proof -
  have nth: "sa_orig (w_access T j) \<in> set (wrows T)" if "j < length (write_set T)"
    using that wrows_nth [of j T] by (metis length_wrows nth_mem)
  have pre: "sa_orig (w_access T j) \<in> set (take n (wrows T))" if "j < n" "n \<le> length (write_set T)" for n
    using that wrows_nth [of j T] by (metis in_set_conv_nth le_trans length_take length_wrows less_le_trans min.absorb2 nth_take order.refl)
  show ?thesis using assms sets_okD [of T] nth pre by (cases pc) auto
qed

lemma writing_row:
  assumes "silo_locks_inv s" "sys_pc s t = WriteC i" "i < si_write_cnt (sys_txns s t)"
  shows "sa_orig (w_access (sys_txns s t) i) \<in> to_write s t"
    and "to_write s t = insert (sa_orig (w_access (sys_txns s t) i)) (set (drop (Suc i) (wrows (sys_txns s t))))"
    and "sa_orig (w_access (sys_txns s t) i) \<notin> set (drop (Suc i) (wrows (sys_txns s t)))"
    and "\<And>u. u \<noteq> t \<Longrightarrow> sa_orig (w_access (sys_txns s t) i) \<notin> set (silo_holds (sys_pc s u) (sys_txns s u))"
proof -
  let ?T = "sys_txns s t"
  have th: "silo_thread_ok (sys_pc s t) ?T" and lo: "locks_ok (latches (sys_rows s)) (\<lambda>t. silo_holds (sys_pc s t) (sys_txns s t))"
    using assms(1) by (simp_all add: silo_locks_inv_def)
  have d: "drop i (wrows ?T) = sa_orig (w_access ?T i) # drop (Suc i) (wrows ?T)"
    using th assms(2,3) sets_okD [of ?T] by (intro drop_wrows) simp
  have dist: "distinct (drop i (wrows ?T))" using locks_ok_distinct [OF lo, of t] assms(2) by simp
  show 1: "sa_orig (w_access ?T i) \<in> to_write s t" "to_write s t = insert (sa_orig (w_access ?T i)) (set (drop (Suc i) (wrows ?T)))"
    using d assms(2) by simp_all
  show "sa_orig (w_access ?T i) \<notin> set (drop (Suc i) (wrows ?T))" using dist unfolding d by simp
  show "sa_orig (w_access ?T i) \<notin> set (silo_holds (sys_pc s u) (sys_txns s u))" if "u \<noteq> t" for u
    using locks_ok_unique [OF lo, of "sa_orig (w_access ?T i)" t u] that 1(1) towrite_holds [of "sys_pc s t" ?T] by blast
qed

lemma past_simps [simp]:
  "past (WriteC i)" "past (RelC i)" "past (CheckR j m)" "past Validated" "\<not> past Running" "\<not> past Finished"
  "\<not> past (Reading type r)" "\<not> past (LockW i)"
  by (simp_all add: past_def)

lemma hist_inv_step:
  assumes "silo_do pk (t, act) s = Some s'" "silo_locks_inv s" "hist_inv s" "order_inv s"
  shows "hist_inv s'"
  using assms(1,2)
proof (cases rule: silo_do_cases)
  case (Quiet pc T R)
  then show ?thesis using assms(3) by (simp add: hist_inv_def quiet_def same_rows_def)
next
  case (Read type r a T R)
  then show ?thesis using assms(3) by (simp add: hist_inv_def same_rows_def)
next
  case LockPoint
  then show ?thesis using assms(3) by (simp add: hist_inv_def less_Suc_eq)
next
  case (Write i)
  let ?r = "sa_orig (w_access (sys_txns s t) i)"
  have "fst e < g_seq s t" if "e \<in> set (g_hist s ?r)" for e
    using assms(4) Write(1) writing_row(1) [OF assms(2) Write(1,2)] that unfolding order_inv_def by (metis past_simps(1))
  moreover have "g_seq s t < g_clock s" using assms(4) Write(1) unfolding order_inv_def by (metis past_simps(1))
  ultimately show ?thesis using assms(3) Write(3) by (simp add: hist_inv_def)
qed (use assms(3) in \<open>simp_all add: hist_inv_def\<close>)

lemma order_inv_step:
  assumes "silo_do pk (t, act) s = Some s'" "silo_locks_inv s" "hist_inv s" "order_inv s"
  shows "order_inv s'"
  using assms(1,2)
proof (cases rule: silo_do_cases)
  case (Quiet pc T R)
  then have "past pc \<Longrightarrow> past (sys_pc s t)" "set (towrite pc T) \<subseteq> to_write s t" by (simp_all add: quiet_def)
  then show ?thesis using assms(4) unfolding Quiet(2) by (fastforce simp: order_inv_def)
next
  case LockPoint
  then show ?thesis using assms(3,4) by (auto simp: order_inv_def hist_inv_def less_Suc_eq)
next
  case Commit
  have "to_write s' u = to_write s u" "past (sys_pc s' u) = past (sys_pc s u)" for u using Commit by auto
  moreover have "g_hist s' = g_hist s" "g_seq s' = g_seq s" "g_clock s' = g_clock s" using Commit(2) by simp_all
  ultimately show ?thesis using assms(4) by (simp add: order_inv_def)
next
  case (Write i)
  let ?r = "sa_orig (w_access (sys_txns s t) i)"
  note w = writing_row [OF assms(2) Write(1,2)]
  have "?r \<notin> to_write s u" if "u \<noteq> t" for u
    using w(4) [OF that] towrite_holds [of "sys_pc s u" "sys_txns s u"] by blast
  moreover have "\<forall>r\<in>to_write s t. \<forall>e\<in>set (g_hist s r). fst e < g_seq s t" "g_seq s t < g_clock s"
    using assms(4) Write(1) unfolding order_inv_def by (metis past_simps(1))+
  ultimately show ?thesis using assms(4) w(2,3) unfolding Write(3) by (auto simp: order_inv_def)
qed (use assms(4) in \<open>auto simp: order_inv_def\<close>)

lemma seen_inv_step:
  assumes "silo_do pk (t, act) s = Some s'" "silo_locks_inv s" "hist_inv s" "seen_inv s"
  shows "seen_inv s'"
  using assms(1,2)
proof (cases rule: silo_do_cases)
  case (Quiet pc T R)
  have l: "live pc \<Longrightarrow> live (sys_pc s t)" "past pc \<Longrightarrow> past (sys_pc s t)" using Quiet(1) by (simp_all add: quiet_def)
  have m: "length (si_accesses T) = length (si_accesses (sys_txns s t))"
    "k < length (si_accesses T) \<Longrightarrow> sa_orig (si_accesses T ! k) = sa_orig (si_accesses (sys_txns s t) ! k) \<and> sa_tid (si_accesses T ! k) = sa_tid (si_accesses (sys_txns s t) ! k)"
    if "live pc" for k
  proof -
    have e: "map (\<lambda>a. (sa_orig a, sa_tid a)) (si_accesses T) = map (\<lambda>a. (sa_orig a, sa_tid a)) (si_accesses (sys_txns s t))"
      using Quiet(1) that by (simp add: quiet_def same_reads_def)
    show "length (si_accesses T) = length (si_accesses (sys_txns s t))" using map_eq_imp_length_eq [OF e] .
    then show "sa_orig (si_accesses T ! k) = sa_orig (si_accesses (sys_txns s t) ! k) \<and> sa_tid (si_accesses T ! k) = sa_tid (si_accesses (sys_txns s t) ! k)"
      if "k < length (si_accesses T)" using arg_cong [OF e, of "\<lambda>xs. xs ! k"] that by simp
  qed
  show ?thesis using assms(4) l m unfolding Quiet(2) seen_inv_def by simp metis
next
  case (Read type r a T R)
  have "\<exists>n. (n, silo_tid (sys_rows s r), silo_row (sys_rows s r)) \<in> set (g_hist s r)"
    using assms(3) unfolding hist_inv_def by (metis list.set_intros(1))
  moreover have "length (g_seen s t) = length (si_accesses (sys_txns s t))"
    "\<forall>k<length (si_accesses (sys_txns s t)). \<exists>n. (n, sa_tid (si_accesses (sys_txns s t) ! k), g_seen s t ! k)
        \<in> set (g_hist s (sa_orig (si_accesses (sys_txns s t) ! k)))"
    using assms(4) Read(1) unfolding seen_inv_def by (metis live.simps(5))+
  ultimately show ?thesis using assms(4) Read(1-4) unfolding Read(6) seen_inv_def
    by (auto simp: nth_append less_Suc_eq)
next
  case LockPoint
  have "n < g_clock s" if "(n, tid, v) \<in> set (g_hist s r)" for n tid v r
    using assms(3) that unfolding hist_inv_def by (metis fst_conv)
  moreover have "live (sys_pc s t)" "\<not> past (sys_pc s t)" using LockPoint(1) by simp_all
  ultimately show ?thesis using assms(4) unfolding LockPoint(2) seen_inv_def by simp metis
next
  case Commit
  have "live (sys_pc s' u) = live (sys_pc s u)" "past (sys_pc s' u) = past (sys_pc s u)" for u using Commit by auto
  moreover have "g_hist s' = g_hist s" "g_seq s' = g_seq s" "g_seen s' = g_seen s" "sys_txns s' = sys_txns s" using Commit(2) by simp_all
  ultimately show ?thesis using assms(4) by (simp add: seen_inv_def)
next
  case (Write i)
  have e: "live (sys_pc s' u) = live (sys_pc s u)" "past (sys_pc s' u) = past (sys_pc s u)" for u using Write by auto
  have g: "g_seq s' = g_seq s" "g_seen s' = g_seen s" "sys_txns s' = sys_txns s" using Write(3) by simp_all
  have mono: "x \<in> set (g_hist s' r)" if "x \<in> set (g_hist s r)" for x r using Write(3) that by auto
  show ?thesis unfolding seen_inv_def e g
  proof (intro allI impI conjI)
    fix u assume "live (sys_pc s u)"
    then show "length (g_seen s u) = length (si_accesses (sys_txns s u))" using assms(4) by (simp add: seen_inv_def)
  next
    fix u k assume "live (sys_pc s u)" "k < length (g_seen s u)"
    with assms(4) show "\<exists>n. (n, sa_tid (si_accesses (sys_txns s u) ! k), g_seen s u ! k)
        \<in> set (g_hist s' (sa_orig (si_accesses (sys_txns s u) ! k))) \<and> (past (sys_pc s u) \<longrightarrow> n < g_seq s u)"
      unfolding seen_inv_def using mono by blast
  qed
qed (use assms(4) in \<open>auto simp: seen_inv_def\<close>)

lemma held_inv_step:
  assumes "silo_do pk (t, act) s = Some s'" "silo_locks_inv s" "held_inv s"
  shows "held_inv s'"
  using assms(1,2)
proof (cases rule: silo_do_cases)
  case (Quiet pc T R)
  have same: "silo_tid (R r) = silo_tid (sys_rows s r)" for r using Quiet(1) by (simp add: quiet_def same_rows_def)
  have "silo_tid (R (sa_orig (w_access T j))) = sa_tid (w_access T j)" if j: "j < checked_writes pc T" for j
  proof -
    have "same_sets (sys_txns s t) T" using Quiet(1) j by (auto simp: quiet_def)
    then have w: "w_access T j = w_access (sys_txns s t) j" by (simp add: same_sets_def w_access_def)
    have "j < checked_writes (sys_pc s t) (sys_txns s t) \<or>
        silo_tid (sys_rows s (sa_orig (w_access (sys_txns s t) j))) = sa_tid (w_access (sys_txns s t) j)"
      using Quiet(1) j by (simp add: quiet_def)
    then show ?thesis using assms(3) by (auto simp: held_inv_def same w)
  qed
  then show ?thesis using assms(3) same unfolding Quiet(2) by (simp add: held_inv_def)
next
  case (Read type r a T R)
  then show ?thesis using assms(3) unfolding Read(6) by (simp add: held_inv_def same_rows_def)
next
  case LockPoint
  then show ?thesis using assms(3) unfolding LockPoint(2) held_inv_def by simp
next
  case (Write i)
  note w = writing_row(4) [OF assms(2) Write(1,2)]
  have "sa_orig (w_access (sys_txns s u) j) \<noteq> sa_orig (w_access (sys_txns s t) i)"
    if "u \<noteq> t" "j < checked_writes (sys_pc s u) (sys_txns s u)" for u j
    using w [OF that(1)] checked_write_held [OF _ that(2)] assms(2) unfolding silo_locks_inv_def by metis
  then show ?thesis using assms(3) unfolding Write(3) by (simp add: held_inv_def)
qed (use assms(3) in \<open>auto simp: held_inv_def\<close>)

lemma number_inv_step:
  assumes "silo_do pk (t, act) s = Some s'" "silo_locks_inv s" "order_inv s" "number_inv s"
  shows "number_inv s'"
  using assms(1,2)
proof (cases rule: silo_do_cases)
  case (Quiet pc T R)
  then have "past pc \<Longrightarrow> past (sys_pc s t)" "validating pc \<Longrightarrow> validating (sys_pc s t)" by (simp_all add: quiet_def)
  then show ?thesis using assms(4) unfolding Quiet(2) number_inv_def by simp blast
next
  case LockPoint
  have old: "past (sys_pc s u) \<Longrightarrow> g_seq s u < g_clock s" for u using assms(3) by (simp add: order_inv_def)
  have "g_clock s \<notin> fst ` set (g_done s)" using assms(4) by (force simp: number_inv_def)
  then show ?thesis using assms(4) LockPoint(1) old unfolding LockPoint(2) number_inv_def
    by simp (metis less_Suc_eq less_irrefl)
next
  case Commit
  have p: "past (sys_pc s' u) = past (sys_pc s u)" "validating (sys_pc s' u) \<Longrightarrow> validating (sys_pc s u) \<and> u \<noteq> t" for u using Commit by (auto split: if_splits)
  have t: "past (sys_pc s t)" "validating (sys_pc s t)" "g_seq s t < g_clock s" using Commit(1) assms(3) by (simp_all add: order_inv_def)
  have v: "past (sys_pc s u)" if "validating (sys_pc s u)" for u using that by (simp add: past_def)
  have g: "g_seq s' = g_seq s" "g_clock s' = g_clock s" "g_done s' = (g_seq s t, reads_of (sys_txns s t) (g_seen s t), writes_of (sys_txns s t)) # g_done s"
    using Commit(2) by simp_all
  show ?thesis using assms(4) t p v unfolding number_inv_def g by simp metis
next
  case (Write i)
  have "past (sys_pc s' u) = past (sys_pc s u)" "validating (sys_pc s' u) = validating (sys_pc s u)" for u using Write by auto
  moreover have "g_seq s' = g_seq s" "g_clock s' = g_clock s" "g_done s' = g_done s" using Write(3) by simp_all
  ultimately show ?thesis using assms(4) by (simp add: number_inv_def)
qed (use assms(4) in \<open>auto simp: number_inv_def\<close>)

lemma map_fst_writes_of: "map fst (writes_of T) = wrows T"
  by (simp add: writes_of_def wrows_def o_def)

lemma writes_of_nth: "i < length (write_set T) \<Longrightarrow> writes_of T ! i = (sa_orig (w_access T i), sa_data (w_access T i))"
  by (simp add: writes_of_def w_access_def)

lemma writes_of_unique:
  assumes "distinct (wrows T)" "i < length (write_set T)" "(sa_orig (w_access T i), v) \<in> set (writes_of T)"
  shows "v = sa_data (w_access T i)"
proof -
  have "(sa_orig (w_access T i), sa_data (w_access T i)) \<in> set (writes_of T)"
    using writes_of_nth [OF assms(2)] assms(2) by (metis length_map nth_mem writes_of_def)
  with assms(1,3) show ?thesis by (metis eq_key_imp_eq_value map_fst_writes_of)
qed

lemma quiet_committing:
  assumes "quiet pc T R pc' T' R'" "committing pc"
  shows "writes_of T' = writes_of T" "wrows T' = wrows T" "towrite pc' T' = towrite pc T" "committing pc' \<or> towrite pc T = []"
proof -
  have "T' = T\<lparr>num_locks := num_locks T'\<rparr>" using assms by (simp add: quiet_def)
  then obtain n where "T' = T\<lparr>num_locks := n\<rparr>" by blast
  then show "writes_of T' = writes_of T" "wrows T' = wrows T" by (simp_all add: writes_of_def)
qed (use assms in \<open>simp_all add: quiet_def\<close>)

lemma commit_inv_step:
  assumes "silo_do pk (t, act) s = Some s'" "silo_locks_inv s" "commit_inv s"
  shows "commit_inv s'"
  using assms(1,2)
proof (cases rule: silo_do_cases)
  case (Quiet pc T R)
  have "committing pc \<Longrightarrow> committing (sys_pc s t)" using Quiet(1) by (simp add: quiet_def)
  then show ?thesis using assms(3) quiet_committing [OF Quiet(1)] unfolding Quiet(2) by (auto simp: commit_inv_def)
next
  case Commit
  have "distinct (wrows (sys_txns s t))"
    using assms(2) locks_ok_distinct [of "latches (sys_rows s)" _ t] Commit(1) by (fastforce simp: silo_locks_inv_def)
  then show ?thesis using assms(3) unfolding Commit(2) by (auto simp: commit_inv_def)
next
  case LockPoint
  then show ?thesis using assms(3) by (auto simp: commit_inv_def)
next
  case (Write i)
  have "committing (sys_pc s' u) = committing (sys_pc s u)" for u using Write by auto
  moreover have "sys_txns s' = sys_txns s" "g_done s' = g_done s" "g_seq s' = g_seq s" using Write(3) by simp_all
  ultimately show ?thesis using assms(3) by (simp add: commit_inv_def)
qed (use assms(3) in \<open>auto simp: commit_inv_def\<close>)

lemma origin_inv_step:
  assumes "silo_do pk (t, act) s = Some s'" "silo_locks_inv s" "commit_inv s" "origin_inv v0 s"
  shows "origin_inv v0 s'"
  using assms(1,2)
proof (cases rule: silo_do_cases)
  case Commit
  then show ?thesis using assms(4) unfolding Commit(2) origin_inv_def by simp blast
next
  case (Write i)
  let ?T = "sys_txns s t"
  have "committing (sys_pc s t)" using Write(1) by simp
  then obtain reads where d: "(g_seq s t, reads, writes_of ?T) \<in> set (g_done s)" using assms(3) by (auto simp: commit_inv_def)
  have "i < length (write_set ?T)"
    using assms(2) Write(1,2) sets_okD [of ?T] unfolding silo_locks_inv_def by (metis silo_thread_ok.simps(11))
  then have "(sa_orig (w_access ?T i), sa_data (w_access ?T i)) \<in> set (writes_of ?T)"
    using writes_of_nth [of i ?T] by (metis length_map nth_mem writes_of_def)
  with d show ?thesis using assms(4) unfolding Write(3) by (auto simp: origin_inv_def)
qed (use assms(4) in \<open>auto simp: origin_inv_def\<close>)

lemma install_inv_step:
  assumes "silo_do pk (t, act) s = Some s'" "silo_locks_inv s" "commit_inv s" "install_inv s"
  shows "install_inv s'"
proof -
  have goal: "install_inv s'"
    if h: "\<And>r. set (g_hist s r) \<subseteq> set (g_hist s' r)" and d: "g_done s' = g_done s"
      and c: "\<And>u r v. committing (sys_pc s u) \<Longrightarrow> r \<in> to_write s u \<Longrightarrow> (r, v) \<in> set (writes_of (sys_txns s u)) \<Longrightarrow>
        (\<exists>tid. (g_seq s u, tid, v) \<in> set (g_hist s' r)) \<or>
        committing (sys_pc s' u) \<and> g_seq s' u = g_seq s u \<and> writes_of (sys_txns s' u) = writes_of (sys_txns s u) \<and> r \<in> to_write s' u"
    unfolding install_inv_def d
  proof (intro allI impI)
    fix n reads writes r v
    assume e: "(n, reads, writes) \<in> set (g_done s)" "(r, v) \<in> set writes"
    with assms(4) consider tid where "(n, tid, v) \<in> set (g_hist s r)"
      | u where "committing (sys_pc s u)" "g_seq s u = n" "writes_of (sys_txns s u) = writes" "r \<in> to_write s u"
      unfolding install_inv_def by blast
    then show "(\<exists>tid. (n, tid, v) \<in> set (g_hist s' r)) \<or>
        (\<exists>t. committing (sys_pc s' t) \<and> g_seq s' t = n \<and> writes_of (sys_txns s' t) = writes \<and> r \<in> to_write s' t)"
    proof cases
      case 1
      then show ?thesis using h by blast
    next
      case (2 u)
      then show ?thesis using c [of u r v] e(2) by blast
    qed
  qed
  show ?thesis
    using assms(1,2)
  proof (cases rule: silo_do_cases)
    case (Quiet pc T R)
    show ?thesis
    proof (rule goal)
      fix u r v assume u: "committing (sys_pc s u)" "r \<in> to_write s u"
      show "(\<exists>tid. (g_seq s u, tid, v) \<in> set (g_hist s' r)) \<or>
        committing (sys_pc s' u) \<and> g_seq s' u = g_seq s u \<and> writes_of (sys_txns s' u) = writes_of (sys_txns s u) \<and> r \<in> to_write s' u"
        using u quiet_committing [OF Quiet(1)] unfolding Quiet(2) by (cases "u = t") auto
    qed (simp_all add: Quiet(2))
  next
    case Commit
    show ?thesis
      unfolding install_inv_def
    proof (intro allI impI)
      fix n reads writes r v
      assume e: "(n, reads, writes) \<in> set (g_done s')" "(r, v) \<in> set writes"
      then consider "n = g_seq s t" "writes = writes_of (sys_txns s t)" | "(n, reads, writes) \<in> set (g_done s)"
        unfolding Commit(2) by auto
      then show "(\<exists>tid. (n, tid, v) \<in> set (g_hist s' r)) \<or>
        (\<exists>t. committing (sys_pc s' t) \<and> g_seq s' t = n \<and> writes_of (sys_txns s' t) = writes \<and> r \<in> to_write s' t)"
      proof cases
        case 1
        with e(2) have "r \<in> set (wrows (sys_txns s t))" by (metis fst_conv image_eqI list.set_map map_fst_writes_of)
        with 1 show ?thesis unfolding Commit(2) by (intro disjI2 exI [of _ t]) simp
      next
        case 2
        from assms(4) 2 e(2) consider tid where "(n, tid, v) \<in> set (g_hist s r)"
          | u where "committing (sys_pc s u)" "g_seq s u = n" "writes_of (sys_txns s u) = writes" "r \<in> to_write s u"
          unfolding install_inv_def by blast
        then show ?thesis
        proof cases
          case (2 u)
          with Commit(1) have "u \<noteq> t" by auto
          with 2 show ?thesis unfolding Commit(2) by (intro disjI2 exI [of _ u]) simp
        qed (auto simp: Commit(2))
      qed
    qed
  next
    case (Write i)
    let ?T = "sys_txns s t" and ?r = "sa_orig (w_access (sys_txns s t) i)"
    note w = writing_row [OF assms(2) Write(1,2)]
    have len: "i < length (write_set ?T)"
      using assms(2) Write(1,2) sets_okD [of ?T] unfolding silo_locks_inv_def by (metis silo_thread_ok.simps(11))
    show ?thesis
    proof (rule goal)
      fix u r v assume u: "committing (sys_pc s u)" "r \<in> to_write s u" "(r, v) \<in> set (writes_of (sys_txns s u))"
      show "(\<exists>tid. (g_seq s u, tid, v) \<in> set (g_hist s' r)) \<or>
        committing (sys_pc s' u) \<and> g_seq s' u = g_seq s u \<and> writes_of (sys_txns s' u) = writes_of (sys_txns s u) \<and> r \<in> to_write s' u"
      proof (cases "u = t \<and> r = ?r")
        case True
        then have "v = sa_data (w_access ?T i)"
          using writes_of_unique [OF _ len] assms(3) u unfolding commit_inv_def by blast
        then show ?thesis using True unfolding Write(3) by auto
      next
        case False
        then show ?thesis using u w(2) Write(1) unfolding Write(3) by auto
      qed
    qed (auto simp: Write(3))
  qed (rule goal; auto)+
qed

section \<open>Reads in the order of commits\<close>

lemma version_before_Cons: "n \<le> m \<Longrightarrow> version_before n ((m, e) # h) = version_before n h"
  by (simp add: version_before_def)

lemma fresh_tids_step:
  assumes "silo_do pk (t, act) s = Some s'" "silo_locks_inv s" "fresh_tids s'"
  shows "fresh_tids s"
  using assms(1,2)
proof (cases rule: silo_do_cases)
  case (Write i)
  then show ?thesis using assms(3) unfolding fresh_tids_def by (auto split: if_splits)
qed (use assms(3) in \<open>auto simp: fresh_tids_def\<close>)

lemma settled_step:
  assumes "silo_do pk (t, act) s = Some s'" "silo_locks_inv s" "n < g_clock s" "settled s n r v"
  shows "settled s' n r v"
  using assms(1,2)
proof (cases rule: silo_do_cases)
  case (Quiet pc T R)
  have "set (towrite pc T) \<subseteq> to_write s t" using Quiet(1) by (simp add: quiet_def)
  then show ?thesis using assms(4) unfolding Quiet(2) by (auto simp: settled_def)
next
  case LockPoint
  then show ?thesis using assms(3,4) unfolding LockPoint(2) by (auto simp: settled_def)
next
  case (Write i)
  note w = writing_row [OF assms(2) Write(1,2)]
  have "version_before n (g_hist s' r) = version_before n (g_hist s r)"
    using assms(4) w(1) by (auto simp: Write(3) settled_def version_before_Cons)
  moreover have "to_write s' u \<subseteq> to_write s u" for u using Write w(2) by auto
  moreover have "g_seq s' = g_seq s" using Write(3) by simp
  ultimately show ?thesis using assms(4) by (auto simp: settled_def)
qed (use assms(4) in \<open>auto simp: settled_def split: if_splits\<close>)

text \<open>A read whose row still has the id it had, on a row that no other transaction is about to write.\<close>

lemma settled_current:
  assumes "hist_inv s" "fresh_tids s" "(n, silo_tid (sys_rows s r), v) \<in> set (g_hist s r)" "n < m"
    and "\<And>u. r \<in> to_write s u \<Longrightarrow> m \<le> g_seq s u"
  shows "settled s m r v"
proof -
  obtain k h where h: "g_hist s r = (k, silo_tid (sys_rows s r), silo_row (sys_rows s r)) # h"
    using assms(1) unfolding hist_inv_def by blast
  have "distinct (map (fst \<circ> snd) (g_hist s r))" using assms(2) by (simp add: fresh_tids_def)
  then have "silo_tid (sys_rows s r) \<notin> (fst \<circ> snd) ` set h" unfolding h by simp
  then have "(n, silo_tid (sys_rows s r), v) \<notin> set h" by force
  then have "n = k" "v = silo_row (sys_rows s r)" using assms(3) unfolding h by auto
  then show ?thesis using assms(4,5) by (auto simp: settled_def h version_before_def)
qed

lemma checked_reads_le: "silo_thread_ok pc T \<Longrightarrow> checked_reads pc T \<le> read_cnt T"
  by (cases pc) auto

lemma checked_reads_validating: "j < checked_reads pc T \<Longrightarrow> validating pc"
  by (cases pc) auto

lemma validating_sets_ok: "silo_thread_ok pc T \<Longrightarrow> validating pc \<Longrightarrow> sets_ok T"
  by (cases pc) auto

lemma holder_writes:
  assumes "silo_locks_inv s" "r \<in> set (silo_holds (sys_pc s t) (sys_txns s t))" "r \<in> to_write s u"
  shows "u = t"
proof -
  have "r \<in> set (silo_holds (sys_pc s u) (sys_txns s u))" using assms(3) towrite_holds [of "sys_pc s u" "sys_txns s u"] by blast
  then show ?thesis
    using assms(1,2) locks_ok_unique [of "latches (sys_rows s)" "\<lambda>t. silo_holds (sys_pc s t) (sys_txns s t)" r u t]
    by (simp add: silo_locks_inv_def)
qed

text \<open>A read of a validating transaction that holds the row and finds its id there is settled.\<close>

lemma settled_held:
  assumes "silo_locks_inv s" "hist_inv s" "seen_inv s" "fresh_tids s" "validating (sys_pc s t)" "k < length (si_accesses (sys_txns s t))"
    and "sa_orig (si_accesses (sys_txns s t) ! k) \<in> set (silo_holds (sys_pc s t) (sys_txns s t))"
    and "silo_tid (sys_rows s (sa_orig (si_accesses (sys_txns s t) ! k))) = sa_tid (si_accesses (sys_txns s t) ! k)"
  shows "settled s (g_seq s t) (sa_orig (si_accesses (sys_txns s t) ! k)) (g_seen s t ! k)"
proof -
  have "live (sys_pc s t)" "past (sys_pc s t)" using assms(5) by (cases "sys_pc s t"; simp add: past_def)+
  then obtain n where "(n, sa_tid (si_accesses (sys_txns s t) ! k), g_seen s t ! k) \<in> set (g_hist s (sa_orig (si_accesses (sys_txns s t) ! k)))"
    "n < g_seq s t"
    using assms(3,6) unfolding seen_inv_def by metis
  then show ?thesis
    using assms(8) holder_writes [OF assms(1,7)] by (intro settled_current [OF assms(2,4)]) auto
qed

lemma reads_inv_step:
  assumes "silo_do pk (t, act) s = Some s'" "silo_locks_inv s" "hist_inv s" "seen_inv s" "order_inv s" "fresh_tids s" "reads_inv s"
  shows "reads_inv s'"
proof -
  have clock: "g_seq s u < g_clock s" if "validating (sys_pc s u)" for u
    using assms(5) that unfolding order_inv_def past_def by blast
  have old: "settled s' (g_seq s u) (sa_orig (r_access (sys_txns s u) j)) (g_seen s u ! (read_set (sys_txns s u) ! j))"
    if "j < checked_reads (sys_pc s u) (sys_txns s u)" for u j
    using assms(7) that clock [OF checked_reads_validating [OF that]] unfolding reads_inv_def
    by (intro settled_step [OF assms(1,2)]) blast+
  show ?thesis
    using assms(1,2)
  proof (cases rule: silo_do_cases)
    case (Quiet pc T R)
    have "settled s' (g_seq s t) (sa_orig (r_access T j)) (g_seen s t ! (read_set T ! j))" if j: "j < checked_reads pc T" for j
    proof -
      have "same_sets (sys_txns s t) T" using Quiet(1) j by (auto simp: quiet_def)
      then have eq: "r_access T j = r_access (sys_txns s t) j" "read_set T = read_set (sys_txns s t)" "si_accesses T = si_accesses (sys_txns s t)"
        by (simp_all add: same_sets_def r_access_def)
      consider "j < checked_reads (sys_pc s t) (sys_txns s t)"
        | "sa_orig (r_access (sys_txns s t) j) \<in> set (silo_holds (sys_pc s t) (sys_txns s t))" "validating (sys_pc s t)"
          "silo_tid (sys_rows s (sa_orig (r_access (sys_txns s t) j))) = sa_tid (r_access (sys_txns s t) j)"
        using Quiet(1) j unfolding quiet_def by blast
      then show ?thesis
      proof cases
        case 2
        have "silo_locks_inv s'" using assms(1,2) by (rule silo_locks_inv_step [rotated])
        then have "silo_thread_ok (sys_pc s' t) (sys_txns s' t)" by (simp add: silo_locks_inv_def)
        then have ok: "silo_thread_ok pc T" by (simp add: Quiet(2))
        have "sets_ok T" using validating_sets_ok [OF ok checked_reads_validating [OF j]] .
        moreover have "j < length (read_set T)" using j checked_reads_le [OF ok] \<open>sets_ok T\<close> by (simp add: sets_ok_def)
        ultimately have "read_set T ! j < length (si_accesses T)" unfolding sets_ok_def using nth_mem by blast
        then have "settled s (g_seq s t) (sa_orig (r_access T j)) (g_seen s t ! (read_set T ! j))"
          using settled_held [OF assms(2-4,6) 2(2)] 2 unfolding eq by (simp add: r_access_def)
        then show ?thesis using clock [OF 2(2)] by (intro settled_step [OF assms(1,2)])
      qed (use old eq in simp)
    qed
    then show ?thesis using old unfolding reads_inv_def Quiet(2) by simp
  qed (use old in \<open>simp_all add: reads_inv_def\<close>)
qed

lemma done_inv_step:
  assumes "silo_do pk (t, act) s = Some s'" "silo_locks_inv s" "hist_inv s" "seen_inv s" "order_inv s" "fresh_tids s" "reads_inv s"
    and "held_inv s" "number_inv s" "done_inv s"
  shows "done_inv s'"
proof -
  have old: "\<forall>(n, reads, writes)\<in>set (g_done s). \<forall>(r, v)\<in>set reads. settled s' n r v"
    using assms(9,10) settled_step [OF assms(1,2)] unfolding done_inv_def number_inv_def by (fastforce split: prod.splits)
  show ?thesis
    using assms(1,2)
  proof (cases rule: silo_do_cases)
    case Commit
    let ?T = "sys_txns s t"
    have ok: "silo_thread_ok (sys_pc s t) ?T" using assms(2) by (simp add: silo_locks_inv_def)
    then have so: "sets_ok ?T" using Commit(1) by simp
    have clock: "g_seq s t < g_clock s" using assms(5) Commit(1) unfolding order_inv_def by (metis past_simps(4))
    have "settled s (g_seq s t) (sa_orig (si_accesses ?T ! k)) (g_seen s t ! k)" if k: "k < length (si_accesses ?T)" for k
    proof -
      have "k \<in> set (write_set ?T) \<or> k \<in> set (read_set ?T)" using so k unfolding sets_ok_def by blast
      then consider j where "j < length (write_set ?T)" "write_set ?T ! j = k" | j where "j < length (read_set ?T)" "read_set ?T ! j = k"
        by (metis in_set_conv_nth)
      then show ?thesis
      proof cases
        case (1 j)
        have j: "j < checked_writes (sys_pc s t) ?T" using 1(1) so Commit(1) by (simp add: sets_ok_def)
        have a: "w_access ?T j = si_accesses ?T ! k" using 1(2) by (simp add: w_access_def)
        show ?thesis
          using checked_write_held [OF ok j] assms(8) j Commit(1) unfolding held_inv_def
          by (intro settled_held [OF assms(2-4,6)] k) (simp_all add: a [symmetric])
      next
        case (2 j)
        have "j < checked_reads (sys_pc s t) ?T" using 2(1) so Commit(1) by (simp add: sets_ok_def)
        then show ?thesis using assms(7) 2(2) unfolding reads_inv_def r_access_def by metis
      qed
    qed
    then have "settled s' (g_seq s t) r v" if "(r, v) \<in> set (reads_of ?T (g_seen s t))" for r v
      using that clock by (intro settled_step [OF assms(1,2)]) (auto simp: reads_of_def set_zip)
    then show ?thesis using old unfolding done_inv_def Commit(2) by auto
  qed (use old in \<open>auto simp: done_inv_def\<close>)
qed

definition silo_inv :: "(row_ref \<Rightarrow> 'r) \<Rightarrow> 'r silo_sys \<Rightarrow> bool" where
  "silo_inv v0 s \<longleftrightarrow> silo_locks_inv s \<and> hist_inv s \<and> seen_inv s \<and> order_inv s \<and> held_inv s \<and> number_inv s \<and>
     commit_inv s \<and> origin_inv v0 s \<and> install_inv s \<and> (fresh_tids s \<longrightarrow> reads_inv s \<and> done_inv s)"

lemma silo_inv_init: "silo_inv v (silo_sys_init v)"
proof -
  have "hist_inv (silo_sys_init v)" "seen_inv (silo_sys_init v)" "order_inv (silo_sys_init v)" "held_inv (silo_sys_init v)"
    "number_inv (silo_sys_init v)" "commit_inv (silo_sys_init v)" "origin_inv v (silo_sys_init v)" "install_inv (silo_sys_init v)"
    "reads_inv (silo_sys_init v)" "done_inv (silo_sys_init v)"
    by (simp_all add: silo_sys_init_def hist_inv_def seen_inv_def order_inv_def held_inv_def number_inv_def commit_inv_def
        origin_inv_def install_inv_def reads_inv_def done_inv_def silo_row_init_def)
  then show ?thesis by (simp add: silo_inv_def silo_locks_inv_init)
qed

lemma silo_inv_step:
  assumes "silo_inv v s" "silo_do pk e s = Some s'"
  shows "silo_inv v s'"
proof -
  obtain t act where e: "e = (t, act)" by (cases e)
  note d = assms(2) [unfolded e]
  have i: "silo_locks_inv s" "hist_inv s" "seen_inv s" "order_inv s" "held_inv s" "number_inv s" "commit_inv s" "origin_inv v s" "install_inv s"
    "fresh_tids s \<Longrightarrow> reads_inv s" "fresh_tids s \<Longrightarrow> done_inv s"
    using assms(1) by (simp_all add: silo_inv_def)
  have "reads_inv s' \<and> done_inv s'" if f: "fresh_tids s'"
  proof -
    have f': "fresh_tids s" using d i(1) f by (rule fresh_tids_step)
    show ?thesis
      using reads_inv_step [OF d i(1-4) f' i(10) [OF f']] done_inv_step [OF d i(1-4) f' i(10) [OF f'] i(5,6) i(11) [OF f']] by blast
  qed
  then show ?thesis
    unfolding silo_inv_def
    using silo_locks_inv_step [OF i(1) assms(2)] hist_inv_step [OF d i(1,2,4)] seen_inv_step [OF d i(1-3)] order_inv_step [OF d i(1,2,4)]
      held_inv_step [OF d i(1,5)] number_inv_step [OF d i(1,4,6)] commit_inv_step [OF d i(1,7)] origin_inv_step [OF d i(1,7,8)]
      install_inv_step [OF d i(1,7,9)] by blast
qed

lemma silo_run_inv: "silo_run pk es (silo_sys_init v) = Some s \<Longrightarrow> silo_inv v s"
  by (erule silo_run_invariant) (auto intro: silo_inv_init silo_inv_step)

text \<open>
  Claim C7. Serialisability. In every interleaving in which no row gets the same transaction id twice, the
  numbers drawn at the lock points order the committed transactions: no two have the same number;
  whatever a committed transaction has read of a row is the version of the last transaction before it
  that wrote the row; the versions of a row are in the order of the numbers, the newest is what the
  row holds, and each is the initial value or was written by a committed transaction; and when no
  transaction is in the middle of its commit, all writes of all committed transactions are installed.
\<close>

theorem silo_serializable:
  assumes "silo_run pk es (silo_sys_init v) = Some s" "fresh_tids s"
  shows "distinct (map fst (g_done s)) \<and>
    (\<forall>n reads writes r x. (n, reads, writes) \<in> set (g_done s) \<longrightarrow> (r, x) \<in> set reads \<longrightarrow> x = version_before n (g_hist s r)) \<and>
    (\<forall>r. sorted_wrt (\<lambda>a b. b < a) (map fst (g_hist s r)) \<and> snd (snd (hd (g_hist s r))) = silo_row (sys_rows s r)) \<and>
    (\<forall>r n tid x. (n, tid, x) \<in> set (g_hist s r) \<longrightarrow>
       n = 0 \<and> x = v r \<or> (\<exists>reads writes. (n, reads, writes) \<in> set (g_done s) \<and> (r, x) \<in> set writes)) \<and>
    ((\<forall>t. \<not> committing (sys_pc s t)) \<longrightarrow>
       (\<forall>n reads writes r x. (n, reads, writes) \<in> set (g_done s) \<longrightarrow> (r, x) \<in> set writes \<longrightarrow> (\<exists>tid. (n, tid, x) \<in> set (g_hist s r))))"
proof -
  have i: "hist_inv s" "number_inv s" "origin_inv v s" "install_inv s" "done_inv s"
    using silo_run_inv [OF assms(1)] assms(2) by (simp_all add: silo_inv_def)
  have "distinct (map fst (g_done s))" using i(2) by (simp add: number_inv_def)
  moreover have "\<forall>n reads writes r x. (n, reads, writes) \<in> set (g_done s) \<longrightarrow> (r, x) \<in> set reads \<longrightarrow> x = version_before n (g_hist s r)"
    using i(5) unfolding done_inv_def settled_def by blast
  moreover have "sorted_wrt (\<lambda>a b. b < a) (map fst (g_hist s r)) \<and> snd (snd (hd (g_hist s r))) = silo_row (sys_rows s r)" for r
    using i(1) unfolding hist_inv_def by (metis list.sel(1) snd_conv)
  ultimately show ?thesis using i(3,4) unfolding origin_inv_def install_inv_def by blast
qed

text \<open>Runs for the examples: a transaction that changes one row, and the pieces it consists of.\<close>

definition sample_start :: "txnid_t \<Rightarrow> row_ref \<Rightarrow> nat \<Rightarrow> (txnid_t \<times> nat silo_act) list" where
  "sample_start t r d = map (Pair t) [SBegin False True, SGet WR r, SStep, SModify 0 d]"

definition sample_finish :: "txnid_t \<Rightarrow> nat \<Rightarrow> (txnid_t \<times> nat silo_act) list" where
  "sample_finish t n = map (Pair t) ([SValidate] @ replicate n SStep @ [SFinish RCOK] @ replicate 3 SStep)"

text \<open>The second transaction reads the row that the first has written, and writes another.\<close>

definition sample_serial :: "(txnid_t \<times> nat silo_act) list" where
  "sample_serial = sample_start 1 0 5 @ sample_finish 1 6 @ sample_start 2 1 7 @ map (Pair 2) [SGet RD 0, SStep] @ sample_finish 2 8"

definition sample_lost :: "(txnid_t \<times> nat silo_act) list" where
  "sample_lost = sample_start 1 0 5 @ sample_finish 1 6 @ sample_start 2 0 6 @ sample_start 3 0 7 @ sample_finish 3 6 @ sample_finish 2 6"

theorem silo_serializable_witness:
  "\<exists>s. silo_run sample_pk sample_serial (silo_sys_init (\<lambda>_. 0)) = Some s \<and> fresh_tids s \<and> 
     (2, [(1, 0), (0, 5)], [(1, 7)]) \<in> set (g_done s) \<and> version_before 2 (g_hist s 0) = 5 \<and> version_before 2 (g_hist s 1) = 0"
proof -
  have r: "map_option (\<lambda>s. (g_hist s, g_done s)) (silo_run sample_pk sample_serial (silo_sys_init (\<lambda>_. 0))) =
     Some ((\<lambda>_. [(0, 0, 0)])(0 := [(1, 1, 5), (0, 0, 0)], 1 := [(2, 1, 7), (0, 0, 0)]), [(2, [(1, 0), (0, 5)], [(1, 7)]), (1, [(0, 0)], [(0, 5)])])"
    unfolding sample_serial_def by (simp add: silo_eval sample_start_def sample_finish_def reads_of_def writes_of_def)
  then obtain s where s: "silo_run sample_pk sample_serial (silo_sys_init (\<lambda>_. 0)) = Some s"
    "g_hist s = (\<lambda>_. [(0, 0, 0)])(0 := [(1, 1, 5), (0, 0, 0)], 1 := [(2, 1, 7), (0, 0, 0)])" "g_done s = [(2, [(1, 0), (0, 5)], [(1, 7)]), (1, [(0, 0)], [(0, 5)])]"
    by auto
  have f: "fresh_tids s" by (simp add: fresh_tids_def s(2))
  from silo_serializable [OF s(1) f] have
    "\<forall>n reads writes r x. (n, reads, writes) \<in> set (g_done s) \<longrightarrow> (r, x) \<in> set reads \<longrightarrow> x = version_before n (g_hist s r)"
    by blast
  then have "version_before 2 (g_hist s 0) = 5" "version_before 2 (g_hist s 1) = 0" by (simp_all add: s(3))
  with s(1,3) f show ?thesis by (intro exI [of _ s]) simp
qed

section \<open>Ids of versions\<close>

text \<open>Until a transaction has its verdict its \<open>_cur_tid\<close> is 0; then its commit timestamp is 1.\<close>

fun ids_ok :: "silo_pc \<Rightarrow> 'r silo_txn \<Rightarrow> bool" where
  "ids_ok Validated T \<longleftrightarrow> si_commit_ts T = 1"
| "ids_ok (WriteC i) T \<longleftrightarrow> si_commit_ts T = 1"
| "ids_ok (RelC i) T \<longleftrightarrow> si_commit_ts T = 1"
| "ids_ok Failed T \<longleftrightarrow> True"
| "ids_ok (RelA i) T \<longleftrightarrow> True"
| "ids_ok Finished T \<longleftrightarrow> True"
| "ids_ok pc T \<longleftrightarrow> cur_tid T = 0"

definition ids_inv :: "'r silo_sys \<Rightarrow> bool" where
  "ids_inv s \<longleftrightarrow> (\<forall>t. ids_ok (sys_pc s t) (sys_txns s t)) \<and>
     (\<forall>r. g_hist s r \<noteq> [] \<and> silo_tid (sys_rows s r) = (if length (g_hist s r) = 1 then 0 else 1)) \<and>
     (\<forall>t. \<forall>a\<in>set (si_accesses (sys_txns s t)). sa_tid a \<noteq> 0 \<longrightarrow> sa_tid a = silo_tid (sys_rows s (sa_orig a)))"

lemma silo_step_ids:
  assumes "silo_step pk act pc T R = Some (pc', T', R')" "\<And>m. act \<noteq> SAck m" "ids_ok pc T"
  shows "ids_ok pc' T' \<and> (\<forall>a\<in>set (si_accesses T'). (\<exists>b\<in>set (si_accesses T). sa_tid a = sa_tid b \<and> sa_orig a = sa_orig b) \<or> sa_tid a = silo_tid (R (sa_orig a))) \<and>
    (\<forall>r. silo_tid (R' r) = silo_tid (R r) \<or> (\<exists>i. act = SStep \<and> pc = WriteC i \<and> i < si_write_cnt T \<and> r = sa_orig (w_access T i) \<and> silo_tid (R' r) = 1))"
proof (cases act)
  case SStep
  then have "silo_continue pc T R = Some (pc', T', R')" using assms(1) by simp
  then show ?thesis using assms(3) SStep
    by (cases pc) (auto simp: silo_get_end_def pre_abort_writes_def pre_abort_reads_def lock_write_def locked_write_def check_read_def held_read_def
      check_write_def silo_draw_tid_def abort_release_def commit_write_def commit_release_def Let_def silo_try_lock_def silo_lock_def split: if_splits prod.splits)
next
  case (SModify i d)
  then show ?thesis using assms(1,3) by (auto split: if_splits dest!: subsetD [OF set_update_subset_insert]) (metis nth_mem)+
next
  case SValidate
  then show ?thesis using assms(1,3) by (auto simp: silo_prepare_def bind_result_Inr_iff split: if_splits sum.splits)
qed (use assms in \<open>auto simp: silo_txn_init_def silo_get_start_def silo_try_lock_def silo_finish_def Let_def split: if_splits prod.splits\<close>)

lemma silo_log_hist:
  "g_hist (silo_log t act pc T s) = (case (act, pc) of
     (SStep, WriteC i) \<Rightarrow> if i < si_write_cnt T then (g_hist s)(sa_orig (w_access T i) :=
       (g_seq s t, si_commit_ts T, sa_data (w_access T i)) # g_hist s (sa_orig (w_access T i))) else g_hist s
   | _ \<Rightarrow> g_hist s)"
  by (cases act; cases pc) (simp_all add: Let_def)

lemma ids_inv_step:
  assumes "ids_inv s" "silo_do pk (t, act) s = Some s'" "\<And>m. act \<noteq> SAck m"
  shows "ids_inv s'"
proof -
  obtain pc T R where st: "silo_step pk act (sys_pc s t) (sys_txns s t) (sys_rows s) = Some (pc, T, R)"
    and s': "s' = (silo_log t act (sys_pc s t) (sys_txns s t) s)\<lparr>sys_rows := R, sys_txns := (sys_txns s)(t := T), sys_pc := (sys_pc s)(t := pc)\<rparr>"
    using assms(2) by (auto simp: silo_do_def split: option.splits)
  have i: "\<And>u. ids_ok (sys_pc s u) (sys_txns s u)" "\<And>r. g_hist s r \<noteq> []" "\<And>r. silo_tid (sys_rows s r) = (if length (g_hist s r) = 1 then 0 else 1)"
    "\<And>u a. a \<in> set (si_accesses (sys_txns s u)) \<Longrightarrow> sa_tid a \<noteq> 0 \<Longrightarrow> sa_tid a = silo_tid (sys_rows s (sa_orig a))"
    using assms(1) unfolding ids_inv_def by blast+
  note l = silo_step_ids [OF st assms(3) i(1)]
  have tid: "silo_tid (R r) = silo_tid (sys_rows s r) \<or> silo_tid (R r) = 1" for r using l by metis
  have keep: "x = silo_tid (R r)" if "x \<noteq> 0" "x = silo_tid (sys_rows s r)" for x r
    using tid [of r] i(3) [of r] that by (auto split: if_splits)
  have f: "sys_rows s' = R" "sys_txns s' = (sys_txns s)(t := T)" "sys_pc s' = (sys_pc s)(t := pc)"
    "g_hist s' = g_hist (silo_log t act (sys_pc s t) (sys_txns s t) s)" by (simp_all add: s')
  have "\<forall>u. ids_ok (sys_pc s' u) (sys_txns s' u)" using l i(1) by (simp add: f)
  moreover have "g_hist s' r \<noteq> [] \<and> silo_tid (sys_rows s' r) = (if length (g_hist s' r) = 1 then 0 else 1)" for r
  proof (cases "\<exists>i. act = SStep \<and> sys_pc s t = WriteC i \<and> i < si_write_cnt (sys_txns s t) \<and> r = sa_orig (w_access (sys_txns s t) i)")
    case True
    then obtain k where k: "act = SStep" "sys_pc s t = WriteC k" "k < si_write_cnt (sys_txns s t)" "r = sa_orig (w_access (sys_txns s t) k)" by blast
    then have "R = (sys_rows s)(r := silo_write (sa_data (w_access (sys_txns s t) k)) (si_commit_ts (sys_txns s t)) (sys_rows s r))"
      using st by (auto simp: commit_write_def Let_def)
    moreover have "si_commit_ts (sys_txns s t) = 1" using i(1) [of t] k(2) by simp
    ultimately show ?thesis using k i(2) [of r] by (simp add: f Let_def)
  next
    case False
    then have "silo_tid (R r) = silo_tid (sys_rows s r)" using l by blast
    moreover have "g_hist s' r = g_hist s r" using False by (auto simp: f silo_log_hist split: silo_act.splits silo_pc.splits)
    ultimately show ?thesis using i(2,3) [of r] by (simp add: f)
  qed
  moreover have "sa_tid a = silo_tid (R (sa_orig a))" if "a \<in> set (si_accesses (sys_txns s' u))" "sa_tid a \<noteq> 0" for u a
  proof (cases "u = t")
    case True
    then have "sa_tid a = silo_tid (sys_rows s (sa_orig a))" using that l i(4) [of _ t] by (auto simp: f)
    then show ?thesis using keep that(2) by blast
  next
    case False
    then have "sa_tid a = silo_tid (sys_rows s (sa_orig a))" using that i(4) [of a u] by (simp add: f)
    then show ?thesis using keep that(2) by blast
  qed
  ultimately show ?thesis unfolding ids_inv_def f(1) by blast
qed

lemma ids_inv_run:
  "ids_inv s \<Longrightarrow> silo_run pk es s = Some s' \<Longrightarrow> (\<And>t m. (t, SAck m) \<notin> set es) \<Longrightarrow> ids_inv s'"
proof (induction es arbitrary: s)
  case (Cons e es)
  obtain t act where e: "e = (t, act)" by (cases e)
  obtain s1 where s1: "silo_do pk (t, act) s = Some s1" "silo_run pk es s1 = Some s'" using Cons.prems(2) by (auto simp: e split: option.splits)
  have "act \<noteq> SAck m" for m using Cons.prems(3) [of t m] by (auto simp: e)
  then have "ids_inv s1" by (rule ids_inv_step [OF Cons.prems(1) s1(1)])
  then show ?case using Cons.IH s1(2) Cons.prems(3) by auto
qed simp

lemma ids_inv_init: "ids_inv (silo_sys_init v)"
  by (simp add: ids_inv_def silo_sys_init_def silo_row_init_def silo_txn_init_def)

text \<open>
  Claim C28. Ids of versions collide. \<open>_cur_tid\<close> starts at 0 in every transaction, so in every interleaving of
  transactions that get no acknowledgement from other nodes a row has id 0 until it is first written, and id 1
  ever after. The id that a transaction remembers of any written version therefore is the id of the
  row at every later time, and the checks of validation succeed however often the row has been
  overwritten since.
\<close>

theorem silo_ids_collide:
  assumes "silo_run pk es (silo_sys_init v) = Some s" "\<And>t m. (t, SAck m) \<notin> set es"
  shows "(\<forall>r. silo_tid (sys_rows s r) = (if length (g_hist s r) = 1 then 0 else 1)) \<and>
    (\<forall>t. \<forall>a\<in>set (si_accesses (sys_txns s t)). sa_tid a \<noteq> 0 \<longrightarrow> fst (silo_validate (sa_tid a) True (sys_rows s (sa_orig a))))"
proof -
  have v: "fst (silo_validate tid True row) \<longleftrightarrow> tid = silo_tid row" for tid and row :: "'a Row_silo" by (simp add: silo_validate_def)
  show ?thesis using ids_inv_run [OF ids_inv_init assms] unfolding ids_inv_def v by blast
qed

text \<open>A lost update: transactions 2 and 3 both read version 5, 3 commits 7, and 2 passes validation and overwrites it with 6.\<close>

theorem silo_ids_collide_witness:
  "\<exists>s. silo_run sample_pk sample_lost (silo_sys_init (\<lambda>_. 0)) = Some s \<and> silo_tid (sys_rows s 0) = 1 \<and>
     g_done s = [(3, [(0, 5)], [(0, 6)]), (2, [(0, 5)], [(0, 7)]), (1, [(0, 0)], [(0, 5)])] \<and>
     version_before 3 (g_hist s 0) = 7 \<and> silo_row (sys_rows s 0) = 6"
proof -
  have "map_option (\<lambda>s. (g_done s, version_before 3 (g_hist s 0), silo_row (sys_rows s 0), length (g_hist s 0))) (silo_run sample_pk sample_lost (silo_sys_init (\<lambda>_. 0))) =
     Some ([(3, [(0, 5)], [(0, 6)]), (2, [(0, 5)], [(0, 7)]), (1, [(0, 0)], [(0, 5)])], 7, 6, 4)"
    by code_simp
  then obtain s where s: "silo_run sample_pk sample_lost (silo_sys_init (\<lambda>_. 0)) = Some s"
    "g_done s = [(3, [(0, 5)], [(0, 6)]), (2, [(0, 5)], [(0, 7)]), (1, [(0, 0)], [(0, 5)])]"
    "version_before 3 (g_hist s 0) = 7" "silo_row (sys_rows s 0) = 6" "length (g_hist s 0) = 4" by auto
  have "(t, SAck m) \<notin> set sample_lost" for t m by (auto simp: sample_lost_def sample_start_def sample_finish_def)
  from silo_ids_collide [OF s(1) this] s show ?thesis by simp
qed

end
