(* ===== verification/Buffer.thy ===== *)
theory Buffer
imports Prelude
begin

text \<open>
  Byte buffers and the copies in and out of them (\<open>COPY_BUF\<close> and \<open>COPY_VAL\<close> of \<open>system/helper.h\<close>), the
  memory images of the types that messages contain, and the contract between the two directions: the
  locale \<open>codec\<close>.
\<close>

section \<open>Buffers\<close>

type_synonym byte = "8 word"
type_synonym buf = "nat \<Rightarrow> byte"

definition put_bytes :: "nat \<Rightarrow> byte list \<Rightarrow> buf \<Rightarrow> buf" where
  "put_bytes p bs b = (\<lambda>i. if p \<le> i \<and> i < p + length bs then bs ! (i - p) else b i)"

definition get_bytes :: "nat \<Rightarrow> nat \<Rightarrow> buf \<Rightarrow> byte list" where
  "get_bytes p n b = map b [p..<p + n]"

text \<open>\<open>COPY_BUF(d, v, p)\<close> copies the image of \<open>v\<close> to the position \<open>p\<close> and moves \<open>p\<close> behind it.\<close>

definition copy_buf :: "byte list \<Rightarrow> buf \<times> nat \<Rightarrow> buf \<times> nat" where
  "copy_buf bs c = (put_bytes (snd c) bs (fst c), snd c + length bs)"

definition copy_all :: "byte list list \<Rightarrow> buf \<times> nat \<Rightarrow> buf \<times> nat" where
  "copy_all bss c = fold copy_buf bss c"

text \<open>\<open>COPY_VAL(v, d, p)\<close>: a reader takes a buffer and a position to a value and the position behind it.\<close>

type_synonym 'a reader = "buf \<Rightarrow> nat \<Rightarrow> ('a \<times> nat) result"

definition rbind :: "'a reader \<Rightarrow> ('a \<Rightarrow> 'b reader) \<Rightarrow> 'b reader" where
  "rbind r f b p = bind_result (r b p) (\<lambda>(x, q). f x b q)"

definition rret :: "'a \<Rightarrow> 'a reader" where
  "rret x b p = Inr (x, p)"

definition rassert :: "bool \<Rightarrow> 'a reader \<Rightarrow> 'a reader" where
  "rassert c r b p = (if c then r b p else Inl Assert_failed)"

text \<open>An assignment to the position.\<close>

definition rseek :: "nat \<Rightarrow> 'a reader \<Rightarrow> 'a reader" where
  "rseek q r b p = r b q"

text \<open>The loop that reads \<open>n\<close> elements.\<close>

fun read_n :: "nat \<Rightarrow> 'a reader \<Rightarrow> 'a list reader" where
  "read_n 0 r = rret []"
| "read_n (Suc n) r = rbind r (\<lambda>x. rbind (read_n n r) (\<lambda>xs. rret (x # xs)))"

lemma length_get_bytes [simp]: "length (get_bytes p n b) = n"
  by (simp add: get_bytes_def)

lemma put_bytes_Nil [simp]: "put_bytes p [] b = b"
  by (auto simp: put_bytes_def fun_eq_iff)

lemma put_bytes_append: "put_bytes (p + length as) bs (put_bytes p as b) = put_bytes p (as @ bs) b"
  by (auto simp: put_bytes_def fun_eq_iff nth_append)

lemma copy_all_conv: "copy_all bss (b, p) = (put_bytes p (concat bss) b, p + length (concat bss))"
  unfolding copy_all_def
  by (induction bss arbitrary: b p) (simp_all add: copy_buf_def put_bytes_append add.assoc)

lemma put_bytes_outside: "i < p \<or> p + length bs \<le> i \<Longrightarrow> put_bytes p bs b i = b i"
  by (auto simp: put_bytes_def)

lemma get_put_bytes: "get_bytes p (length bs) (put_bytes p bs b) = bs"
  by (rule nth_equalityI) (simp_all add: get_bytes_def put_bytes_def)

section \<open>What a buffer holds\<close>

definition holds :: "buf \<Rightarrow> nat \<Rightarrow> byte list \<Rightarrow> bool" where
  "holds b p bs \<longleftrightarrow> get_bytes p (length bs) b = bs"

lemma holds_put_bytes [simp]: "holds (put_bytes p bs b) p bs"
  by (simp add: holds_def get_put_bytes)

lemma get_bytes_append: "get_bytes p (m + n) b = get_bytes p m b @ get_bytes (p + m) n b"
proof -
  have "[p..<p + (m + n)] = [p..<p + m] @ [p + m..<p + m + n]"
    using upt_add_eq_append [of p "p + m" n] by (simp add: add.assoc)
  then show ?thesis by (simp add: get_bytes_def)
qed

lemma holds_Nil [simp]: "holds b p []"
  by (simp add: holds_def get_bytes_def)

lemma holds_append [simp]: "holds b p (as @ bs) \<longleftrightarrow> holds b p as \<and> holds b (p + length as) bs"
  by (auto simp: holds_def get_bytes_append)

lemma holds_iff_nth: "holds b p bs \<longleftrightarrow> (\<forall>i<length bs. b (p + i) = bs ! i)"
proof -
  have "get_bytes p (length bs) b = bs \<longleftrightarrow> (\<forall>i<length bs. get_bytes p (length bs) b ! i = bs ! i)"
    by (simp add: list_eq_iff_nth_eq)
  then show ?thesis by (simp add: holds_def get_bytes_def)
qed

lemma holds_put_other: "p + length bs \<le> q \<or> q + length cs \<le> p \<Longrightarrow> holds (put_bytes q cs b) p bs \<longleftrightarrow> holds b p bs"
  unfolding holds_iff_nth by (intro all_cong) (subst put_bytes_outside, auto)

section \<open>Values and their images\<close>

text \<open>
  \<open>enc\<close> is the image of a value and \<open>dec\<close> reads one; reading the image of an admissible value gives it
  back and ends behind it.
\<close>

locale codec =
  fixes ok :: "'a \<Rightarrow> bool"
    and enc :: "'a \<Rightarrow> byte list"
    and dec :: "'a reader"
  assumes dec_enc: "ok x \<Longrightarrow> holds b p (enc x) \<Longrightarrow> dec b p = Inr (x, p + length (enc x))"
begin

lemma rbind_dec: "ok x \<Longrightarrow> holds b p (enc x) \<Longrightarrow> rbind dec f b p = f x b (p + length (enc x))"
  by (simp add: rbind_def dec_enc)

lemma read_n_dec:
  "\<forall>x\<in>set xs. ok x \<Longrightarrow> holds b p (concat (map enc xs)) \<Longrightarrow>
    read_n (length xs) dec b p = Inr (xs, p + length (concat (map enc xs)))"
proof (induction xs arbitrary: p)
  case (Cons x xs)
  then have "dec b p = Inr (x, p + length (enc x))" by (intro dec_enc) simp_all
  with Cons show ?case by (simp add: rret_def rbind_def add.assoc)
qed (simp add: rret_def)

lemma rbind_read_n:
  "\<forall>x\<in>set xs. ok x \<Longrightarrow> holds b p (concat (map enc xs)) \<Longrightarrow> n = length xs \<Longrightarrow>
    rbind (read_n n dec) f b p = f xs b (p + length (concat (map enc xs)))"
  by (simp add: rbind_def read_n_dec)

text \<open>Two values with the same image are equal.\<close>

lemma enc_inj: "ok x \<Longrightarrow> ok y \<Longrightarrow> enc x = enc y \<Longrightarrow> x = y"
  using dec_enc [of x "put_bytes 0 (enc x) (\<lambda>_. 0)" 0] dec_enc [of y "put_bytes 0 (enc x) (\<lambda>_. 0)" 0] by simp

end

text \<open>Little-endian images of the unsigned integers.\<close>

fun le_bytes :: "nat \<Rightarrow> nat \<Rightarrow> byte list" where
  "le_bytes 0 v = []"
| "le_bytes (Suc n) v = of_nat v # le_bytes n (v div 256)"

fun le_value :: "byte list \<Rightarrow> nat" where
  "le_value [] = 0"
| "le_value (b # bs) = unat b + 256 * le_value bs"

lemma length_le_bytes [simp]: "length (le_bytes n v) = n"
  by (induction n arbitrary: v) simp_all

lemma le_value_bytes: "le_value (le_bytes n v) = v mod 256 ^ n"
proof (induction n arbitrary: v)
  case (Suc n)
  have "v mod 256 + 256 * (v div 256 mod 256 ^ n) = v mod (256 * 256 ^ n)"
    by (simp add: mod_mult2_eq)
  then show ?case using Suc by (simp add: unat_of_nat)
qed simp

definition u64_bytes :: "64 word \<Rightarrow> byte list" where
  "u64_bytes w = le_bytes 8 (unat w)"

definition u64_val :: "64 word reader" where
  "u64_val b p = Inr (of_nat (le_value (get_bytes p 8 b)), p + 8)"

definition u32_bytes :: "32 word \<Rightarrow> byte list" where
  "u32_bytes w = le_bytes 4 (unat w)"

definition u32_val :: "32 word reader" where
  "u32_val b p = Inr (of_nat (le_value (get_bytes p 4 b)), p + 4)"

definition bool_bytes :: "bool \<Rightarrow> byte list" where
  "bool_bytes x = [if x then 1 else 0]"

definition bool_val :: "bool reader" where
  "bool_val b p = Inr (b p \<noteq> 0, p + 1)"

text \<open>Raw memory of a fixed size.\<close>

definition raw_val :: "nat \<Rightarrow> byte list reader" where
  "raw_val n b p = Inr (get_bytes p n b, p + n)"

text \<open>
  An enumeration is a 32-bit integer, the position of the value among the constructors. A number that
  is not a position is no value of the type: reading it is a fault here, where the program would go on
  with the number.
\<close>

definition enum_bytes :: "'a list \<Rightarrow> 'a \<Rightarrow> byte list" where
  "enum_bytes vs x = le_bytes 4 (length (takeWhile (\<lambda>v. v \<noteq> x) vs))"

definition enum_val :: "'a list \<Rightarrow> 'a reader" where
  "enum_val vs b p =
    (let n = le_value (get_bytes p 4 b) in
     if n < length vs then Inr (vs ! n, p + 4) else Inl Out_of_bounds)"

lemma length_images [simp]:
  "length (u64_bytes w) = 8" "length (u32_bytes v) = 4" "length (bool_bytes x) = 1" "length (enum_bytes vs e) = 4"
  by (simp_all add: u64_bytes_def u32_bytes_def bool_bytes_def enum_bytes_def)

lemma enum_position:
  assumes "x \<in> set vs" shows "length (takeWhile (\<lambda>v. v \<noteq> x) vs) < length vs \<and> vs ! length (takeWhile (\<lambda>v. v \<noteq> x) vs) = x"
  using assms by (induction vs) auto

interpretation u64: codec "\<lambda>_. True" u64_bytes u64_val
proof
  fix x :: "64 word" and b p
  assume h: "holds b p (u64_bytes x)"
  have "unat x < 256 ^ 8" using unsigned_less [of x] by simp
  with h show "u64_val b p = Inr (x, p + length (u64_bytes x))"
    by (simp add: holds_def u64_val_def) (simp add: u64_bytes_def le_value_bytes)
qed

interpretation u32: codec "\<lambda>_. True" u32_bytes u32_val
proof
  fix x :: "32 word" and b p
  assume h: "holds b p (u32_bytes x)"
  have "unat x < 256 ^ 4" using unsigned_less [of x] by simp
  with h show "u32_val b p = Inr (x, p + length (u32_bytes x))"
    by (simp add: holds_def u32_val_def) (simp add: u32_bytes_def le_value_bytes)
qed

interpretation bool: codec "\<lambda>_. True" bool_bytes bool_val
  by unfold_locales (simp add: holds_iff_nth bool_bytes_def bool_val_def)

interpretation raw: codec "\<lambda>bs. length bs = n" "\<lambda>bs. bs" "raw_val n"
  by unfold_locales (auto simp: holds_def raw_val_def)

interpretation enum: codec "\<lambda>x. x \<in> set vs \<and> length vs \<le> 256" "enum_bytes vs" "enum_val vs"
proof
  fix x b p
  assume ok: "x \<in> set vs \<and> length vs \<le> 256" and h: "holds b p (enum_bytes vs x)"
  let ?n = "length (takeWhile (\<lambda>v. v \<noteq> x) vs)"
  have "?n < length vs" "vs ! ?n = x" using ok enum_position [of x vs] by simp_all
  moreover have "?n mod 256 ^ 4 = ?n" using ok \<open>?n < length vs\<close> by simp
  ultimately show "enum_val vs b p = Inr (x, p + length (enum_bytes vs x))"
    using h by (simp add: holds_def enum_val_def) (simp add: enum_bytes_def le_value_bytes)
qed

section \<open>Arrays\<close>

text \<open>A counted array: its length as \<open>size_t\<close> and then the elements.\<close>

definition array_bytes :: "('a \<Rightarrow> byte list) \<Rightarrow> 'a list \<Rightarrow> byte list list" where
  "array_bytes f xs = u64_bytes (of_nat (length xs)) # map f xs"

definition array_val :: "'a reader \<Rightarrow> 'a list reader" where
  "array_val r = rbind u64_val (\<lambda>n. read_n (unat n) r)"

context codec
begin

lemma rbind_array:
  assumes "holds b p (concat (array_bytes enc xs))" "\<forall>x\<in>set xs. ok x" "length xs < 2 ^ 64"
  shows "rbind (array_val dec) f b p = f xs b (p + 8 + length (concat (map enc xs)))"
proof -
  have h: "holds b p (u64_bytes (of_nat (length xs)))" "holds b (p + 8) (concat (map enc xs))"
    using assms(1) by (simp_all add: array_bytes_def)
  have n: "unat (of_nat (length xs) :: 64 word) = length xs"
    using assms(3) by (simp add: unat_of_nat take_bit_nat_eq_self)
  have "u64_val b p = Inr (of_nat (length xs), p + 8)" using u64.dec_enc [OF _ h(1)] by simp
  then have "array_val dec b p = read_n (length xs) dec b (p + 8)" by (simp add: array_val_def rbind_def n)
  then show ?thesis using read_n_dec [OF assms(2) h(2)] by (simp add: rbind_def)
qed

end

end
