(* ===== verification/MessageTypes.thy ===== *)
theory MessageTypes
imports Buffer
begin

text \<open>
  The classes of \<open>transport/message.h\<close> and the configuration they depend on, the creation of a message
  by its type, the header that all messages share, and the images of requests and items. A method
  that gets the pointer \<open>&buffer[q]\<close> has the position \<open>q\<close> as an argument. Sizes are natural numbers.
  \<open>double\<close> values are their images; the two operations on them are parameters.
\<close>

section \<open>Configuration\<close>

datatype cc_alg = ALG_NO_WAIT | ALG_WAIT_DIE | ALG_DL_DETECT | ALG_TIMESTAMP | ALG_MVCC | ALG_HSTORE | ALG_HSTORE_SPEC
  | ALG_OCC | ALG_VLL | ALG_CALVIN | ALG_MAAT | ALG_WDL | ALG_WOOKONG | ALG_TICTOC | ALG_FOCC | ALG_BOCC | ALG_SSI | ALG_WSI
  | ALG_DLI_BASE | ALG_DLI_OCC | ALG_DLI_MVCC_OCC | ALG_DTA | ALG_DLI_DTA | ALG_DLI_MVCC | ALG_DLI_DTA2 | ALG_DLI_DTA3
  | ALG_SILO | ALG_CNULL

datatype workload = YCSB | TPCC | PPS | DA

type_synonym double = "64 word"

record msg_cfg =
  cfg_alg :: cc_alg
  cfg_workload :: workload
  g_node_id :: "64 word"
  g_node_cnt :: "64 word"
  g_client_node_cnt :: "64 word"
  g_repl_cnt :: "64 word"
  g_synth_table_size :: "64 word"
  g_req_per_query :: nat
  g_part_split_cnt :: nat
  g_tuplesize :: nat
  g_msg_size :: nat
  g_msg_time_limit :: "64 word"
  g_total_node_cnt :: nat
  sizeof_row :: nat
  sizeof_log_record :: nat
  sizeof_log_flushed :: nat
  myrand_next :: "64 word"
  dbl_of :: "64 word \<Rightarrow> double"
  dbl_sub :: "double \<Rightarrow> double \<Rightarrow> double"

definition calvin :: "msg_cfg \<Rightarrow> bool" where
  "calvin C \<longleftrightarrow> cfg_alg C = ALG_CALVIN"

definition tictoc :: "msg_cfg \<Rightarrow> bool" where
  "tictoc C \<longleftrightarrow> cfg_alg C = ALG_TICTOC"

text \<open>The conditions of the \<open>#if\<close> lines.\<close>

definition sends_ts :: "msg_cfg \<Rightarrow> bool" where
  "sends_ts C \<longleftrightarrow> cfg_alg C \<in> {ALG_WAIT_DIE, ALG_TIMESTAMP, ALG_MVCC, ALG_WOOKONG, ALG_DTA}"

definition sends_start_ts :: "msg_cfg \<Rightarrow> bool" where
  "sends_start_ts C \<longleftrightarrow> cfg_alg C \<in> {ALG_OCC, ALG_FOCC, ALG_BOCC, ALG_SSI, ALG_WSI, ALG_DLI_BASE, ALG_DLI_OCC, ALG_DLI_MVCC_OCC,
     ALG_DLI_DTA, ALG_DLI_DTA2, ALG_DLI_DTA3, ALG_DLI_MVCC}"

definition sends_bounds :: "msg_cfg \<Rightarrow> bool" where
  "sends_bounds C \<longleftrightarrow> cfg_alg C \<in> {ALG_MAAT, ALG_WOOKONG, ALG_DTA, ALG_DLI_DTA, ALG_DLI_DTA2, ALG_DLI_DTA3}"

definition sends_max_tid :: "msg_cfg \<Rightarrow> bool" where
  "sends_max_tid C \<longleftrightarrow> cfg_alg C = ALG_SILO"

definition sends_part_keys :: "msg_cfg \<Rightarrow> bool" where
  "sends_part_keys C \<longleftrightarrow> cfg_workload C = PPS \<and> calvin C"

definition sends_commit_ts :: "msg_cfg \<Rightarrow> bool" where
  "sends_commit_ts C \<longleftrightarrow> cfg_alg C \<in> {ALG_MAAT, ALG_WOOKONG, ALG_SSI, ALG_WSI, ALG_DTA, ALG_DLI_DTA, ALG_DLI_DTA2, ALG_DLI_DTA3,
     ALG_DLI_MVCC_OCC, ALG_DLI_MVCC, ALG_SILO}"

section \<open>Message classes\<close>

datatype RemReqType = INIT_DONE | RLK | RULK | CL_QRY | CL_QRY_O | RQRY | RQRY_CONT | RFIN | RLK_RSP | RULK_RSP | RQRY_RSP
  | RACK | RACK_PREP | RACK_FIN | RTXN | RTXN_CONT | RINIT | RPREPARE | RPASS | RFWD | RDONE | CL_RSP | LOG_MSG | LOG_MSG_RSP
  | LOG_FLUSHED | CALVIN_ACK | SYNC | ACK_SYNC | SEND_MIGRATION | RECV_MIGRATION | FINISH_MIGRATION | SET_PARTMAP
  | SET_MINIPARTMAP | NO_MSG

definition rem_req_types :: "RemReqType list" where
  "rem_req_types = [INIT_DONE, RLK, RULK, CL_QRY, CL_QRY_O, RQRY, RQRY_CONT, RFIN, RLK_RSP, RULK_RSP, RQRY_RSP,
     RACK, RACK_PREP, RACK_FIN, RTXN, RTXN_CONT, RINIT, RPREPARE, RPASS, RFWD, RDONE, CL_RSP, LOG_MSG, LOG_MSG_RSP,
     LOG_FLUSHED, CALVIN_ACK, SYNC, ACK_SYNC, SEND_MIGRATION, RECV_MIGRATION, FINISH_MIGRATION, SET_PARTMAP,
     SET_MINIPARTMAP, NO_MSG]"

definition rcs :: "RC list" where
  "rcs = [RCOK, Commit, Abort, WAIT, WAIT_REM, ERROR, FINISH, NONE]"

definition access_types :: "access_t list" where
  "access_types = [RD, WR, XP, SCAN]"

datatype DATxnType = DA_READ | DA_WRITE | DA_COMMIT | DA_ABORT | DA_SCAN

definition da_types :: "DATxnType list" where
  "da_types = [DA_READ, DA_WRITE, DA_COMMIT, DA_ABORT, DA_SCAN]"

record ycsb_request =
  acctype :: access_t
  req_key :: "64 word"
  req_value :: byte

record Item_no =
  ol_i_id :: "64 word"
  ol_supply_w_id :: "64 word"
  ol_quantity :: "64 word"

text \<open>The fields of the TPC-C, PPS and DA messages; \<open>state\<close> is a field of the remote queries only.\<close>

record tpcc_fields =
  tpcc_type :: "64 word"
  tpcc_state :: "64 word"
  w_id :: "64 word"
  d_id :: "64 word"
  c_id :: "64 word"
  d_w_id :: "64 word"
  c_w_id :: "64 word"
  c_d_id :: "64 word"
  c_last :: "byte list"
  h_amount :: "64 word"
  by_last_name :: bool
  tpcc_items :: "Item_no list"
  rbk :: bool
  remote :: bool
  ol_cnt :: "64 word"
  o_entry_d :: "64 word"

record pps_fields =
  pps_type :: "64 word"
  pps_state :: "64 word"
  part_key :: "64 word"
  product_key :: "64 word"
  supplier_key :: "64 word"
  part_keys :: "64 word list"
  pps_recon :: bool

record da_fields =
  da_type :: DATxnType
  trans_id :: "64 word"
  item_id :: "64 word"
  seq_id :: "64 word"
  write_version :: "64 word"
  da_state :: "64 word"
  next_state :: "64 word"
  last_state :: "64 word"

datatype query_data = YCSBData "ycsb_request list" | TPCCData tpcc_fields | PPSData pps_fields | DAData da_fields

text \<open>\<open>mig_data\<close> and \<open>mig_row_data\<close> hold the images of the \<open>row_t\<close> and \<open>std::string\<close> objects.\<close>

record migration_fields =
  node_id_src :: "64 word"
  node_id_des :: "64 word"
  mig_part_id :: "64 word"
  mig_minipart_id :: "64 word"
  key_start :: "64 word"
  key_end :: "64 word"
  mig_ord :: "64 word"
  data_size :: "64 word"
  isdata :: bool
  islast :: bool
  mig_order :: "64 word list"
  mig_data :: "byte list list"
  mig_row_data :: "byte list list"

datatype msg_body =
    InitDoneMessage
  | FinishMessage "64 word" RC bool "64 word"
  | LogMessage "byte list"
  | LogRspMessage
  | LogFlushedMessage
  | QueryResponseMessage RC "64 word"
  | AckMessage RC "64 word" "64 word" "64 word" "64 word list"
  | PrepareMessage "64 word"
  | ForwardMessage RC "64 word"
  | DoneMessage
  | ClientResponseMessage "64 word"
  | ClientQueryMessage "64 word" "64 word list" query_data
  | QueryMessage "64 word" "64 word" query_data
  | SyncMessage "64 word" "64 word"
  | AckSyncMessage "64 word" "64 word"
  | MigrationMessage migration_fields
  | SetPartMapMessage "64 word" "64 word" "64 word"
  | SetMiniPartMapMessage "64 word" "64 word" "64 word" "64 word"

record Message =
  rtype :: RemReqType
  m_txn_id :: "64 word"
  m_batch_id :: "64 word"
  return_node_id :: "64 word"
  wq_time :: "64 word"
  mq_time :: "64 word"
  ntwk_time :: "64 word"
  lat_work_queue_time :: double
  lat_msg_queue_time :: double
  lat_cc_block_time :: double
  lat_cc_time :: double
  lat_process_time :: double
  lat_network_time :: double
  lat_other_time :: double
  m_body :: msg_body

section \<open>Creation\<close>

text \<open>
  Fields that the constructor leaves uninitialised are 0 here; a field that the configuration does
  not have is one of them.
\<close>

definition empty_tpcc :: tpcc_fields where
  "empty_tpcc = \<lparr>tpcc_type = 0, tpcc_state = 0, w_id = 0, d_id = 0, c_id = 0, d_w_id = 0, c_w_id = 0, c_d_id = 0,
     c_last = replicate 16 0, h_amount = 0, by_last_name = False, tpcc_items = [], rbk = False, remote = False, ol_cnt = 0, o_entry_d = 0\<rparr>"

definition empty_pps :: pps_fields where
  "empty_pps = \<lparr>pps_type = 0, pps_state = 0, part_key = 0, product_key = 0, supplier_key = 0, part_keys = [], pps_recon = False\<rparr>"

definition empty_da :: da_fields where
  "empty_da = \<lparr>da_type = DA_READ, trans_id = 0, item_id = 0, seq_id = 0, write_version = 0, da_state = 0, next_state = 0, last_state = 0\<rparr>"

definition empty_query :: "msg_cfg \<Rightarrow> query_data" where
  "empty_query C = (case cfg_workload C of YCSB \<Rightarrow> YCSBData [] | TPCC \<Rightarrow> TPCCData empty_tpcc | PPS \<Rightarrow> PPSData empty_pps | DA \<Rightarrow> DAData empty_da)"

definition empty_migration :: migration_fields where
  "empty_migration = \<lparr>node_id_src = 0, node_id_des = 0, mig_part_id = 0, mig_minipart_id = 0, key_start = 0, key_end = 0,
     mig_ord = 0, data_size = 0, isdata = False, islast = False, mig_order = [], mig_data = [], mig_row_data = []\<rparr>"

fun new_body :: "msg_cfg \<Rightarrow> RemReqType \<Rightarrow> msg_body option" where
  "new_body C INIT_DONE = Some InitDoneMessage"
| "new_body C RQRY = Some (QueryMessage 0 0 (empty_query C))"
| "new_body C RQRY_CONT = Some (QueryMessage 0 0 (empty_query C))"
| "new_body C RFIN = Some (FinishMessage 0 RCOK False 0)"
| "new_body C RQRY_RSP = Some (QueryResponseMessage RCOK 0)"
| "new_body C LOG_MSG = Some (LogMessage [])"
| "new_body C LOG_MSG_RSP = Some LogRspMessage"
| "new_body C LOG_FLUSHED = Some LogFlushedMessage"
| "new_body C CALVIN_ACK = Some (AckMessage RCOK 0 0 0 [])"
| "new_body C RACK_PREP = Some (AckMessage RCOK 0 0 0 [])"
| "new_body C RACK_FIN = Some (AckMessage RCOK 0 0 0 [])"
| "new_body C SYNC = Some (SyncMessage 0 0)"
| "new_body C ACK_SYNC = Some (AckSyncMessage 0 0)"
| "new_body C SEND_MIGRATION = Some (MigrationMessage empty_migration)"
| "new_body C RECV_MIGRATION = Some (MigrationMessage empty_migration)"
| "new_body C FINISH_MIGRATION = Some (MigrationMessage empty_migration)"
| "new_body C CL_QRY = Some (ClientQueryMessage 0 [] (empty_query C))"
| "new_body C CL_QRY_O = Some (ClientQueryMessage 0 [] (empty_query C))"
| "new_body C RTXN = Some (ClientQueryMessage 0 [] (empty_query C))"
| "new_body C RTXN_CONT = Some (ClientQueryMessage 0 [] (empty_query C))"
| "new_body C RPREPARE = Some (PrepareMessage 0)"
| "new_body C RFWD = Some (ForwardMessage RCOK 0)"
| "new_body C RDONE = Some DoneMessage"
| "new_body C CL_RSP = Some (ClientResponseMessage 0)"
| "new_body C SET_PARTMAP = Some (SetPartMapMessage 0 0 0)"
| "new_body C SET_MINIPARTMAP = Some (SetMiniPartMapMessage 0 0 0 0)"
| "new_body C _ = None"

definition new_message :: "msg_cfg \<Rightarrow> RemReqType \<Rightarrow> Message result" where
  "new_message C ty =
    (case new_body C ty of
       None \<Rightarrow> Inl Assert_failed
     | Some body \<Rightarrow> Inr \<lparr>rtype = ty, m_txn_id = UINT64_MAX, m_batch_id = UINT64_MAX, return_node_id = g_node_id C,
         wq_time = 0, mq_time = 0, ntwk_time = 0, lat_work_queue_time = 0, lat_msg_queue_time = 0, lat_cc_block_time = 0,
         lat_cc_time = 0, lat_process_time = 0, lat_network_time = 0, lat_other_time = 0, m_body = body\<rparr>)"

definition create_partmap_message :: "msg_cfg \<Rightarrow> RemReqType \<Rightarrow> 64 word \<Rightarrow> 64 word \<Rightarrow> 64 word \<Rightarrow> Message result" where
  "create_partmap_message C ty part node status =
    bind_result (new_message C ty) (\<lambda>m. Inr (m\<lparr>m_body := SetPartMapMessage part node status\<rparr>))"

definition create_minipartmap_message :: "msg_cfg \<Rightarrow> RemReqType \<Rightarrow> 64 word \<Rightarrow> 64 word \<Rightarrow> 64 word \<Rightarrow> 64 word \<Rightarrow> Message result" where
  "create_minipartmap_message C ty part minipart node status =
    bind_result (new_message C ty) (\<lambda>m. Inr (m\<lparr>m_body := SetMiniPartMapMessage part minipart node status\<rparr>))"

section \<open>The header\<close>

definition mget_size :: "msg_cfg \<Rightarrow> nat" where
  "mget_size C = 4 + 8 + (if calvin C then 8 else 0) + 8 + 8 * 7"

definition is_local :: "msg_cfg \<Rightarrow> 64 word \<Rightarrow> bool" where
  "is_local C tid \<longleftrightarrow> tid mod g_node_cnt C = g_node_id C \<or> calvin C"

definition send_times :: "msg_cfg \<Rightarrow> 64 word \<Rightarrow> Message \<Rightarrow> Message" where
  "send_times C now m =
    (if calvin C \<and> (rtype m = CL_QRY \<or> rtype m = CL_QRY_O) \<and> m_txn_id m mod g_node_cnt C = g_node_id C \<or>
        \<not> calvin C \<and> is_local C (m_txn_id m)
     then m\<lparr>lat_network_time := dbl_of C now\<rparr>
     else m\<lparr>lat_other_time := dbl_sub C (dbl_of C now) (lat_other_time m)\<rparr>)"

definition header_fields :: "msg_cfg \<Rightarrow> Message \<Rightarrow> byte list list" where
  "header_fields C m = [enum_bytes rem_req_types (rtype m), u64_bytes (m_txn_id m)] @
     (if calvin C then [u64_bytes (m_batch_id m)] else []) @
     [u64_bytes (mq_time m), u64_bytes (lat_work_queue_time m), u64_bytes (lat_msg_queue_time m),
      u64_bytes (lat_cc_block_time m), u64_bytes (lat_cc_time m), u64_bytes (lat_process_time m),
      u64_bytes (lat_network_time m), u64_bytes (lat_other_time m)]"

definition mcopy_to_buf :: "msg_cfg \<Rightarrow> 64 word \<Rightarrow> nat \<Rightarrow> Message \<Rightarrow> buf \<Rightarrow> Message \<times> buf" where
  "mcopy_to_buf C now q m b = (let m' = send_times C now m in (m', fst (copy_all (header_fields C m') (b, q))))"

definition recv_times :: "msg_cfg \<Rightarrow> 64 word \<Rightarrow> Message \<Rightarrow> Message" where
  "recv_times C now m =
    (if calvin C \<and> rtype m = CALVIN_ACK \<and> m_txn_id m mod g_node_cnt C = g_node_id C \<or>
        \<not> calvin C \<and> is_local C (m_txn_id m)
     then m\<lparr>lat_network_time := dbl_sub C (dbl_sub C (dbl_of C now) (lat_network_time m)) (lat_other_time m)\<rparr>
     else m\<lparr>lat_other_time := dbl_of C now\<rparr>)"

definition mcopy_from_buf :: "msg_cfg \<Rightarrow> 64 word \<Rightarrow> Message \<Rightarrow> Message reader" where
  "mcopy_from_buf C now m =
    rbind (enum_val rem_req_types) (\<lambda>ty. rbind u64_val (\<lambda>tid.
    rbind (if calvin C then u64_val else rret (m_batch_id m)) (\<lambda>bid. rbind u64_val (\<lambda>mq.
    rbind u64_val (\<lambda>wq. rbind u64_val (\<lambda>msgq. rbind u64_val (\<lambda>block. rbind u64_val (\<lambda>cc. rbind u64_val (\<lambda>process.
    rbind u64_val (\<lambda>network. rbind u64_val (\<lambda>other.
    rret (recv_times C now (m\<lparr>rtype := ty, m_txn_id := tid, m_batch_id := bid, mq_time := mq, lat_work_queue_time := wq,
      lat_msg_queue_time := msgq, lat_cc_block_time := block, lat_cc_time := cc, lat_process_time := process,
      lat_network_time := network, lat_other_time := other\<rparr>)))))))))))))"

section \<open>Requests and items\<close>

text \<open>The memory image of a \<open>ycsb_request\<close> has padding behind \<open>acctype\<close> and \<open>value\<close>, written as 0.\<close>

definition ycsb_request_bytes :: "ycsb_request \<Rightarrow> byte list" where
  "ycsb_request_bytes r = enum_bytes access_types (acctype r) @ replicate 4 0 @ u64_bytes (req_key r) @ [req_value r] @ replicate 7 0"

definition ycsb_request_val :: "ycsb_request reader" where
  "ycsb_request_val =
    rbind (enum_val access_types) (\<lambda>ty. rbind (raw_val 4) (\<lambda>_. rbind u64_val (\<lambda>k. rbind (raw_val 1) (\<lambda>v. rbind (raw_val 7) (\<lambda>_.
    rret \<lparr>acctype = ty, req_key = k, req_value = hd v\<rparr>)))))"

definition Item_no_bytes :: "Item_no \<Rightarrow> byte list" where
  "Item_no_bytes i = u64_bytes (ol_i_id i) @ u64_bytes (ol_supply_w_id i) @ u64_bytes (ol_quantity i)"

definition Item_no_val :: "Item_no reader" where
  "Item_no_val = rbind u64_val (\<lambda>a. rbind u64_val (\<lambda>b. rbind u64_val (\<lambda>c. rret \<lparr>ol_i_id = a, ol_supply_w_id = b, ol_quantity = c\<rparr>)))"

lemma access_types_all [simp]: "x \<in> set access_types" "length access_types \<le> 256"
  by (cases x; simp add: access_types_def) (simp add: access_types_def)

lemma rcs_all [simp]: "x \<in> set rcs" "length rcs \<le> 256"
  by (cases x; simp add: rcs_def) (simp add: rcs_def)

lemma da_types_all [simp]: "x \<in> set da_types" "length da_types \<le> 256"
  by (cases x; simp add: da_types_def) (simp add: da_types_def)

lemma rem_req_types_all [simp]: "x \<in> set rem_req_types" "length rem_req_types \<le> 256"
  by (cases x; simp add: rem_req_types_def) (simp add: rem_req_types_def)

lemma length_items [simp]: "length (ycsb_request_bytes r) = 24" "length (Item_no_bytes i) = 24"
  by (simp_all add: ycsb_request_bytes_def Item_no_bytes_def)

lemma rbind_u64: "holds b p (u64_bytes x) \<Longrightarrow> rbind u64_val f b p = f x b (p + 8)"
  using u64.rbind_dec [where x = x and b = b and p = p and f = f] by simp

lemma rbind_enum: "holds b p (enum_bytes vs x) \<Longrightarrow> x \<in> set vs \<Longrightarrow> length vs \<le> 256 \<Longrightarrow> rbind (enum_val vs) f b p = f x b (p + 4)"
  using enum.rbind_dec [where x = x and vs = vs and b = b and p = p and f = f] by simp

lemma rbind_bool: "holds b p (bool_bytes x) \<Longrightarrow> rbind bool_val f b p = f x b (p + 1)"
  using bool.rbind_dec [where x = x and b = b and p = p and f = f] by simp

lemma rbind_raw: "holds b p bs \<Longrightarrow> length bs = n \<Longrightarrow> rbind (raw_val n) f b p = f bs b (p + n)"
  using raw.rbind_dec [where x = bs and n = n and b = b and p = p and f = f] by simp

lemmas read_simps = rbind_u64 rbind_enum rbind_bool rbind_raw

interpretation req: codec "\<lambda>_. True" ycsb_request_bytes ycsb_request_val
proof
  fix x :: ycsb_request and b p
  assume "holds b p (ycsb_request_bytes x)"
  then have "holds b p (enum_bytes access_types (acctype x))" "holds b (p + 4) (replicate 4 0)" "holds b (p + 8) (u64_bytes (req_key x))"
    "holds b (p + 16) [req_value x]" "holds b (p + 17) (replicate 7 0)"
    unfolding ycsb_request_bytes_def holds_append by (simp_all add: ac_simps)
  then show "ycsb_request_val b p = Inr (x, p + length (ycsb_request_bytes x))"
    by (simp add: ycsb_request_val_def read_simps rret_def ac_simps)
qed

interpretation item: codec "\<lambda>_. True" Item_no_bytes Item_no_val
  by unfold_locales (auto simp: Item_no_val_def Item_no_bytes_def read_simps rret_def ac_simps)

end
