(* ===== verification/Message.thy ===== *)
theory Message
imports MessageTypes
begin

text \<open>
  The wire format of messages (\<open>transport/message.cpp\<close>): for every class its size, the fields it copies
  into a buffer and the fields it reads back, as they depend on the algorithm and the workload the
  program is compiled for, and \<open>create_message\<close>, which finds the class by the type at the front.
\<close>

section \<open>Client queries\<close>

definition client_query_size :: "msg_cfg \<Rightarrow> 64 word list \<Rightarrow> nat" where
  "client_query_size C parts = mget_size C + 8 + 8 + 8 * length parts"

definition client_query_fields :: "64 word \<Rightarrow> 64 word list \<Rightarrow> byte list list" where
  "client_query_fields startts parts = u64_bytes startts # array_bytes u64_bytes parts"

definition ycsb_client_size :: "ycsb_request list \<Rightarrow> nat" where
  "ycsb_client_size reqs = 8 + 24 * length reqs"

definition ycsb_client_request_val :: "msg_cfg \<Rightarrow> ycsb_request reader" where
  "ycsb_client_request_val C = rbind ycsb_request_val (\<lambda>r. rassert (req_key r < g_synth_table_size C) (rret r))"

definition ycsb_client_val :: "msg_cfg \<Rightarrow> ycsb_request list reader" where
  "ycsb_client_val C = array_val (ycsb_client_request_val C)"

definition tpcc_client_size :: "tpcc_fields \<Rightarrow> nat" where
  "tpcc_client_size t = 8 * 10 + 16 + 3 + 8 + 24 * length (tpcc_items t)"

definition tpcc_client_fields :: "tpcc_fields \<Rightarrow> byte list list" where
  "tpcc_client_fields t =
    [u64_bytes (tpcc_type t), u64_bytes (w_id t), u64_bytes (d_id t), u64_bytes (c_id t),
     u64_bytes (d_w_id t), u64_bytes (c_w_id t), u64_bytes (c_d_id t), c_last t, u64_bytes (h_amount t), bool_bytes (by_last_name t)] @
    array_bytes Item_no_bytes (tpcc_items t) @
    [bool_bytes (rbk t), bool_bytes (remote t), u64_bytes (ol_cnt t), u64_bytes (o_entry_d t)]"

definition tpcc_client_val :: "tpcc_fields reader" where
  "tpcc_client_val =
    rbind u64_val (\<lambda>ty. rbind u64_val (\<lambda>w. rbind u64_val (\<lambda>d. rbind u64_val (\<lambda>c.
    rbind u64_val (\<lambda>dw. rbind u64_val (\<lambda>cw. rbind u64_val (\<lambda>cd. rbind (raw_val 16) (\<lambda>l. rbind u64_val (\<lambda>h. rbind bool_val (\<lambda>bl.
    rbind (array_val Item_no_val) (\<lambda>is.
    rbind bool_val (\<lambda>rb. rbind bool_val (\<lambda>rem. rbind u64_val (\<lambda>ol. rbind u64_val (\<lambda>oe.
    rret \<lparr>tpcc_type = ty, tpcc_state = 0, w_id = w, d_id = d, c_id = c, d_w_id = dw, c_w_id = cw, c_d_id = cd, c_last = l, h_amount = h,
      by_last_name = bl, tpcc_items = is, rbk = rb, remote = rem, ol_cnt = ol, o_entry_d = oe\<rparr>)))))))))))))))"

definition pps_client_size :: "msg_cfg \<Rightarrow> pps_fields \<Rightarrow> nat" where
  "pps_client_size C f = 8 + 8 * 3 + 8 + 8 * length (part_keys f) + (if calvin C then 1 else 0)"

definition pps_client_fields :: "msg_cfg \<Rightarrow> pps_fields \<Rightarrow> byte list list" where
  "pps_client_fields C f =
    [u64_bytes (pps_type f), u64_bytes (part_key f), u64_bytes (product_key f), u64_bytes (supplier_key f)] @
    array_bytes u64_bytes (part_keys f) @ (if calvin C then [bool_bytes (pps_recon f)] else [])"

definition pps_client_val :: "msg_cfg \<Rightarrow> pps_fields reader" where
  "pps_client_val C =
    rbind u64_val (\<lambda>ty. rbind u64_val (\<lambda>pa. rbind u64_val (\<lambda>pr. rbind u64_val (\<lambda>su. rbind (array_val u64_val) (\<lambda>ks.
    rbind (if calvin C then bool_val else rret False) (\<lambda>rec.
    rret \<lparr>pps_type = ty, pps_state = 0, part_key = pa, product_key = pr, supplier_key = su, part_keys = ks, pps_recon = rec\<rparr>))))))"

definition da_fields_bytes :: "da_fields \<Rightarrow> byte list list" where
  "da_fields_bytes f =
    [enum_bytes da_types (da_type f), u64_bytes (trans_id f), u64_bytes (item_id f), u64_bytes (seq_id f), u64_bytes (write_version f),
     u64_bytes (da_state f), u64_bytes (next_state f), u64_bytes (last_state f)]"

definition da_fields_val :: "da_fields reader" where
  "da_fields_val =
    rbind (enum_val da_types) (\<lambda>ty. rbind u64_val (\<lambda>tr. rbind u64_val (\<lambda>it. rbind u64_val (\<lambda>sq. rbind u64_val (\<lambda>wv.
    rbind u64_val (\<lambda>st. rbind u64_val (\<lambda>nx. rbind u64_val (\<lambda>ls.
    rret \<lparr>da_type = ty, trans_id = tr, item_id = it, seq_id = sq, write_version = wv, da_state = st, next_state = nx, last_state = ls\<rparr>))))))))"

definition da_size :: nat where
  "da_size = 4 + 8 * 7"

fun client_data_size :: "msg_cfg \<Rightarrow> query_data \<Rightarrow> nat" where
  "client_data_size C (YCSBData reqs) = ycsb_client_size reqs"
| "client_data_size C (TPCCData t) = tpcc_client_size t"
| "client_data_size C (PPSData f) = pps_client_size C f"
| "client_data_size C (DAData f) = da_size"

fun client_data_fields :: "msg_cfg \<Rightarrow> query_data \<Rightarrow> byte list list" where
  "client_data_fields C (YCSBData reqs) = array_bytes ycsb_request_bytes reqs"
| "client_data_fields C (TPCCData t) = tpcc_client_fields t"
| "client_data_fields C (PPSData f) = pps_client_fields C f"
| "client_data_fields C (DAData f) = da_fields_bytes f"

definition client_data_val :: "msg_cfg \<Rightarrow> query_data reader" where
  "client_data_val C = (case cfg_workload C of
     YCSB \<Rightarrow> rbind (ycsb_client_val C) (\<lambda>d. rret (YCSBData d))
   | TPCC \<Rightarrow> rbind tpcc_client_val (\<lambda>d. rret (TPCCData d))
   | PPS \<Rightarrow> rbind (pps_client_val C) (\<lambda>d. rret (PPSData d))
   | DA \<Rightarrow> rbind da_fields_val (\<lambda>d. rret (DAData d)))"

section \<open>Remote queries\<close>

definition query_size :: "msg_cfg \<Rightarrow> nat" where
  "query_size C = mget_size C + (if sends_ts C then 8 else 0) + (if sends_start_ts C then 8 else 0)"

definition query_fields :: "msg_cfg \<Rightarrow> 64 word \<Rightarrow> 64 word \<Rightarrow> byte list list" where
  "query_fields C ts start_ts = (if sends_ts C then [u64_bytes ts] else []) @ (if sends_start_ts C then [u64_bytes start_ts] else [])"

definition query_val :: "msg_cfg \<Rightarrow> (64 word \<times> 64 word) reader" where
  "query_val C =
    rbind (if sends_ts C then rbind u64_val (\<lambda>ts. rassert (ts \<noteq> 0) (rret ts)) else rret 0) (\<lambda>ts.
    rbind (if sends_start_ts C then u64_val else rret 0) (\<lambda>start_ts. rret (ts, start_ts)))"

text \<open>A key beyond the table is replaced by a random one; a key equal to its size is not.\<close>

definition ycsb_fix_key :: "msg_cfg \<Rightarrow> ycsb_request \<Rightarrow> ycsb_request" where
  "ycsb_fix_key C r =
    (if req_key r > g_synth_table_size C then
       if req_key r \<ge> g_synth_table_size C then r\<lparr>req_key := myrand_next C mod g_synth_table_size C\<rparr> else r
     else r)"

definition ycsb_query_request_val :: "msg_cfg \<Rightarrow> ycsb_request reader" where
  "ycsb_query_request_val C = rbind ycsb_request_val (\<lambda>r. let r' = ycsb_fix_key C r in
     rassert (req_key r' < g_synth_table_size C) (rret r'))"

definition ycsb_query_val :: "msg_cfg \<Rightarrow> ycsb_request list reader" where
  "ycsb_query_val C = rbind u64_val (\<lambda>size. rassert (unat size \<le> g_req_per_query C) (read_n (unat size) (ycsb_query_request_val C)))"

definition TPCC_PAYMENT :: "64 word" where "TPCC_PAYMENT = 1"
definition TPCC_NEW_ORDER :: "64 word" where "TPCC_NEW_ORDER = 2"

definition tpcc_query_size :: "tpcc_fields \<Rightarrow> nat" where
  "tpcc_query_size t = 8 + 8 + 8 * 3 +
    (if tpcc_type t = TPCC_PAYMENT then 8 * 4 + 16 + 1 else 0) +
    (if tpcc_type t = TPCC_NEW_ORDER then 8 * 2 + 2 + 24 * length (tpcc_items t) + 8 else 0)"

definition tpcc_query_fields :: "tpcc_fields \<Rightarrow> byte list list" where
  "tpcc_query_fields t =
    [u64_bytes (tpcc_type t), u64_bytes (tpcc_state t), u64_bytes (w_id t), u64_bytes (d_id t), u64_bytes (c_id t)] @
    (if tpcc_type t = TPCC_PAYMENT then
       [u64_bytes (d_w_id t), u64_bytes (c_w_id t), u64_bytes (c_d_id t), c_last t, u64_bytes (h_amount t), bool_bytes (by_last_name t)]
     else []) @
    (if tpcc_type t = TPCC_NEW_ORDER then
       array_bytes Item_no_bytes (tpcc_items t) @ [bool_bytes (rbk t), bool_bytes (remote t), u64_bytes (ol_cnt t), u64_bytes (o_entry_d t)]
     else [])"

definition tpcc_query_val :: "tpcc_fields reader" where
  "tpcc_query_val =
    rbind u64_val (\<lambda>ty. rassert (ty = TPCC_PAYMENT \<or> ty = TPCC_NEW_ORDER)
    (rbind u64_val (\<lambda>st. rbind u64_val (\<lambda>w. rbind u64_val (\<lambda>d. rbind u64_val (\<lambda>c.
     let t0 = empty_tpcc\<lparr>tpcc_type := ty, tpcc_state := st, w_id := w, d_id := d, c_id := c\<rparr> in
     rbind (if ty = TPCC_PAYMENT then
              rbind u64_val (\<lambda>dw. rbind u64_val (\<lambda>cw. rbind u64_val (\<lambda>cd. rbind (raw_val 16) (\<lambda>l. rbind u64_val (\<lambda>h. rbind bool_val (\<lambda>bl.
              rret (t0\<lparr>d_w_id := dw, c_w_id := cw, c_d_id := cd, c_last := l, h_amount := h, by_last_name := bl\<rparr>)))))))
            else rret t0) (\<lambda>t1.
     if ty = TPCC_NEW_ORDER then
       rbind (array_val Item_no_val) (\<lambda>is. rbind bool_val (\<lambda>rb. rbind bool_val (\<lambda>rem. rbind u64_val (\<lambda>ol. rbind u64_val (\<lambda>oe.
       rret (t1\<lparr>tpcc_items := is, rbk := rb, remote := rem, ol_cnt := ol, o_entry_d := oe\<rparr>))))))
     else rret t1)))))))"

text \<open>Which key a PPS query carries: the types are those of \<open>PPSTxnType\<close>.\<close>

definition sends_part_key :: "64 word \<Rightarrow> bool" where
  "sends_part_key ty \<longleftrightarrow> ty \<in> {1, 4, 5, 6, 8}"

definition sends_product_key :: "64 word \<Rightarrow> bool" where
  "sends_product_key ty \<longleftrightarrow> ty \<in> {3, 7}"

definition sends_supplier_key :: "64 word \<Rightarrow> bool" where
  "sends_supplier_key ty \<longleftrightarrow> ty = 2"

definition pps_query_size :: "pps_fields \<Rightarrow> nat" where
  "pps_query_size f = 8 + 8 + 8 + 8 + 8 * length (part_keys f)"

definition pps_query_fields :: "pps_fields \<Rightarrow> byte list list" where
  "pps_query_fields f = [u64_bytes (pps_type f), u64_bytes (pps_state f)] @
    (if sends_part_key (pps_type f) then [u64_bytes (part_key f)] else []) @
    (if sends_product_key (pps_type f) then [u64_bytes (product_key f)] else []) @
    (if sends_supplier_key (pps_type f) then [u64_bytes (supplier_key f)] else []) @
    array_bytes u64_bytes (part_keys f)"

definition pps_query_val :: "pps_fields reader" where
  "pps_query_val =
    rbind u64_val (\<lambda>ty. rbind u64_val (\<lambda>st.
    rbind (if sends_part_key ty then u64_val else rret 0) (\<lambda>pa.
    rbind (if sends_product_key ty then u64_val else rret 0) (\<lambda>pr.
    rbind (if sends_supplier_key ty then u64_val else rret 0) (\<lambda>su.
    rbind (array_val u64_val) (\<lambda>ks.
    rret \<lparr>pps_type = ty, pps_state = st, part_key = pa, product_key = pr, supplier_key = su, part_keys = ks, pps_recon = False\<rparr>))))))"

fun query_data_size :: "query_data \<Rightarrow> nat" where
  "query_data_size (YCSBData reqs) = 8 + 24 * length reqs"
| "query_data_size (TPCCData t) = tpcc_query_size t"
| "query_data_size (PPSData f) = pps_query_size f"
| "query_data_size (DAData f) = da_size"

fun query_data_fields :: "query_data \<Rightarrow> byte list list" where
  "query_data_fields (YCSBData reqs) = array_bytes ycsb_request_bytes reqs"
| "query_data_fields (TPCCData t) = tpcc_query_fields t"
| "query_data_fields (PPSData f) = pps_query_fields f"
| "query_data_fields (DAData f) = da_fields_bytes f"

definition query_data_val :: "msg_cfg \<Rightarrow> query_data reader" where
  "query_data_val C = (case cfg_workload C of
     YCSB \<Rightarrow> rbind (ycsb_query_val C) (\<lambda>d. rret (YCSBData d))
   | TPCC \<Rightarrow> rbind tpcc_query_val (\<lambda>d. rret (TPCCData d))
   | PPS \<Rightarrow> rbind pps_query_val (\<lambda>d. rret (PPSData d))
   | DA \<Rightarrow> rbind da_fields_val (\<lambda>d. rret (DAData d)))"

section \<open>The other classes\<close>

definition finish_size :: "msg_cfg \<Rightarrow> nat" where
  "finish_size C = mget_size C + 8 + 4 + 1 + (if sends_commit_ts C then 8 else 0)"

definition finish_fields :: "msg_cfg \<Rightarrow> 64 word \<Rightarrow> RC \<Rightarrow> bool \<Rightarrow> 64 word \<Rightarrow> byte list list" where
  "finish_fields C pid rc ro cts = [u64_bytes pid, enum_bytes rcs rc, bool_bytes ro] @ (if sends_commit_ts C then [u64_bytes cts] else [])"

definition finish_val :: "msg_cfg \<Rightarrow> msg_body reader" where
  "finish_val C = rbind u64_val (\<lambda>pid. rbind (enum_val rcs) (\<lambda>rc. rbind bool_val (\<lambda>ro.
     rbind (if sends_commit_ts C then u64_val else rret 0) (\<lambda>cts. rret (FinishMessage pid rc ro cts)))))"

definition ack_size :: "msg_cfg \<Rightarrow> 64 word list \<Rightarrow> nat" where
  "ack_size C keys = mget_size C + 4 + (if sends_bounds C then 8 * 2 else 0) + (if sends_max_tid C then 8 else 0) +
     (if sends_part_keys C then 8 + 8 * length keys else 0)"

definition ack_fields :: "msg_cfg \<Rightarrow> RC \<Rightarrow> 64 word \<Rightarrow> 64 word \<Rightarrow> 64 word \<Rightarrow> 64 word list \<Rightarrow> byte list list" where
  "ack_fields C rc lower upper max_tid keys = [enum_bytes rcs rc] @ (if sends_bounds C then [u64_bytes lower, u64_bytes upper] else []) @
     (if sends_max_tid C then [u64_bytes max_tid] else []) @ (if sends_part_keys C then array_bytes u64_bytes keys else [])"

definition ack_val :: "msg_cfg \<Rightarrow> msg_body reader" where
  "ack_val C = rbind (enum_val rcs) (\<lambda>rc.
     rbind (if sends_bounds C then u64_val else rret 0) (\<lambda>lower. rbind (if sends_bounds C then u64_val else rret 0) (\<lambda>upper.
     rbind (if sends_max_tid C then u64_val else rret 0) (\<lambda>max_tid. rbind (if sends_part_keys C then array_val u64_val else rret []) (\<lambda>keys.
     rret (AckMessage rc lower upper max_tid keys))))))"

definition query_response_size :: "msg_cfg \<Rightarrow> nat" where
  "query_response_size C = mget_size C + 4 + (if tictoc C then 8 else 0)"

definition query_response_fields :: "msg_cfg \<Rightarrow> RC \<Rightarrow> 64 word \<Rightarrow> byte list list" where
  "query_response_fields C rc cts = [enum_bytes rcs rc] @ (if tictoc C then [u64_bytes cts] else [])"

definition query_response_val :: "msg_cfg \<Rightarrow> msg_body reader" where
  "query_response_val C = rbind (enum_val rcs) (\<lambda>rc. rbind (if tictoc C then u64_val else rret 0) (\<lambda>cts. rret (QueryResponseMessage rc cts)))"

definition prepare_size :: "msg_cfg \<Rightarrow> nat" where
  "prepare_size C = mget_size C + (if tictoc C then 8 else 0)"

definition prepare_fields :: "msg_cfg \<Rightarrow> 64 word \<Rightarrow> byte list list" where
  "prepare_fields C cts = (if tictoc C then [u64_bytes cts] else [])"

definition prepare_val :: "msg_cfg \<Rightarrow> msg_body reader" where
  "prepare_val C = rbind (if tictoc C then u64_val else rret 0) (\<lambda>cts. rret (PrepareMessage cts))"

definition forward_size :: "msg_cfg \<Rightarrow> nat" where
  "forward_size C = mget_size C + 4 + (if cfg_workload C = TPCC then 8 else 0)"

definition forward_fields :: "msg_cfg \<Rightarrow> RC \<Rightarrow> 64 word \<Rightarrow> byte list list" where
  "forward_fields C rc o_id = [enum_bytes rcs rc] @ (if cfg_workload C = TPCC then [u64_bytes o_id] else [])"

definition forward_val :: "msg_cfg \<Rightarrow> msg_body reader" where
  "forward_val C = rbind (enum_val rcs) (\<lambda>rc. rbind (if cfg_workload C = TPCC then u64_val else rret 0) (\<lambda>o_id. rret (ForwardMessage rc o_id)))"

text \<open>
  A migration message copies its rows and then, as they lie in memory, the \<open>std::string\<close> objects of
  \<open>row_data\<close>, 32 bytes each; the size counts \<open>MAX_TUPLE_SIZE\<close>, 512 bytes, for each row, and the reader
  takes that many, up to the first 0. The reader takes \<open>g_part_split_cnt\<close> entries of \<open>mig_order\<close>.
\<close>

definition cstring_val :: "nat \<Rightarrow> byte list reader" where
  "cstring_val n = rbind (raw_val n) (\<lambda>s. if 0 \<in> set s then rret (takeWhile (\<lambda>c. c \<noteq> 0) s) else (\<lambda>_ _. Inl Out_of_bounds))"

definition migration_size :: "msg_cfg \<Rightarrow> migration_fields \<Rightarrow> nat" where
  "migration_size C f = mget_size C + 8 * 8 + 2 + 8 * length (mig_order f) +
     (if cfg_workload C = YCSB \<and> isdata f then sizeof_row C * length (mig_data f) + 512 * length (mig_data f)
      else if cfg_workload C = TPCC \<and> isdata f then g_tuplesize C * length (mig_data f) else 0)"

definition migration_bytes :: "migration_fields \<Rightarrow> byte list list" where
  "migration_bytes f =
    [u64_bytes (node_id_src f), u64_bytes (node_id_des f), u64_bytes (mig_part_id f), u64_bytes (mig_minipart_id f),
     u64_bytes (key_start f), u64_bytes (key_end f), u64_bytes (mig_ord f), u64_bytes (data_size f),
     bool_bytes (isdata f), bool_bytes (islast f)] @ map u64_bytes (mig_order f) @
    (if isdata f then mig_data f @ mig_row_data f else [])"

definition migration_val :: "msg_cfg \<Rightarrow> msg_body reader" where
  "migration_val C =
    rbind u64_val (\<lambda>src. rbind u64_val (\<lambda>des. rbind u64_val (\<lambda>part. rbind u64_val (\<lambda>mini. rbind u64_val (\<lambda>ks. rbind u64_val (\<lambda>ke.
    rbind u64_val (\<lambda>ord. rbind u64_val (\<lambda>n. rbind bool_val (\<lambda>dat. rbind bool_val (\<lambda>las.
    rbind (read_n (g_part_split_cnt C) u64_val) (\<lambda>mo.
    rbind (if dat then read_n (unat n) (raw_val (sizeof_row C)) else rret []) (\<lambda>rows.
    rbind (if dat \<and> cfg_workload C = YCSB then read_n (unat n) (cstring_val 512) else rret []) (\<lambda>strs.
    rret (MigrationMessage \<lparr>node_id_src = src, node_id_des = des, mig_part_id = part, mig_minipart_id = mini, key_start = ks, key_end = ke,
      mig_ord = ord, data_size = n, isdata = dat, islast = las, mig_order = mo, mig_data = rows, mig_row_data = strs\<rparr>))))))))))))))"

section \<open>Whole messages\<close>

fun get_size :: "msg_cfg \<Rightarrow> msg_body \<Rightarrow> nat" where
  "get_size C InitDoneMessage = mget_size C"
| "get_size C (FinishMessage pid rc ro cts) = finish_size C"
| "get_size C (LogMessage r) = mget_size C"
| "get_size C LogRspMessage = mget_size C"
| "get_size C LogFlushedMessage = sizeof_log_flushed C"
| "get_size C (QueryResponseMessage rc cts) = query_response_size C"
| "get_size C (AckMessage rc lower upper max_tid keys) = ack_size C keys"
| "get_size C (PrepareMessage cts) = prepare_size C"
| "get_size C (ForwardMessage rc o_id) = forward_size C"
| "get_size C DoneMessage = mget_size C"
| "get_size C (ClientResponseMessage startts) = mget_size C + 8"
| "get_size C (ClientQueryMessage startts parts d) = client_query_size C parts + client_data_size C d"
| "get_size C (QueryMessage ts start_ts d) = query_size C + query_data_size d"
| "get_size C (SyncMessage part key) = mget_size C + 2 * 8"
| "get_size C (AckSyncMessage part key) = mget_size C + 2 * 8"
| "get_size C (MigrationMessage f) = migration_size C f"
| "get_size C (SetPartMapMessage part node status) = mget_size C + 3 * 8"
| "get_size C (SetMiniPartMapMessage part mini node status) = mget_size C + 4 * 8"

text \<open>The assertions before the copies, and the classes that compare the position with the size at the end.\<close>

fun checks_before :: "msg_cfg \<Rightarrow> msg_body \<Rightarrow> bool" where
  "checks_before C (ClientQueryMessage startts parts (YCSBData reqs)) = list_all (\<lambda>r. req_key r < g_synth_table_size C) reqs"
| "checks_before C (QueryMessage ts start_ts d) = (sends_ts C \<longrightarrow> ts \<noteq> 0)"
| "checks_before C body = True"

fun checks_size_to :: "msg_body \<Rightarrow> bool" where
  "checks_size_to InitDoneMessage = False"
| "checks_size_to LogRspMessage = False"
| "checks_size_to LogFlushedMessage = False"
| "checks_size_to (QueryMessage ts start_ts (DAData f)) = False"
| "checks_size_to (SyncMessage part key) = False"
| "checks_size_to (AckSyncMessage part key) = False"
| "checks_size_to (MigrationMessage f) = False"
| "checks_size_to (SetPartMapMessage part node status) = False"
| "checks_size_to (SetMiniPartMapMessage part mini node status) = False"
| "checks_size_to body = True"

fun body_fields :: "msg_cfg \<Rightarrow> msg_body \<Rightarrow> byte list list" where
  "body_fields C (FinishMessage pid rc ro cts) = finish_fields C pid rc ro cts"
| "body_fields C (LogMessage r) = [r]"
| "body_fields C (QueryResponseMessage rc cts) = query_response_fields C rc cts"
| "body_fields C (AckMessage rc lower upper max_tid keys) = ack_fields C rc lower upper max_tid keys"
| "body_fields C (PrepareMessage cts) = prepare_fields C cts"
| "body_fields C (ForwardMessage rc o_id) = forward_fields C rc o_id"
| "body_fields C (ClientResponseMessage startts) = [u64_bytes startts]"
| "body_fields C (ClientQueryMessage startts parts d) = client_query_fields startts parts @ client_data_fields C d"
| "body_fields C (QueryMessage ts start_ts d) = query_fields C ts start_ts @ query_data_fields d"
| "body_fields C (SyncMessage part key) = [u64_bytes part, u64_bytes key]"
| "body_fields C (AckSyncMessage part key) = [u64_bytes part, u64_bytes key]"
| "body_fields C (MigrationMessage f) = migration_bytes f"
| "body_fields C (SetPartMapMessage part node status) = [u64_bytes part, u64_bytes node, u64_bytes status]"
| "body_fields C (SetMiniPartMapMessage part mini node status) = [u64_bytes part, u64_bytes mini, u64_bytes node, u64_bytes status]"
| "body_fields C body = []"

definition copy_to_buf :: "msg_cfg \<Rightarrow> 64 word \<Rightarrow> nat \<Rightarrow> Message \<Rightarrow> buf \<Rightarrow> (Message \<times> buf) result" where
  "copy_to_buf C now q m b =
    (if m_body m = LogFlushedMessage then Inr (m, b)
     else
       let (m1, b1) = mcopy_to_buf C now q m b in
       bind_result (assert_that (checks_before C (m_body m))) (\<lambda>_.
       let (b2, ptr) = copy_all (body_fields C (m_body m)) (b1, q + mget_size C) in
       bind_result (assert_that (checks_size_to (m_body m) \<longrightarrow> ptr = q + get_size C (m_body m))) (\<lambda>_. Inr (m1, b2))))"

text \<open>What \<open>copy_from_buf\<close> of each class reads behind the header; \<open>q\<close> is where the message begins.\<close>

fun body_val :: "msg_cfg \<Rightarrow> nat \<Rightarrow> msg_body \<Rightarrow> msg_body reader" where
  "body_val C q (FinishMessage _ _ _ _) = finish_val C"
| "body_val C q (LogMessage _) = rbind (raw_val (sizeof_log_record C)) (\<lambda>r. rret (LogMessage r))"
| "body_val C q (QueryResponseMessage _ _) = query_response_val C"
| "body_val C q (AckMessage _ _ _ _ _) = ack_val C"
| "body_val C q (PrepareMessage _) = prepare_val C"
| "body_val C q (ForwardMessage _ _) = forward_val C"
| "body_val C q (ClientResponseMessage _) = rbind u64_val (\<lambda>s. rret (ClientResponseMessage s))"
| "body_val C q (ClientQueryMessage _ _ _) =
    rbind u64_val (\<lambda>s. rbind (array_val u64_val) (\<lambda>parts.
    rseek (q + client_query_size C parts) (rbind (client_data_val C) (\<lambda>d. rret (ClientQueryMessage s parts d)))))"
| "body_val C q (QueryMessage _ _ _) =
    rbind (query_val C) (\<lambda>(ts, start_ts).
    rseek (q + query_size C) (rbind (query_data_val C) (\<lambda>d. rret (QueryMessage ts start_ts d))))"
| "body_val C q (SyncMessage _ _) = rbind u64_val (\<lambda>a. rbind u64_val (\<lambda>b. rret (SyncMessage a b)))"
| "body_val C q (AckSyncMessage _ _) = rbind u64_val (\<lambda>a. rbind u64_val (\<lambda>b. rret (AckSyncMessage a b)))"
| "body_val C q (MigrationMessage _) = migration_val C"
| "body_val C q (SetPartMapMessage _ _ _) = rbind u64_val (\<lambda>a. rbind u64_val (\<lambda>b. rbind u64_val (\<lambda>c. rret (SetPartMapMessage a b c))))"
| "body_val C q (SetMiniPartMapMessage _ _ _ _) =
    rbind u64_val (\<lambda>a. rbind u64_val (\<lambda>b. rbind u64_val (\<lambda>c. rbind u64_val (\<lambda>d. rret (SetMiniPartMapMessage a b c d)))))"
| "body_val C q body = rret body"

fun checks_size_from :: "msg_body \<Rightarrow> bool" where
  "checks_size_from (QueryMessage ts start_ts (DAData f)) = True"
| "checks_size_from body = checks_size_to body"

definition copy_from_buf :: "msg_cfg \<Rightarrow> 64 word \<Rightarrow> nat \<Rightarrow> Message \<Rightarrow> buf \<Rightarrow> Message result" where
  "copy_from_buf C now q m b =
    (if m_body m = LogFlushedMessage then Inr m
     else
       bind_result (mcopy_from_buf C now m b q) (\<lambda>(m1, _).
       bind_result (body_val C q (m_body m) b (q + mget_size C)) (\<lambda>(body, ptr).
       bind_result (assert_that (checks_size_from body \<longrightarrow> ptr = q + get_size C body)) (\<lambda>_. Inr (m1\<lparr>m_body := body\<rparr>)))))"

definition create_message :: "msg_cfg \<Rightarrow> 64 word \<Rightarrow> nat \<Rightarrow> buf \<Rightarrow> Message result" where
  "create_message C now q b =
    bind_result (enum_val rem_req_types b q) (\<lambda>(ty, _).
    bind_result (new_message C ty) (\<lambda>m. copy_from_buf C now q m b))"

end
