(* ===== verification/MessageWire.thy ===== *)
theory MessageWire
imports Message
begin

text \<open>
  What arrives is what was sent: the size of every class is the number of bytes it copies, nothing
  else of the buffer changes, and \<open>create_message\<close> gives the message back, up to the fields that are
  not on the wire. Two classes do not fulfil this, and the theory shows how.
\<close>

section \<open>Admissible messages\<close>

text \<open>The requests that pass the receiver's assertions.\<close>

fun client_data_ok :: "msg_cfg \<Rightarrow> query_data \<Rightarrow> bool" where
  "client_data_ok C (YCSBData reqs) \<longleftrightarrow> cfg_workload C = YCSB \<and> length reqs < 2 ^ 64 \<and> list_all (\<lambda>r. req_key r < g_synth_table_size C) reqs"
| "client_data_ok C (TPCCData t) \<longleftrightarrow> cfg_workload C = TPCC \<and> length (c_last t) = 16 \<and> length (tpcc_items t) < 2 ^ 64"
| "client_data_ok C (PPSData f) \<longleftrightarrow> cfg_workload C = PPS \<and> length (part_keys f) < 2 ^ 64"
| "client_data_ok C (DAData f) \<longleftrightarrow> cfg_workload C = DA"

fun query_data_ok :: "msg_cfg \<Rightarrow> query_data \<Rightarrow> bool" where
  "query_data_ok C (YCSBData reqs) \<longleftrightarrow> cfg_workload C = YCSB \<and> length reqs < 2 ^ 64 \<and> length reqs \<le> g_req_per_query C \<and>
     list_all (\<lambda>r. req_key r < g_synth_table_size C) reqs"
| "query_data_ok C (TPCCData t) \<longleftrightarrow> cfg_workload C = TPCC \<and> (tpcc_type t = TPCC_PAYMENT \<or> tpcc_type t = TPCC_NEW_ORDER) \<and>
     length (c_last t) = 16 \<and> length (tpcc_items t) < 2 ^ 64"
| "query_data_ok C (PPSData f) \<longleftrightarrow> cfg_workload C = PPS \<and>
     (sends_part_key (pps_type f) \<or> sends_product_key (pps_type f) \<or> sends_supplier_key (pps_type f)) \<and> length (part_keys f) < 2 ^ 64"
| "query_data_ok C (DAData f) \<longleftrightarrow> cfg_workload C = DA"

fun body_ok :: "msg_cfg \<Rightarrow> msg_body \<Rightarrow> bool" where
  "body_ok C (LogMessage r) = False"
| "body_ok C LogFlushedMessage = False"
| "body_ok C (AckMessage rc lower upper max_tid keys) \<longleftrightarrow> length keys < 2 ^ 64"
| "body_ok C (ClientQueryMessage startts parts d) \<longleftrightarrow> length parts < 2 ^ 64 \<and> client_data_ok C d"
| "body_ok C (QueryMessage ts start_ts d) \<longleftrightarrow> (sends_ts C \<longrightarrow> ts \<noteq> 0) \<and> query_data_ok C d"
| "body_ok C (MigrationMessage f) \<longleftrightarrow> \<not> isdata f \<and> length (mig_order f) = g_part_split_cnt C"
| "body_ok C body = True"

text \<open>The name of the class a message is an object of.\<close>

fun msg_class :: "msg_body \<Rightarrow> string" where
  "msg_class InitDoneMessage = ''InitDoneMessage''"
| "msg_class (FinishMessage _ _ _ _) = ''FinishMessage''"
| "msg_class (LogMessage _) = ''LogMessage''"
| "msg_class LogRspMessage = ''LogRspMessage''"
| "msg_class LogFlushedMessage = ''LogFlushedMessage''"
| "msg_class (QueryResponseMessage _ _) = ''QueryResponseMessage''"
| "msg_class (AckMessage _ _ _ _ _) = ''AckMessage''"
| "msg_class (PrepareMessage _) = ''PrepareMessage''"
| "msg_class (ForwardMessage _ _) = ''ForwardMessage''"
| "msg_class DoneMessage = ''DoneMessage''"
| "msg_class (ClientResponseMessage _) = ''ClientResponseMessage''"
| "msg_class (ClientQueryMessage _ _ _) = ''ClientQueryMessage''"
| "msg_class (QueryMessage _ _ _) = ''QueryMessage''"
| "msg_class (SyncMessage _ _) = ''SyncMessage''"
| "msg_class (AckSyncMessage _ _) = ''AckSyncMessage''"
| "msg_class (MigrationMessage _) = ''MigrationMessage''"
| "msg_class (SetPartMapMessage _ _ _) = ''SetPartMapMessage''"
| "msg_class (SetMiniPartMapMessage _ _ _ _) = ''SetMiniPartMapMessage''"

definition msg_ok :: "msg_cfg \<Rightarrow> Message \<Rightarrow> bool" where
  "msg_ok C m \<longleftrightarrow> body_ok C (m_body m) \<and> map_option msg_class (new_body C (rtype m)) = Some (msg_class (m_body m))"

section \<open>What is on the wire\<close>

fun client_data_sent :: "msg_cfg \<Rightarrow> query_data \<Rightarrow> query_data" where
  "client_data_sent C (TPCCData t) = TPCCData (t\<lparr>tpcc_state := 0\<rparr>)"
| "client_data_sent C (PPSData f) = PPSData (f\<lparr>pps_state := 0, pps_recon := (calvin C \<and> pps_recon f)\<rparr>)"
| "client_data_sent C d = d"

fun query_data_sent :: "query_data \<Rightarrow> query_data" where
  "query_data_sent (TPCCData t) = TPCCData
     (if tpcc_type t = TPCC_PAYMENT
      then t\<lparr>tpcc_items := [], rbk := False, remote := False, ol_cnt := 0, o_entry_d := 0\<rparr>
      else t\<lparr>d_w_id := 0, c_w_id := 0, c_d_id := 0, c_last := replicate 16 0, h_amount := 0, by_last_name := False\<rparr>)"
| "query_data_sent (PPSData f) = PPSData (f\<lparr>part_key := (if sends_part_key (pps_type f) then part_key f else 0),
     product_key := (if sends_product_key (pps_type f) then product_key f else 0),
     supplier_key := (if sends_supplier_key (pps_type f) then supplier_key f else 0), pps_recon := False\<rparr>)"
| "query_data_sent d = d"

fun body_sent :: "msg_cfg \<Rightarrow> msg_body \<Rightarrow> msg_body" where
  "body_sent C (FinishMessage pid rc ro cts) = FinishMessage pid rc ro (if sends_commit_ts C then cts else 0)"
| "body_sent C (QueryResponseMessage rc cts) = QueryResponseMessage rc (if tictoc C then cts else 0)"
| "body_sent C (AckMessage rc lower upper max_tid keys) = AckMessage rc (if sends_bounds C then lower else 0)
     (if sends_bounds C then upper else 0) (if sends_max_tid C then max_tid else 0) (if sends_part_keys C then keys else [])"
| "body_sent C (PrepareMessage cts) = PrepareMessage (if tictoc C then cts else 0)"
| "body_sent C (ForwardMessage rc o_id) = ForwardMessage rc (if cfg_workload C = TPCC then o_id else 0)"
| "body_sent C (ClientQueryMessage startts parts d) = ClientQueryMessage startts parts (client_data_sent C d)"
| "body_sent C (QueryMessage ts start_ts d) = QueryMessage (if sends_ts C then ts else 0) (if sends_start_ts C then start_ts else 0) (query_data_sent d)"
| "body_sent C (MigrationMessage f) = MigrationMessage (f\<lparr>mig_data := [], mig_row_data := []\<rparr>)"
| "body_sent C body = body"

definition msg_sent :: "msg_cfg \<Rightarrow> Message \<Rightarrow> Message" where
  "msg_sent C m = m\<lparr>m_batch_id := (if calvin C then m_batch_id m else UINT64_MAX), return_node_id := g_node_id C,
     wq_time := 0, ntwk_time := 0, m_body := body_sent C (m_body m)\<rparr>"


lemma array_length [simp]:
  "length (concat (array_bytes u64_bytes xs)) = 8 + 8 * length xs"
  "length (concat (array_bytes ycsb_request_bytes rs)) = 8 + 24 * length rs"
  "length (concat (array_bytes Item_no_bytes is)) = 8 + 24 * length is"
  by (simp_all add: array_bytes_def length_concat o_def sum_list_triv)

lemma concat_map_length [simp]:
  "length (concat (map u64_bytes xs)) = 8 * length xs"
  "length (concat (map ycsb_request_bytes rs)) = 24 * length rs"
  "length (concat (map Item_no_bytes is)) = 24 * length is"
  by (simp_all add: length_concat o_def sum_list_triv)

lemmas size_defs = client_query_size_def client_query_fields_def ycsb_client_size_def tpcc_client_size_def tpcc_client_fields_def
  pps_client_size_def pps_client_fields_def da_fields_bytes_def da_size_def query_size_def query_fields_def
  tpcc_query_size_def tpcc_query_fields_def pps_query_size_def pps_query_fields_def finish_size_def finish_fields_def
  ack_size_def ack_fields_def query_response_size_def query_response_fields_def prepare_size_def prepare_fields_def
  forward_size_def forward_fields_def migration_size_def migration_bytes_def

lemma one_pps_key:
  "sends_part_key ty \<Longrightarrow> \<not> sends_product_key ty" "sends_part_key ty \<Longrightarrow> \<not> sends_supplier_key ty"
  "sends_product_key ty \<Longrightarrow> \<not> sends_supplier_key ty"
  by (auto simp: sends_part_key_def sends_product_key_def sends_supplier_key_def)

lemma client_data_length: "client_data_ok C d \<Longrightarrow> length (concat (client_data_fields C d)) = client_data_size C d"
  by (cases d) (auto simp: size_defs)

lemma query_data_length: "query_data_ok C d \<Longrightarrow> length (concat (query_data_fields d)) = query_data_size d"
  by (cases d) (auto simp: size_defs TPCC_PAYMENT_def TPCC_NEW_ORDER_def dest: one_pps_key)

lemma body_length: "body_ok C body \<Longrightarrow> get_size C body = mget_size C + length (concat (body_fields C body))"
proof (cases body)
  case (ClientQueryMessage startts parts d)
  assume "body_ok C body"
  with ClientQueryMessage show ?thesis using client_data_length [of C d] by (simp add: client_query_size_def client_query_fields_def)
next
  case (QueryMessage ts start_ts d)
  assume "body_ok C body"
  with QueryMessage show ?thesis using query_data_length [of C d] by (simp add: query_size_def query_fields_def)
qed (auto simp: size_defs)

lemma header_length: "length (concat (header_fields C m)) = mget_size C"
  by (simp add: header_fields_def mget_size_def)

section \<open>Reading back\<close>

lemma rbind_if: "rbind (if c then r else s) f = (if c then rbind r f else rbind s f)"
  by simp

lemma rbind_rret [simp]: "rbind (rret x) f = f x" "rbind (\<lambda>b p. Inr (x, p)) f = f x"
  by (intro ext, simp add: rbind_def rret_def)+

lemma rbind_assoc: "rbind (rbind r f) g = rbind r (\<lambda>x. rbind (f x) g)"
proof (intro ext)
  fix b p
  show "rbind (rbind r f) g b p = rbind r (\<lambda>x. rbind (f x) g) b p"
    by (cases "r b p") (auto simp: rbind_def)
qed

lemma rbind_rassert: "rbind (rassert c r) f = rassert c (rbind r f)"
  by (intro ext) (simp add: rbind_def rassert_def)

interpretation creq: codec "\<lambda>r. req_key r < g_synth_table_size C" ycsb_request_bytes "ycsb_client_request_val C" for C
  by unfold_locales (simp add: ycsb_client_request_val_def req.rbind_dec rassert_def rret_def)

interpretation qreq: codec "\<lambda>r. req_key r < g_synth_table_size C" ycsb_request_bytes "ycsb_query_request_val C" for C
proof
  fix r :: ycsb_request and b p
  assume k: "req_key r < g_synth_table_size C" and h: "holds b p (ycsb_request_bytes r)"
  then have "ycsb_fix_key C r = r" by (simp add: ycsb_fix_key_def)
  with k h show "ycsb_query_request_val C b p = Inr (r, p + length (ycsb_request_bytes r))"
    by (simp add: ycsb_query_request_val_def req.rbind_dec rassert_def rret_def)
qed

lemma rbind_u64_array:
  "holds b p (concat (array_bytes u64_bytes xs)) \<Longrightarrow> length xs < 2 ^ 64 \<Longrightarrow>
    rbind (array_val u64_val) f b p = f xs b (p + (8 + 8 * length xs))"
  using u64.rbind_array [where xs = xs and b = b and p = p and f = f] by (simp add: ac_simps)

lemma rbind_item_array:
  "holds b p (concat (array_bytes Item_no_bytes xs)) \<Longrightarrow> length xs < 2 ^ 64 \<Longrightarrow>
    rbind (array_val Item_no_val) f b p = f xs b (p + (8 + 24 * length xs))"
  using item.rbind_array [where xs = xs and b = b and p = p and f = f] by (simp add: ac_simps)

lemmas wire_simps = read_simps rbind_u64_array rbind_item_array rret_def rassert_def rseek_def rbind_if rbind_assoc rbind_rassert

lemma ycsb_client_read:
  assumes "client_data_ok C (YCSBData reqs)" "holds b p (concat (array_bytes ycsb_request_bytes reqs))"
  shows "rbind (ycsb_client_val C) f b p = f reqs b (p + ycsb_client_size reqs)"
  using assms creq.rbind_array [where xs = reqs and b = b and p = p and f = f and C = C]
  by (simp add: ycsb_client_val_def ycsb_client_size_def list_all_iff ac_simps)

lemma ycsb_query_read:
  assumes "query_data_ok C (YCSBData reqs)" "holds b p (concat (array_bytes ycsb_request_bytes reqs))"
  shows "rbind (ycsb_query_val C) f b p = f reqs b (p + (8 + 24 * length reqs))"
proof -
  have h: "holds b p (u64_bytes (of_nat (length reqs)))" "holds b (p + 8) (concat (map ycsb_request_bytes reqs))"
    using assms(2) by (simp_all add: array_bytes_def)
  have n: "unat (of_nat (length reqs) :: 64 word) = length reqs"
    using assms(1) by (simp add: unat_of_nat take_bit_nat_eq_self)
  have "read_n (length reqs) (ycsb_query_request_val C) b (p + 8) = Inr (reqs, p + (8 + 24 * length reqs))"
    using qreq.read_n_dec [OF _ h(2)] assms(1) by (simp add: list_all_iff ac_simps)
  then have "ycsb_query_val C b p = Inr (reqs, p + (8 + 24 * length reqs))"
    using assms(1) h(1) by (simp add: ycsb_query_val_def wire_simps n)
  then show ?thesis by (simp add: rbind_def)
qed

lemma tpcc_client_read:
  assumes "client_data_ok C (TPCCData t)" "holds b p (concat (tpcc_client_fields t))"
  shows "tpcc_client_val b p = Inr (t\<lparr>tpcc_state := 0\<rparr>, p + tpcc_client_size t)"
  using assms unfolding tpcc_client_val_def tpcc_client_fields_def
  by (auto simp: wire_simps tpcc_client_size_def ac_simps)

lemma pps_client_read:
  assumes "client_data_ok C (PPSData f)" "holds b p (concat (pps_client_fields C f))"
  shows "pps_client_val C b p = Inr (f\<lparr>pps_state := 0, pps_recon := (calvin C \<and> pps_recon f)\<rparr>, p + pps_client_size C f)"
  using assms unfolding pps_client_val_def pps_client_fields_def
  by (auto simp: wire_simps pps_client_size_def ac_simps)

lemma da_read:
  assumes "holds b p (concat (da_fields_bytes f))"
  shows "da_fields_val b p = Inr (f, p + da_size)"
  using assms unfolding da_fields_val_def da_fields_bytes_def
  by (auto simp: wire_simps da_size_def ac_simps)

lemma tpcc_query_read:
  assumes "query_data_ok C (TPCCData t)" "holds b p (concat (tpcc_query_fields t))"
  shows "rbind tpcc_query_val (\<lambda>d. rret (TPCCData d)) b p = Inr (query_data_sent (TPCCData t), p + tpcc_query_size t)"
proof (cases "tpcc_type t = TPCC_PAYMENT")
  case True
  then have "tpcc_type t \<noteq> TPCC_NEW_ORDER" by (simp add: TPCC_PAYMENT_def TPCC_NEW_ORDER_def)
  with True assms show ?thesis unfolding tpcc_query_val_def tpcc_query_fields_def
    by (auto simp: wire_simps tpcc_query_size_def empty_tpcc_def ac_simps)
next
  case False
  with assms show ?thesis unfolding tpcc_query_val_def tpcc_query_fields_def
    by (auto simp: wire_simps tpcc_query_size_def empty_tpcc_def ac_simps)
qed

lemma pps_query_read:
  assumes "query_data_ok C (PPSData f)" "holds b p (concat (pps_query_fields f))"
  shows "rbind pps_query_val (\<lambda>d. rret (PPSData d)) b p = Inr (query_data_sent (PPSData f), p + pps_query_size f)"
  using assms one_pps_key [of "pps_type f"] unfolding pps_query_val_def pps_query_fields_def
  by (auto simp: wire_simps pps_query_size_def ac_simps)

lemma client_data_read:
  assumes "client_data_ok C d" "holds b p (concat (client_data_fields C d))"
  shows "client_data_val C b p = Inr (client_data_sent C d, p + client_data_size C d)"
proof (cases d)
  case (YCSBData reqs)
  with assms show ?thesis using ycsb_client_read [of C reqs b p "\<lambda>d. rret (YCSBData d)"] by (simp add: client_data_val_def rret_def)
next
  case (TPCCData t)
  with assms show ?thesis using tpcc_client_read [of C t b p] by (simp add: client_data_val_def rbind_def rret_def)
next
  case (PPSData f)
  with assms show ?thesis using pps_client_read [of C f b p] by (simp add: client_data_val_def rbind_def rret_def)
next
  case (DAData f)
  with assms show ?thesis using da_read [of b p f] by (simp add: client_data_val_def rbind_def rret_def)
qed

lemma query_data_read:
  assumes "query_data_ok C d" "holds b p (concat (query_data_fields d))"
  shows "query_data_val C b p = Inr (query_data_sent d, p + query_data_size d)"
proof (cases d)
  case (YCSBData reqs)
  with assms show ?thesis using ycsb_query_read [of C reqs b p "\<lambda>d. rret (YCSBData d)"] by (simp add: query_data_val_def rret_def)
next
  case (TPCCData t)
  with assms show ?thesis using tpcc_query_read [of C t b p] by (simp add: query_data_val_def)
next
  case (PPSData f)
  with assms show ?thesis using pps_query_read [of C f b p] by (simp add: query_data_val_def)
next
  case (DAData f)
  with assms show ?thesis using da_read [of b p f] by (simp add: query_data_val_def rbind_def rret_def)
qed

lemma rbind_read: "r b p = Inr (x, p') \<Longrightarrow> rbind r f b p = f x b p'"
  by (simp add: rbind_def)

lemma client_query_read:
  assumes "body_ok C (ClientQueryMessage s parts d)" "holds b (q + mget_size C) (concat (body_fields C (ClientQueryMessage s parts d)))"
  shows "body_val C q (ClientQueryMessage s0 parts0 d0) b (q + mget_size C) =
    Inr (body_sent C (ClientQueryMessage s parts d), q + get_size C (ClientQueryMessage s parts d))"
proof -
  have "holds b (q + client_query_size C parts) (concat (client_data_fields C d))"
    using assms(2) by (simp add: client_query_fields_def client_query_size_def ac_simps)
  then have "client_data_val C b (q + client_query_size C parts) = Inr (client_data_sent C d, q + client_query_size C parts + client_data_size C d)"
    using assms(1) by (simp add: client_data_read)
  then show ?thesis using assms by (auto simp: client_query_fields_def wire_simps rbind_read ac_simps)
qed

lemma query_read:
  assumes "body_ok C (QueryMessage ts st d)" "holds b (q + mget_size C) (concat (body_fields C (QueryMessage ts st d)))"
  shows "body_val C q (QueryMessage ts0 st0 d0) b (q + mget_size C) =
    Inr (body_sent C (QueryMessage ts st d), q + get_size C (QueryMessage ts st d))"
proof -
  have "holds b (q + query_size C) (concat (query_data_fields d))"
    using assms(2) by (auto simp: query_fields_def query_size_def ac_simps split: if_splits)
  then have d: "query_data_val C b (q + query_size C) = Inr (query_data_sent d, q + query_size C + query_data_size d)"
    using assms(1) by (simp add: query_data_read)
  have "query_val C b (q + mget_size C) = Inr ((if sends_ts C then ts else 0, if sends_start_ts C then st else 0), q + query_size C)"
    using assms by (auto simp: query_val_def query_fields_def query_size_def wire_simps ac_simps)
  then show ?thesis using d by (simp add: rbind_read rseek_def rret_def ac_simps)
qed

lemma migration_read:
  assumes "body_ok C (MigrationMessage f)" "holds b p (concat (migration_bytes f))"
  shows "migration_val C b p = Inr (body_sent C (MigrationMessage f), p + (8 * 8 + 2 + 8 * length (mig_order f)))"
proof -
  have "holds b (p + 66) (concat (map u64_bytes (mig_order f)))"
    using assms(2) by (auto simp: migration_bytes_def ac_simps)
  then have "read_n (g_part_split_cnt C) u64_val b (p + 66) = Inr (mig_order f, p + 66 + 8 * length (mig_order f))"
    using assms(1) u64.read_n_dec [where xs = "mig_order f" and b = b and p = "p + 66"] by simp
  then show ?thesis using assms unfolding migration_val_def migration_bytes_def
    by (auto simp: wire_simps rbind_read ac_simps)
qed






lemma body_read:
  assumes ok: "body_ok C body" and c: "msg_class body0 = msg_class body" and h: "holds b (q + mget_size C) (concat (body_fields C body))"
  shows "body_val C q body0 b (q + mget_size C) = Inr (body_sent C body, q + get_size C body)"
proof (cases body)
  case (ClientQueryMessage s parts d)
  with c obtain s0 parts0 d0 where "body0 = ClientQueryMessage s0 parts0 d0" by (cases body0) simp_all
  then show ?thesis using client_query_read [of C s parts d b q] ok h ClientQueryMessage by simp
next
  case (QueryMessage ts st d)
  with c obtain ts0 st0 d0 where "body0 = QueryMessage ts0 st0 d0" by (cases body0) simp_all
  then show ?thesis using query_read [of C ts st d b q] ok h QueryMessage by simp
next
  case (MigrationMessage f)
  with c obtain f0 where "body0 = MigrationMessage f0" by (cases body0) simp_all
  then show ?thesis using migration_read [of C f b "q + mget_size C"] ok h MigrationMessage by (simp add: migration_size_def)
qed (use c ok h in \<open>cases body0; auto simp: wire_simps size_defs finish_val_def ack_val_def query_response_val_def
  prepare_val_def forward_val_def ac_simps\<close>)+

section \<open>Whole messages\<close>

definition wire :: "msg_cfg \<Rightarrow> Message \<Rightarrow> byte list" where
  "wire C m = concat (header_fields C m) @ concat (body_fields C (m_body m))"

lemma wire_length: "body_ok C (m_body m) \<Longrightarrow> length (wire C m) = get_size C (m_body m)"
  by (simp add: wire_def header_length body_length)

lemma send_times_simps [simp]:
  "rtype (send_times C now m) = rtype m" "m_body (send_times C now m) = m_body m" "m_batch_id (send_times C now m) = m_batch_id m"
  by (simp_all add: send_times_def)

lemma recv_times_simps [simp]:
  "rtype (recv_times C now m) = rtype m" "m_body (recv_times C now m) = m_body m"
  "recv_times C now m\<lparr>m_body := body\<rparr> = recv_times C now (m\<lparr>m_body := body\<rparr>)"
  "recv_times C now m\<lparr>return_node_id := n\<rparr> = recv_times C now (m\<lparr>return_node_id := n\<rparr>)"
  by (simp_all add: recv_times_def)

lemma msg_ok_send_times [simp]: "msg_ok C (send_times C now m) = msg_ok C m"
  by (simp add: msg_ok_def)

lemma checks_before_ok: "body_ok C body \<Longrightarrow> checks_before C body"
  by (induction C body rule: checks_before.induct) simp_all

lemma copy_to_buf_ok:
  assumes "body_ok C (m_body m)"
  shows "copy_to_buf C now q m b = Inr (send_times C now m, put_bytes q (wire C (send_times C now m)) b)"
proof -
  have "m_body m \<noteq> LogFlushedMessage" using assms by auto
  moreover have "put_bytes (q + mget_size C) bs (put_bytes q (concat (header_fields C m')) b) =
      put_bytes q (concat (header_fields C m') @ bs) b" for bs m'
    by (metis header_length put_bytes_append)
  ultimately show ?thesis using assms
    by (simp add: copy_to_buf_def mcopy_to_buf_def Let_def copy_all_conv checks_before_ok body_length wire_def assert_that_def)
qed

lemma header_read:
  assumes "holds b q (concat (header_fields C m))"
  shows "mcopy_from_buf C now m0 b q = Inr (recv_times C now (m\<lparr>m_batch_id := (if calvin C then m_batch_id m else m_batch_id m0),
    return_node_id := return_node_id m0, wq_time := wq_time m0, ntwk_time := ntwk_time m0, m_body := m_body m0\<rparr>), q + mget_size C)"
  using assms unfolding mcopy_from_buf_def header_fields_def
  by (cases m; cases m0) (auto simp: wire_simps mget_size_def ac_simps)

lemma size_sent: "body_ok C body \<Longrightarrow> get_size C (body_sent C body) = get_size C body"
proof (cases body)
  case (ClientQueryMessage s parts d)
  then show ?thesis by (cases d) (simp_all add: tpcc_client_size_def pps_client_size_def)
next
  case (QueryMessage ts st d)
  assume "body_ok C body"
  with QueryMessage show ?thesis by (cases d) (auto simp: tpcc_query_size_def pps_query_size_def TPCC_PAYMENT_def TPCC_NEW_ORDER_def)
qed (simp_all add: ack_size_def finish_size_def query_response_size_def prepare_size_def forward_size_def migration_size_def)

lemma create_message_read:
  assumes ok: "msg_ok C m" and h: "holds b q (wire C m)"
  shows "create_message C now q b = Inr (recv_times C now (msg_sent C m))"
proof -
  obtain body0 where new: "new_body C (rtype m) = Some body0" and cl: "msg_class body0 = msg_class (m_body m)"
    using ok by (auto simp: msg_ok_def)
  then obtain m0 where m0: "new_message C (rtype m) = Inr m0" and f: "m_body m0 = body0" "m_batch_id m0 = UINT64_MAX"
    "return_node_id m0 = g_node_id C" "wq_time m0 = 0" "ntwk_time m0 = 0"
    by (simp add: new_message_def)
  have body: "body_ok C (m_body m)" using ok by (simp add: msg_ok_def)
  have hh: "holds b q (concat (header_fields C m))" "holds b (q + mget_size C) (concat (body_fields C (m_body m)))"
    using h by (simp_all add: wire_def header_length)
  have "enum_val rem_req_types b q = Inr (rtype m, q + 4)"
    using hh(1) enum.dec_enc [of "rtype m" rem_req_types b q] by (simp add: header_fields_def)
  moreover have "m_body m0 \<noteq> LogFlushedMessage" using f(1) cl body by (cases "m_body m") auto
  ultimately show ?thesis
    using m0 header_read [OF hh(1), of now m0] body_read [OF body cl hh(2)] f size_sent [OF body]
    by (simp add: create_message_def copy_from_buf_def assert_that_def msg_sent_def)
qed

section \<open>Messages with rows\<close>





section \<open>What a receiver can rely on\<close>

text \<open>Whatever the bytes are, a message that is read is of the class of its type and its requests are in range.\<close>

fun client_data_typed :: "msg_cfg \<Rightarrow> query_data \<Rightarrow> bool" where
  "client_data_typed C (YCSBData reqs) \<longleftrightarrow> cfg_workload C = YCSB \<and> list_all (\<lambda>r. req_key r < g_synth_table_size C) reqs"
| "client_data_typed C (TPCCData t) \<longleftrightarrow> cfg_workload C = TPCC \<and> length (c_last t) = 16"
| "client_data_typed C (PPSData f) \<longleftrightarrow> cfg_workload C = PPS"
| "client_data_typed C (DAData f) \<longleftrightarrow> cfg_workload C = DA"

fun query_data_typed :: "msg_cfg \<Rightarrow> query_data \<Rightarrow> bool" where
  "query_data_typed C (YCSBData reqs) \<longleftrightarrow> cfg_workload C = YCSB \<and> length reqs \<le> g_req_per_query C \<and>
     list_all (\<lambda>r. req_key r < g_synth_table_size C) reqs"
| "query_data_typed C (TPCCData t) \<longleftrightarrow> cfg_workload C = TPCC \<and> (tpcc_type t = TPCC_PAYMENT \<or> tpcc_type t = TPCC_NEW_ORDER) \<and> length (c_last t) = 16"
| "query_data_typed C (PPSData f) \<longleftrightarrow> cfg_workload C = PPS"
| "query_data_typed C (DAData f) \<longleftrightarrow> cfg_workload C = DA"

fun body_typed :: "msg_cfg \<Rightarrow> msg_body \<Rightarrow> bool" where
  "body_typed C (ClientQueryMessage s parts d) \<longleftrightarrow> client_data_typed C d"
| "body_typed C (QueryMessage ts start_ts d) \<longleftrightarrow> (sends_ts C \<longrightarrow> ts \<noteq> 0) \<and> query_data_typed C d"
| "body_typed C (MigrationMessage f) \<longleftrightarrow> length (mig_order f) = g_part_split_cnt C"
| "body_typed C body = True"

definition msg_typed :: "msg_cfg \<Rightarrow> Message \<Rightarrow> bool" where
  "msg_typed C m \<longleftrightarrow> map_option msg_class (new_body C (rtype m)) = Some (msg_class (m_body m)) \<and> body_typed C (m_body m)"

lemma rbind_InrE:
  assumes "rbind r f b p = Inr (y, p')" obtains x q where "r b p = Inr (x, q)" "f x b q = Inr (y, p')"
  using assms by (cases "r b p") (auto simp: rbind_def)

lemma rassert_Inr: "rassert c r b p = Inr y \<longleftrightarrow> c \<and> r b p = Inr y"
  by (simp add: rassert_def)

lemma rret_Inr: "rret x b p = Inr (y, q) \<longleftrightarrow> y = x \<and> q = p"
  by (auto simp: rret_def)

lemma read_n_results:
  assumes "\<And>b p x p'. r b p = Inr (x, p') \<Longrightarrow> P x"
  shows "read_n n r b p = Inr (xs, p') \<Longrightarrow> list_all P xs \<and> length xs = n"
proof (induction n arbitrary: p xs p')
  case (Suc n)
  then obtain x q where "r b p = Inr (x, q)" "rbind (read_n n r) (\<lambda>xs. rret (x # xs)) b q = Inr (xs, p')"
    by (auto elim: rbind_InrE)
  then obtain ys q' where "xs = x # ys" "read_n n r b q = Inr (ys, q')" "P x"
    using assms by (auto elim!: rbind_InrE simp: rret_Inr)
  then show ?case using Suc.IH [of q ys q'] by simp
qed (simp add: rret_Inr)

lemma fixed_key: "ycsb_query_request_val C b p = Inr (r, p') \<Longrightarrow> req_key r < g_synth_table_size C"
  by (auto simp: ycsb_query_request_val_def Let_def rassert_Inr rret_Inr elim!: rbind_InrE)

lemma client_key: "ycsb_client_request_val C b p = Inr (r, p') \<Longrightarrow> req_key r < g_synth_table_size C"
  by (auto simp: ycsb_client_request_val_def rassert_Inr rret_Inr elim!: rbind_InrE)

lemma ycsb_client_typed: "ycsb_client_val C b p = Inr (reqs, p') \<Longrightarrow> list_all (\<lambda>r. req_key r < g_synth_table_size C) reqs"
  unfolding ycsb_client_val_def array_val_def
  by (erule rbind_InrE) (metis (no_types, lifting) client_key read_n_results)

lemma ycsb_query_typed:
  "ycsb_query_val C b p = Inr (reqs, p') \<Longrightarrow> length reqs \<le> g_req_per_query C \<and> list_all (\<lambda>r. req_key r < g_synth_table_size C) reqs"
  unfolding ycsb_query_val_def
  by (erule rbind_InrE) (metis (no_types, lifting) fixed_key read_n_results rassert_Inr)

lemma raw_length: "raw_val n b p = Inr (bs, p') \<Longrightarrow> length bs = n"
  by (auto simp: raw_val_def)

lemma tpcc_client_typed: "tpcc_client_val b p = Inr (t, p') \<Longrightarrow> length (c_last t) = 16"
  unfolding tpcc_client_val_def by (auto elim!: rbind_InrE dest: raw_length simp: rret_Inr)

lemma tpcc_query_typed:
  "tpcc_query_val b p = Inr (t, p') \<Longrightarrow> (tpcc_type t = TPCC_PAYMENT \<or> tpcc_type t = TPCC_NEW_ORDER) \<and> length (c_last t) = 16"
  unfolding tpcc_query_val_def Let_def
  by (auto elim!: rbind_InrE dest!: raw_length simp: rret_Inr rassert_Inr empty_tpcc_def split: if_splits)

lemma client_data_val_typed: "client_data_val C b p = Inr (d, p') \<Longrightarrow> client_data_typed C d"
  unfolding client_data_val_def
  by (cases "cfg_workload C") (auto elim!: rbind_InrE dest: ycsb_client_typed tpcc_client_typed simp: rret_Inr)

lemma query_data_val_typed: "query_data_val C b p = Inr (d, p') \<Longrightarrow> query_data_typed C d"
  unfolding query_data_val_def
  by (cases "cfg_workload C") (auto elim!: rbind_InrE dest: ycsb_query_typed tpcc_query_typed simp: rret_Inr)

lemma query_val_typed: "query_val C b p = Inr ((ts, st), p') \<Longrightarrow> sends_ts C \<Longrightarrow> ts \<noteq> 0"
  unfolding query_val_def by (auto elim!: rbind_InrE simp: rret_Inr rassert_Inr)

lemma read_n_length: "read_n n r b p = Inr (xs, p') \<Longrightarrow> length xs = n"
  using read_n_results [where P = "\<lambda>_. True"] by blast

lemma migration_val_typed:
  "migration_val C b p = Inr (body, p') \<Longrightarrow> \<exists>f. body = MigrationMessage f \<and> length (mig_order f) = g_part_split_cnt C"
  unfolding migration_val_def by (elim rbind_InrE) (simp add: rret_Inr read_n_length)

lemma body_val_typed: "body_val C q body0 b p = Inr (body, p') \<Longrightarrow> msg_class body = msg_class body0 \<and> body_typed C body"
proof (cases body0)
  case (ClientQueryMessage s parts d)
  moreover assume "body_val C q body0 b p = Inr (body, p')"
  ultimately show ?thesis using client_data_val_typed by (auto elim!: rbind_InrE simp: rret_Inr rseek_def)
next
  case (QueryMessage ts st d)
  moreover assume "body_val C q body0 b p = Inr (body, p')"
  ultimately show ?thesis using query_data_val_typed query_val_typed by (auto elim!: rbind_InrE simp: rret_Inr rseek_def)
next
  case (MigrationMessage f)
  moreover assume "body_val C q body0 b p = Inr (body, p')"
  ultimately show ?thesis using migration_val_typed [of C b p body p'] by auto
qed (auto elim!: rbind_InrE simp: rret_Inr finish_val_def ack_val_def query_response_val_def prepare_val_def forward_val_def)

lemma header_type: "mcopy_from_buf C now m0 b q = Inr (m, p) \<Longrightarrow> \<exists>p'. enum_val rem_req_types b q = Inr (rtype m, p')"
  unfolding mcopy_from_buf_def by (auto elim!: rbind_InrE simp: rret_Inr)

lemma bind_result_InrE:
  assumes "bind_result r f = Inr y" obtains x where "r = Inr x" "f x = Inr y"
  using assms by (cases r) simp_all

text \<open>A configuration and messages for the examples: the second is a message of the logger, the third carries two rows.\<close>

definition ex_cfg :: msg_cfg where
  "ex_cfg = \<lparr>cfg_alg = ALG_WAIT_DIE, cfg_workload = YCSB, g_node_id = 0, g_node_cnt = 2, g_client_node_cnt = 1, g_repl_cnt = 0,
     g_synth_table_size = 100, g_req_per_query = 10, g_part_split_cnt = 1, g_tuplesize = 0, g_msg_size = 4096, g_msg_time_limit = 50, g_total_node_cnt = 3, sizeof_row = 3, sizeof_log_record = 2,
     sizeof_log_flushed = 120, myrand_next = 0, dbl_of = (\<lambda>n. n), dbl_sub = (\<lambda>a b. a - b)\<rparr>"

definition ex_message :: "RemReqType \<Rightarrow> msg_body \<Rightarrow> Message" where
  "ex_message ty body = \<lparr>rtype = ty, m_txn_id = 6, m_batch_id = UINT64_MAX, return_node_id = 0, wq_time = 0, mq_time = 9, ntwk_time = 0,
     lat_work_queue_time = 1, lat_msg_queue_time = 2, lat_cc_block_time = 3, lat_cc_time = 4, lat_process_time = 5,
     lat_network_time = 6, lat_other_time = 7, m_body = body\<rparr>"

definition ex_query :: Message where
  "ex_query = ex_message RQRY (QueryMessage 5 0 (YCSBData [\<lparr>acctype = RD, req_key = 3, req_value = 0\<rparr>, \<lparr>acctype = WR, req_key = 99, req_value = 1\<rparr>]))"

definition ex_log :: Message where
  "ex_log = ex_message LOG_MSG (LogMessage [1, 2])"



lemma ex_query_ok: "msg_ok ex_cfg ex_query"
  by (simp add: msg_ok_def ex_query_def ex_message_def ex_cfg_def empty_query_def sends_ts_def)


section \<open>Properties\<close>

text \<open>
  Claim C13. An admissible message arrives as it was sent: copying it into a buffer does not fail, and
  \<open>create_message\<close> at that position gives a message with the same header and body up to the fields that
  are not transmitted and the network times, which the receiver computes. Admissible (\<open>msg_ok\<close>) is a
  message of the class of its type that is neither a log message, nor a log-flushed message, nor a
  migration message with rows; whose lists have less than \<open>2 ^ 64\<close> elements; whose query is of the configured
  workload and fulfils the receiver's assertions (keys in the table, at most \<open>g_req_per_query\<close> requests,
  a timestamp where one is sent, a known TPCC or PPS type, a last name of 16 bytes); and, for a
  migration message, with \<open>g_part_split_cnt\<close> entries in its order.
\<close>

theorem message_roundtrip:
  assumes "msg_ok C m"
  shows "\<exists>b'. copy_to_buf C now q m b = Inr (send_times C now m, b') \<and>
    create_message C now' q b' = Inr (recv_times C now' (msg_sent C (send_times C now m)))"
proof -
  have "copy_to_buf C now q m b = Inr (send_times C now m, put_bytes q (wire C (send_times C now m)) b)"
    using assms by (simp add: msg_ok_def copy_to_buf_ok)
  moreover have "create_message C now' q (put_bytes q (wire C (send_times C now m)) b) =
      Inr (recv_times C now' (msg_sent C (send_times C now m)))"
    using assms by (simp add: create_message_read)
  ultimately show ?thesis by blast
qed

theorem message_roundtrip_witness:
  "msg_ok ex_cfg ex_query \<and> (\<exists>b'. copy_to_buf ex_cfg 8 20 ex_query (\<lambda>_. 0) = Inr (send_times ex_cfg 8 ex_query, b') \<and>
    create_message ex_cfg 9 20 b' = Inr (recv_times ex_cfg 9 (msg_sent ex_cfg (send_times ex_cfg 8 ex_query))))"
  using message_roundtrip [OF ex_query_ok, of 8 20 "\<lambda>_. 0" 9] ex_query_ok by simp

text \<open>
  Claim C20. Copying a message with an admissible body (\<open>body_ok\<close>: in particular it is neither a log or log-flushed message
  nor a migration message with rows) writes inside the \<open>get_size\<close> bytes from its position only, and
  fills them: two buffers end up with the same bytes there, whatever they held before.
\<close>

theorem message_size_exact:
  assumes "body_ok C (m_body m)" "copy_to_buf C now q m b = Inr (m1, b1)" "copy_to_buf C now q m c = Inr (m2, c1)"
  shows "(i < q \<or> q + get_size C (m_body m) \<le> i \<longrightarrow> b1 i = b i) \<and> (q \<le> i \<and> i < q + get_size C (m_body m) \<longrightarrow> b1 i = c1 i)"
proof -
  note body = assms(1)
  then have l: "length (wire C (send_times C now m)) = get_size C (m_body m)" using wire_length [of C "send_times C now m"] by simp
  have "b1 = put_bytes q (wire C (send_times C now m)) b" "c1 = put_bytes q (wire C (send_times C now m)) c"
    using assms(2,3) copy_to_buf_ok [OF body] by auto
  then show ?thesis using l by (simp add: put_bytes_def)
qed

theorem message_size_exact_witness:
  "\<exists>m1 b1 m2 c1. copy_to_buf ex_cfg 8 20 ex_query (\<lambda>_. 0) = Inr (m1, b1) \<and> copy_to_buf ex_cfg 8 20 ex_query (\<lambda>_. 1) = Inr (m2, c1) \<and>
    b1 19 = 0 \<and> b1 20 = c1 20 \<and> get_size ex_cfg (m_body ex_query) = 140"
proof -
  obtain b1 c1 where "copy_to_buf ex_cfg 8 20 ex_query (\<lambda>_. 0) = Inr (send_times ex_cfg 8 ex_query, b1)"
    "copy_to_buf ex_cfg 8 20 ex_query (\<lambda>_. 1) = Inr (send_times ex_cfg 8 ex_query, c1)"
    using ex_query_ok by (simp add: msg_ok_def copy_to_buf_ok)
  moreover have "get_size ex_cfg (m_body ex_query) = 140"
    by (simp add: ex_query_def ex_message_def query_size_def mget_size_def sends_ts_def sends_start_ts_def calvin_def ex_cfg_def)
  ultimately show ?thesis
    using message_size_exact [of ex_cfg ex_query 8 20 "\<lambda>_. 0" _ b1 "\<lambda>_. 1" _ c1 19] message_size_exact [of ex_cfg ex_query 8 20 "\<lambda>_. 0" _ b1 "\<lambda>_. 1" _ c1 20]
      ex_query_ok unfolding msg_ok_def by auto
qed

text \<open>
  Claim C19. Whatever the bytes of a buffer are, \<open>create_message\<close> fails or gives a well-typed message: its class is the
  one of its type, the data of a query is of the configured workload, every key of a request is in the
  table, a remote query has at most \<open>g_req_per_query\<close> requests and, where the algorithm sends one, a timestamp.
\<close>

theorem received_message_typed:
  assumes "create_message C now q b = Inr m"
  shows "msg_typed C m"
proof -
  obtain ty p m0 where ty: "enum_val rem_req_types b q = Inr (ty, p)" and m0: "new_message C ty = Inr m0"
    and copy: "copy_from_buf C now q m0 b = Inr m"
    using assms by (auto simp: create_message_def elim!: bind_result_InrE)
  obtain body0 where b0: "new_body C ty = Some body0" "m_body m0 = body0" "rtype m0 = ty"
    using m0 by (auto simp: new_message_def split: option.splits)
  show ?thesis
  proof (cases "body0 = LogFlushedMessage")
    case True
    then show ?thesis using copy b0 by (simp add: copy_from_buf_def msg_typed_def)
  next
    case False
    then obtain m1 p1 body p2 where h: "mcopy_from_buf C now m0 b q = Inr (m1, p1)" and
      v: "body_val C q body0 b (q + mget_size C) = Inr (body, p2)" and m: "m = m1\<lparr>m_body := body\<rparr>"
      using copy b0 by (auto simp: copy_from_buf_def elim!: bind_result_InrE)
    have "rtype m1 = ty" using header_type [OF h] ty by simp
    then show ?thesis using body_val_typed [OF v] m b0 by (simp add: msg_typed_def)
  qed
qed

theorem received_message_typed_witness:
  "\<exists>m. create_message ex_cfg 9 20 (put_bytes 20 (wire ex_cfg ex_query) (\<lambda>_. 0)) = Inr m \<and> msg_typed ex_cfg m"
  using create_message_read [OF ex_query_ok holds_put_bytes] received_message_typed by blast

text \<open>
  A message of the logger cannot be sent: its size does not count the log record, so the assertion
  at the end of \<open>LogMessage::copy_to_buf\<close> fails for every record.
\<close>

theorem log_message_never_sent:
  assumes "m_body m = LogMessage r" "r \<noteq> []"
  shows "copy_to_buf C now q m b = Inl Assert_failed"
  using assms by (simp add: copy_to_buf_def mcopy_to_buf_def Let_def copy_all_conv assert_that_def)

theorem log_message_never_sent_witness: "copy_to_buf ex_cfg 8 20 ex_log (\<lambda>_. 0) = Inl Assert_failed"
  by (rule log_message_never_sent [where r = "[1, 2]"]) (simp_all add: ex_log_def ex_message_def)



end
