(* ===== verification/MsgBatch.thy ===== *)
theory MsgBatch
imports MessageWire
begin

text \<open>
  Batches of messages (\<open>transport/msg_thread.h\<close>, \<open>msg_thread.cpp\<close>): a message thread collects the messages
  for each node in a buffer and hands the buffer to the transport when the next message does not fit
  or its time is over; the receiving node unpacks it by \<open>Message::create_messages\<close>. Every message arrives
  in the order in which it was handed over, in one batch.
\<close>

section \<open>Buffers\<close>

record mbuf =
  buffer :: buf
  starttime :: "64 word"
  ptr :: nat
  cnt :: "64 word"
  wait :: bool

definition mbuf_reset :: "msg_cfg \<Rightarrow> 64 word \<Rightarrow> mbuf \<Rightarrow> mbuf" where
  "mbuf_reset C dest sbuf = sbuf\<lparr>starttime := 0, cnt := 0, wait := False,
     buffer := put_bytes 4 (u32_bytes (ucast (g_node_id C))) (put_bytes 0 (u32_bytes (ucast dest)) (buffer sbuf)), ptr := 4 * 3 + 8\<rparr>"

definition set_send_time :: "64 word \<Rightarrow> mbuf \<Rightarrow> mbuf" where
  "set_send_time ts sbuf = sbuf\<lparr>buffer := put_bytes (4 * 3) (u64_bytes ts) (buffer sbuf)\<rparr>"

definition fits :: "msg_cfg \<Rightarrow> nat \<Rightarrow> mbuf \<Rightarrow> bool" where
  "fits C s sbuf \<longleftrightarrow> ptr sbuf + s \<le> g_msg_size C"

definition ready :: "msg_cfg \<Rightarrow> 64 word \<Rightarrow> mbuf \<Rightarrow> bool" where
  "ready C now sbuf \<longleftrightarrow> cnt sbuf \<noteq> 0 \<and> now - starttime sbuf \<ge> g_msg_time_limit C"

section \<open>The message thread\<close>

text \<open>
  \<open>sent\<close> holds the calls of \<open>Transport::send_msg\<close>, each with the destination and the bytes it copies.
  \<open>clock\<close> is what the successive calls of \<open>get_sys_clock\<close> return, and \<open>clk\<close> counts them; the calls
  that are made for statistics only are left out.
\<close>

record msg_thread =
  bufs :: "mbuf list"
  sent :: "(nat \<times> byte list) list"
  flag :: bool
  clk :: nat

definition send_batch :: "msg_cfg \<Rightarrow> (nat \<Rightarrow> 64 word) \<Rightarrow> nat \<Rightarrow> msg_thread \<Rightarrow> msg_thread" where
  "send_batch C clock dest t =
    (let sbuf = bufs t ! dest;
         sbuf1 = sbuf\<lparr>buffer := put_bytes (4 * 2) (u32_bytes (ucast (cnt sbuf))) (buffer sbuf)\<rparr>;
         sbuf2 = set_send_time (clock (clk t)) sbuf1
     in t\<lparr>bufs := (bufs t)[dest := mbuf_reset C (of_nat dest) sbuf2],
          sent := sent t @ [(dest, get_bytes 0 (ptr sbuf2) (buffer sbuf2))], clk := clk t + 1\<rparr>)"

definition check_and_send :: "msg_cfg \<Rightarrow> (nat \<Rightarrow> 64 word) \<Rightarrow> nat \<Rightarrow> msg_thread \<Rightarrow> msg_thread" where
  "check_and_send C clock dest t =
    (if of_nat dest = g_node_id C then t
     else
       let sbuf = bufs t ! dest;
           t1 = (if cnt sbuf = 0 then t else t\<lparr>clk := clk t + 1\<rparr>)
       in if ready C (clock (clk t)) sbuf then (send_batch C clock dest t1)\<lparr>flag := True\<rparr> else t1)"

definition check_and_send_batches :: "msg_cfg \<Rightarrow> (nat \<Rightarrow> 64 word) \<Rightarrow> msg_thread \<Rightarrow> msg_thread" where
  "check_and_send_batches C clock t = fold (check_and_send C clock) [0..<length (bufs t)] t"

definition thread_init :: "msg_cfg \<Rightarrow> (nat \<Rightarrow> buf) \<Rightarrow> msg_thread" where
  "thread_init C mem =
    (let buffer_cnt = g_total_node_cnt C + (if calvin C then 1 else 0) in
     \<lparr>bufs = map (\<lambda>n. mbuf_reset C (of_nat n) \<lparr>buffer = mem n, starttime = 0, ptr = 0, cnt = 0, wait = False\<rparr>) [0..<buffer_cnt],
      sent = [], flag = False, clk = 0\<rparr>)"

text \<open>
  One turn of the thread with what \<open>msg_queue.dequeue\<close> returns. A message to the own node fails the
  assertion, so that the branch for such messages is not reached.
\<close>

definition buffer_message :: "msg_cfg \<Rightarrow> (nat \<Rightarrow> 64 word) \<Rightarrow> Message \<Rightarrow> nat \<Rightarrow> msg_thread \<Rightarrow> msg_thread result" where
  "buffer_message C clock msg dest t =
    (let sbuf = bufs t ! dest in
     bind_result (copy_to_buf C (clock (clk t)) (ptr sbuf) msg (buffer sbuf)) (\<lambda>(_, b).
       let sbuf1 = sbuf\<lparr>buffer := b, cnt := cnt sbuf + 1, ptr := ptr sbuf + get_size C (m_body msg)\<rparr>;
           t1 = t\<lparr>clk := clk t + 1\<rparr>
       in Inr (if starttime sbuf1 = 0
               then t1\<lparr>bufs := (bufs t)[dest := sbuf1\<lparr>starttime := clock (clk t1)\<rparr>], clk := clk t1 + 1\<rparr>
               else t1\<lparr>bufs := (bufs t)[dest := sbuf1]\<rparr>)))"

definition run :: "msg_cfg \<Rightarrow> (nat \<Rightarrow> 64 word) \<Rightarrow> (Message \<times> nat) option \<Rightarrow> msg_thread \<Rightarrow> msg_thread result" where
  "run C clock dequeued t =
    (case dequeued of
       None \<Rightarrow> Inr (check_and_send_batches C clock t)
     | Some (msg, dest) \<Rightarrow>
         bind_result (assert_that (dest < g_total_node_cnt C)) (\<lambda>_.
         bind_result (assert_that (of_nat dest \<noteq> g_node_id C)) (\<lambda>_.
         let t1 = (if fits C (get_size C (m_body msg)) (bufs t ! dest) then t else send_batch C clock dest t)
         in bind_result (buffer_message C clock msg dest t1) (\<lambda>t2.
            Inr ((check_and_send_batches C clock t2)\<lparr>flag := False\<rparr>)))))"

fun run_all :: "msg_cfg \<Rightarrow> (nat \<Rightarrow> 64 word) \<Rightarrow> (Message \<times> nat) option list \<Rightarrow> msg_thread \<Rightarrow> msg_thread result" where
  "run_all C clock [] t = Inr t"
| "run_all C clock (x # xs) t = bind_result (run C clock x t) (run_all C clock xs)"

section \<open>Unpacking\<close>

definition ISSERVERN :: "msg_cfg \<Rightarrow> 64 word \<Rightarrow> bool" where
  "ISSERVERN C i \<longleftrightarrow> i < g_node_cnt C"

definition ISCLIENTN :: "msg_cfg \<Rightarrow> 64 word \<Rightarrow> bool" where
  "ISCLIENTN C i \<longleftrightarrow> i \<ge> g_node_cnt C \<and> i < g_node_cnt C + g_client_node_cnt C"

definition ISREPLICAN :: "msg_cfg \<Rightarrow> 64 word \<Rightarrow> bool" where
  "ISREPLICAN C i \<longleftrightarrow> i \<ge> g_node_cnt C + g_client_node_cnt C \<and>
     i < g_node_cnt C + g_client_node_cnt C + g_repl_cnt C * g_node_cnt C"

fun unpack :: "msg_cfg \<Rightarrow> 64 word \<Rightarrow> 64 word \<Rightarrow> nat \<Rightarrow> nat \<Rightarrow> buf \<Rightarrow> Message list result" where
  "unpack C now return_id 0 p b = Inr []"
| "unpack C now return_id (Suc txn_cnt) p b =
    bind_result (create_message C now p b) (\<lambda>msg.
    bind_result (unpack C now return_id txn_cnt (p + get_size C (m_body msg)) b) (\<lambda>msgs.
    Inr (msg\<lparr>return_node_id := return_id\<rparr> # msgs)))"

definition create_messages :: "msg_cfg \<Rightarrow> 64 word \<Rightarrow> buf \<Rightarrow> Message list result" where
  "create_messages C now b =
    bind_result (u32_val b 0) (\<lambda>(dest_id, p1). bind_result (u32_val b p1) (\<lambda>(return_id, p2).
    bind_result (u32_val b p2) (\<lambda>(txn_cnt, p3). bind_result (u64_val b p3) (\<lambda>(_, p4).
    bind_result (assert_that (ucast dest_id = g_node_id C)) (\<lambda>_.
    bind_result (assert_that (ucast return_id \<noteq> g_node_id C)) (\<lambda>_.
    bind_result (assert_that (ISCLIENTN C (ucast return_id) \<or> ISSERVERN C (ucast return_id) \<or> ISREPLICAN C (ucast return_id))) (\<lambda>_.
    unpack C now (ucast return_id) (unat txn_cnt) p4 b)))))))"

section \<open>What is in a batch\<close>

text \<open>A batch as the messages with the times at which they were copied.\<close>

type_synonym batch = "(Message \<times> 64 word) list"

definition batch_bytes :: "msg_cfg \<Rightarrow> batch \<Rightarrow> byte list" where
  "batch_bytes C ps = concat (map (\<lambda>(m, tm). wire C (send_times C tm m)) ps)"

definition pending_inv :: "msg_cfg \<Rightarrow> nat \<Rightarrow> mbuf \<Rightarrow> batch \<Rightarrow> bool" where
  "pending_inv C d sbuf ps \<longleftrightarrow>
    holds (buffer sbuf) 0 (u32_bytes (of_nat d)) \<and> holds (buffer sbuf) 4 (u32_bytes (ucast (g_node_id C))) \<and>
    holds (buffer sbuf) 20 (batch_bytes C ps) \<and> ptr sbuf = 20 + length (batch_bytes C ps) \<and>
    cnt sbuf = of_nat (length ps) \<and> list_all (\<lambda>(m, _). msg_ok C m) ps \<and> ptr sbuf \<le> g_msg_size C"

definition is_packet :: "msg_cfg \<Rightarrow> nat \<Rightarrow> byte list \<Rightarrow> batch \<Rightarrow> bool" where
  "is_packet C d bs ps \<longleftrightarrow> (\<exists>ts. bs = u32_bytes (of_nat d) @ u32_bytes (ucast (g_node_id C)) @ u32_bytes (of_nat (length ps)) @
     u64_bytes ts @ batch_bytes C ps) \<and> list_all (\<lambda>(m, _). msg_ok C m) ps \<and> length ps \<le> g_msg_size C"

definition packets_to :: "nat \<Rightarrow> msg_thread \<Rightarrow> byte list list" where
  "packets_to d t = map snd (filter (\<lambda>p. fst p = d) (sent t))"

definition thread_inv :: "msg_cfg \<Rightarrow> nat \<Rightarrow> Message list \<Rightarrow> msg_thread \<Rightarrow> bool" where
  "thread_inv C d hist t \<longleftrightarrow> d < length (bufs t) \<and> (\<exists>batches pending. pending_inv C d (bufs t ! d) pending \<and>
     list_all2 (is_packet C d) (packets_to d t) batches \<and> map fst (concat batches @ pending) = hist)"

lemma batch_bytes_simps [simp]:
  "batch_bytes C [] = []" "batch_bytes C (ps @ [(m, tm)]) = batch_bytes C ps @ wire C (send_times C tm m)"
  "batch_bytes C ((m, tm) # ps) = wire C (send_times C tm m) @ batch_bytes C ps"
  by (simp_all add: batch_bytes_def)

lemma wire_positive: "76 \<le> length (wire C m)"
  unfolding wire_def length_append header_length mget_size_def by simp

lemma batch_length: "length ps \<le> length (batch_bytes C ps)"
proof (induction ps)
  case (Cons p ps)
  obtain m tm where p: "p = (m, tm)" by (cases p)
  then show ?case using Cons wire_positive [of C "send_times C tm m"] by simp
qed simp

lemma ucast_count: "ucast (of_nat n :: 64 word) = (of_nat n :: 32 word)"
  by transfer simp

lemma mbuf_reset_inv: "20 \<le> g_msg_size C \<Longrightarrow> pending_inv C d (mbuf_reset C (of_nat d) sbuf) []"
  by (simp add: pending_inv_def mbuf_reset_def holds_put_other ucast_count)

lemma send_batch_packet:
  assumes "pending_inv C d (bufs t ! d) ps"
  shows "\<exists>bs. sent (send_batch C clock d t) = sent t @ [(d, bs)] \<and> is_packet C d bs ps"
proof -
  let ?s = "bufs t ! d"
  let ?b = "put_bytes 12 (u64_bytes (clock (clk t))) (put_bytes 8 (u32_bytes (ucast (cnt ?s))) (buffer ?s))"
  let ?bs = "u32_bytes (of_nat d) @ u32_bytes (ucast (g_node_id C)) @ u32_bytes (of_nat (length ps)) @
     u64_bytes (clock (clk t)) @ batch_bytes C ps"
  have c: "ucast (cnt ?s) = (of_nat (length ps) :: 32 word)"
    using assms by (simp add: pending_inv_def ucast_count)
  have "holds ?b 0 ?bs" using assms by (simp add: pending_inv_def holds_put_other ucast_count)
  moreover have "ptr ?s = length ?bs" using assms by (simp add: pending_inv_def)
  ultimately have "get_bytes 0 (ptr ?s) ?b = ?bs" by (simp only: holds_def)
  moreover have "length ps \<le> g_msg_size C" using assms batch_length [of ps C] by (simp add: pending_inv_def)
  ultimately show ?thesis using assms
    by (auto simp: send_batch_def Let_def set_send_time_def is_packet_def pending_inv_def)
qed

lemma send_batch_bufs [simp]:
  "length (bufs (send_batch C clock dest t)) = length (bufs t)"
  "d \<noteq> dest \<Longrightarrow> bufs (send_batch C clock dest t) ! d = bufs t ! d"
  by (simp_all add: send_batch_def Let_def)

lemma packets_to_other: "d \<noteq> dest \<Longrightarrow> packets_to d (send_batch C clock dest t) = packets_to d t"
  by (simp add: packets_to_def send_batch_def Let_def)

lemma send_batch_inv:
  assumes "thread_inv C d hist t" "20 \<le> g_msg_size C"
  shows "thread_inv C d hist (send_batch C clock dest t)"
proof (cases "dest = d")
  case True
  obtain batches pending where p: "pending_inv C d (bufs t ! d) pending" and b: "list_all2 (is_packet C d) (packets_to d t) batches"
    and h: "map fst (concat batches @ pending) = hist" and d: "d < length (bufs t)"
    using assms(1) by (auto simp: thread_inv_def)
  obtain bs where bs: "sent (send_batch C clock d t) = sent t @ [(d, bs)]" "is_packet C d bs pending"
    using send_batch_packet [OF p] by blast
  have "list_all2 (is_packet C d) (packets_to d (send_batch C clock d t)) (batches @ [pending])"
    using b bs by (simp add: packets_to_def list_all2_appendI)
  moreover have "pending_inv C d (bufs (send_batch C clock d t) ! d) []"
    using d assms(2) by (simp add: send_batch_def Let_def mbuf_reset_inv)
  moreover have "map fst (concat (batches @ [pending]) @ []) = hist" using h by simp
  ultimately show ?thesis using d True unfolding thread_inv_def by (metis send_batch_bufs(1))
next
  case False
  then show ?thesis using assms(1) by (simp add: thread_inv_def packets_to_other)
qed

lemma thread_inv_cong:
  "bufs t' = bufs t \<Longrightarrow> sent t' = sent t \<Longrightarrow> thread_inv C d hist t' = thread_inv C d hist t"
  by (simp add: thread_inv_def packets_to_def)

lemma thread_inv_flag_clk [simp]:
  "thread_inv C d hist (t\<lparr>flag := x\<rparr>) = thread_inv C d hist t" "thread_inv C d hist (t\<lparr>clk := n\<rparr>) = thread_inv C d hist t"
  by (simp_all cong: thread_inv_cong add: thread_inv_cong [of "t\<lparr>flag := x\<rparr>" t] thread_inv_cong [of "t\<lparr>clk := n\<rparr>" t])

lemma check_and_send_bufs [simp]: "length (bufs (check_and_send C clock dest t)) = length (bufs t)"
  by (simp add: check_and_send_def Let_def)

lemma check_and_send_batches_bufs [simp]: "length (bufs (check_and_send_batches C clock t)) = length (bufs t)"
proof -
  have "length (bufs (fold (check_and_send C clock) ns t)) = length (bufs t)" for ns by (induction ns arbitrary: t) simp_all
  then show ?thesis by (simp add: check_and_send_batches_def)
qed

lemma check_and_send_inv:
  "thread_inv C d hist t \<Longrightarrow> 20 \<le> g_msg_size C \<Longrightarrow> thread_inv C d hist (check_and_send C clock dest t)"
  by (simp add: check_and_send_def Let_def send_batch_inv)

lemma check_and_send_batches_inv:
  assumes "thread_inv C d hist t" "20 \<le> g_msg_size C" shows "thread_inv C d hist (check_and_send_batches C clock t)"
proof -
  have "thread_inv C d hist (fold (check_and_send C clock) ns t)" for ns
    using assms by (induction ns arbitrary: t) (simp_all add: check_and_send_inv)
  then show ?thesis by (simp add: check_and_send_batches_def)
qed

lemma after_send_fits: "dest < length (bufs t) \<Longrightarrow> 20 + n \<le> g_msg_size C \<Longrightarrow> fits C n (bufs (send_batch C clock dest t) ! dest)"
  by (simp add: send_batch_def Let_def mbuf_reset_def fits_def)

text \<open>The message goes behind what the buffer holds.\<close>

lemma pending_add:
  assumes "pending_inv C d sbuf ps" "msg_ok C m" "fits C (get_size C (m_body m)) sbuf"
  shows "pending_inv C d (sbuf\<lparr>buffer := put_bytes (ptr sbuf) (wire C (send_times C tm m)) (buffer sbuf), cnt := cnt sbuf + 1,
    ptr := ptr sbuf + get_size C (m_body m)\<rparr>) (ps @ [(m, tm)])"
proof -
  have "length (wire C (send_times C tm m)) = get_size C (m_body m)"
    using assms(2) wire_length [of C "send_times C tm m"] by (simp add: msg_ok_def)
  then show ?thesis using assms by (auto simp: pending_inv_def fits_def holds_put_other ac_simps)
qed

lemma buffer_message_inv:
  assumes inv: "thread_inv C d hist t" and ok: "msg_ok C m" and f: "fits C (get_size C (m_body m)) (bufs t ! dest)"
  shows "\<exists>t'. buffer_message C clock m dest t = Inr t' \<and> length (bufs t') = length (bufs t) \<and>
    thread_inv C d (if dest = d then hist @ [m] else hist) t'"
proof -
  let ?s = "bufs t ! dest" and ?tm = "clock (clk t)"
  let ?s1 = "?s\<lparr>buffer := put_bytes (ptr ?s) (wire C (send_times C ?tm m)) (buffer ?s), cnt := cnt ?s + 1, ptr := ptr ?s + get_size C (m_body m)\<rparr>"
  have c: "copy_to_buf C ?tm (ptr ?s) m (buffer ?s) = Inr (send_times C ?tm m, buffer ?s1)"
    using ok by (simp add: msg_ok_def copy_to_buf_ok)
  obtain t' st where t': "buffer_message C clock m dest t = Inr t'" "bufs t' = (bufs t)[dest := ?s1\<lparr>starttime := st\<rparr>]" "sent t' = sent t"
  proof (cases "starttime ?s = 0")
    case True
    with c have "buffer_message C clock m dest t = Inr (t\<lparr>bufs := (bufs t)[dest := ?s1\<lparr>starttime := clock (Suc (clk t))\<rparr>], clk := Suc (Suc (clk t))\<rparr>)"
      by (simp add: buffer_message_def Let_def)
    then show ?thesis by (rule that) simp_all
  next
    case False
    have u: "?s1\<lparr>starttime := starttime ?s\<rparr> = ?s1" by (cases ?s) simp
    from False c have "buffer_message C clock m dest t = Inr (t\<lparr>bufs := (bufs t)[dest := ?s1], clk := Suc (clk t)\<rparr>)"
      by (simp add: buffer_message_def Let_def)
    then show ?thesis by (rule that [of _ "starttime ?s"]) (subst u, simp_all)
  qed
  have "thread_inv C d (if dest = d then hist @ [m] else hist) t'"
  proof (cases "dest = d")
    case True
    obtain batches pending where p: "pending_inv C d (bufs t ! d) pending" and b: "list_all2 (is_packet C d) (packets_to d t) batches"
      and h: "map fst (concat batches @ pending) = hist" and d: "d < length (bufs t)"
      using inv by (auto simp: thread_inv_def)
    have "pending_inv C d ?s1 (pending @ [(m, ?tm)])" using pending_add [OF p ok, of ?tm] f True by simp
    then have "pending_inv C d (bufs t' ! d) (pending @ [(m, ?tm)])" using t'(2) True d by (simp add: pending_inv_def)
    moreover have "map fst (concat batches @ pending @ [(m, ?tm)]) = hist @ [m]" using h by simp
    ultimately show ?thesis using b True d t'(2,3) unfolding thread_inv_def packets_to_def by (metis length_list_update)
  next
    case False
    then show ?thesis using inv t'(2,3) by (simp add: thread_inv_def packets_to_def)
  qed
  then show ?thesis using t' by simp
qed

lemma run_inv:
  assumes inv: "thread_inv C d hist t" and len: "g_total_node_cnt C \<le> length (bufs t)" and dest: "dest < g_total_node_cnt C" "of_nat dest \<noteq> g_node_id C"
    and ok: "msg_ok C m" and size: "20 + get_size C (m_body m) \<le> g_msg_size C"
  shows "\<exists>t'. run C clock (Some (m, dest)) t = Inr t' \<and> length (bufs t') = length (bufs t) \<and>
    thread_inv C d (if dest = d then hist @ [m] else hist) t'"
proof -
  define t1 where "t1 = (if fits C (get_size C (m_body m)) (bufs t ! dest) then t else send_batch C clock dest t)"
  have "thread_inv C d hist t1" "length (bufs t1) = length (bufs t)" "fits C (get_size C (m_body m)) (bufs t1 ! dest)"
    using inv size dest len by (simp_all add: t1_def send_batch_inv after_send_fits)
  then obtain t2 where t2: "buffer_message C clock m dest t1 = Inr t2" "length (bufs t2) = length (bufs t)"
    "thread_inv C d (if dest = d then hist @ [m] else hist) t2"
    using buffer_message_inv [OF _ ok, of d hist t1 dest clock] by auto
  have "run C clock (Some (m, dest)) t = Inr ((check_and_send_batches C clock t2)\<lparr>flag := False\<rparr>)"
    using t2(1) dest by (simp add: run_def assert_that_def t1_def [symmetric])
  then show ?thesis using t2(2,3) size by (simp add: check_and_send_batches_inv)
qed

text \<open>The messages handed over for a node, in their order.\<close>

fun msgs_for :: "nat \<Rightarrow> (Message \<times> nat) option list \<Rightarrow> Message list" where
  "msgs_for d [] = []"
| "msgs_for d (None # xs) = msgs_for d xs"
| "msgs_for d (Some (m, dest) # xs) = (if dest = d then m # msgs_for d xs else msgs_for d xs)"

definition sendable :: "msg_cfg \<Rightarrow> (Message \<times> nat) option \<Rightarrow> bool" where
  "sendable C x = (case x of None \<Rightarrow> True | Some (m, dest) \<Rightarrow> msg_ok C m \<and> 20 + get_size C (m_body m) \<le> g_msg_size C \<and>
     dest < g_total_node_cnt C \<and> of_nat dest \<noteq> g_node_id C)"

lemma run_all_inv:
  assumes "list_all (sendable C) xs" "thread_inv C d hist t" "g_total_node_cnt C \<le> length (bufs t)" "20 \<le> g_msg_size C"
  shows "\<exists>t'. run_all C clock xs t = Inr t' \<and> thread_inv C d (hist @ msgs_for d xs) t'"
  using assms
proof (induction xs arbitrary: hist t)
  case (Cons x xs)
  show ?case
  proof (cases x)
    case None
    with Cons.prems have "thread_inv C d hist (check_and_send_batches C clock t)" by (simp add: check_and_send_batches_inv)
    then show ?thesis using Cons.prems None Cons.IH [of hist "check_and_send_batches C clock t"] by (simp add: run_def)
  next
    case (Some p)
    obtain m dest where p: "p = (m, dest)" by (cases p)
    obtain t1 where "run C clock (Some (m, dest)) t = Inr t1" "length (bufs t1) = length (bufs t)"
      "thread_inv C d (if dest = d then hist @ [m] else hist) t1"
      using run_inv [OF Cons.prems(2,3), of dest m clock] Cons.prems(1) Some p by (auto simp: sendable_def)
    then show ?thesis using Cons.prems Some p Cons.IH [of "if dest = d then hist @ [m] else hist" t1] by (auto split: if_splits)
  qed
qed simp

lemma thread_init_inv:
  "d < g_total_node_cnt C \<Longrightarrow> 20 \<le> g_msg_size C \<Longrightarrow> thread_inv C d [] (thread_init C mem)"
  unfolding thread_inv_def thread_init_def packets_to_def
  by (auto simp: Let_def mbuf_reset_inv intro!: exI [of _ "[]"])

section \<open>At the other end\<close>

lemma cfg_node [simp]:
  "calvin (C\<lparr>g_node_id := x\<rparr>) = calvin C" "tictoc (C\<lparr>g_node_id := x\<rparr>) = tictoc C" "sends_ts (C\<lparr>g_node_id := x\<rparr>) = sends_ts C"
  "sends_start_ts (C\<lparr>g_node_id := x\<rparr>) = sends_start_ts C" "sends_bounds (C\<lparr>g_node_id := x\<rparr>) = sends_bounds C"
  "sends_max_tid (C\<lparr>g_node_id := x\<rparr>) = sends_max_tid C" "sends_commit_ts (C\<lparr>g_node_id := x\<rparr>) = sends_commit_ts C"
  by (simp_all add: calvin_def tictoc_def sends_ts_def sends_start_ts_def sends_bounds_def sends_max_tid_def sends_commit_ts_def)

lemma fields_node [simp]:
  "header_fields (C\<lparr>g_node_id := x\<rparr>) m = header_fields C m" "body_fields (C\<lparr>g_node_id := x\<rparr>) body = body_fields C body"
  "body_ok (C\<lparr>g_node_id := x\<rparr>) body = body_ok C body" "new_body (C\<lparr>g_node_id := x\<rparr>) ty = new_body C ty"
proof -
  have "client_data_fields (C\<lparr>g_node_id := x\<rparr>) d = client_data_fields C d" "client_data_ok (C\<lparr>g_node_id := x\<rparr>) d = client_data_ok C d"
    "query_data_ok (C\<lparr>g_node_id := x\<rparr>) d = query_data_ok C d" for d
    by (cases d; simp add: pps_client_fields_def)+
  then show "body_fields (C\<lparr>g_node_id := x\<rparr>) body = body_fields C body" "body_ok (C\<lparr>g_node_id := x\<rparr>) body = body_ok C body"
    by (cases body; simp add: finish_fields_def ack_fields_def sends_part_keys_def query_response_fields_def prepare_fields_def
      forward_fields_def query_fields_def)+
qed (simp_all add: header_fields_def, cases ty, simp_all add: empty_query_def)

lemma wire_node [simp]: "wire (C\<lparr>g_node_id := x\<rparr>) m = wire C m" "msg_ok (C\<lparr>g_node_id := x\<rparr>) m = msg_ok C m"
  by (simp_all add: wire_def msg_ok_def)

text \<open>The message that arrives at node \<open>d\<close>.\<close>

definition arrival :: "msg_cfg \<Rightarrow> nat \<Rightarrow> 64 word \<Rightarrow> Message \<times> 64 word \<Rightarrow> Message" where
  "arrival C d now p = (let D = C\<lparr>g_node_id := of_nat d\<rparr> in
     (recv_times D now (msg_sent D (send_times C (snd p) (fst p))))\<lparr>return_node_id := g_node_id C\<rparr>)"

lemma unpack_batch:
  assumes "list_all (\<lambda>(m, _). msg_ok C m) ps" "holds c p (batch_bytes C ps)"
  shows "unpack (C\<lparr>g_node_id := of_nat d\<rparr>) now (g_node_id C) (length ps) p c = Inr (map (arrival C d now) ps)"
  using assms
proof (induction ps arbitrary: p)
  case (Cons x ps)
  let ?D = "C\<lparr>g_node_id := of_nat d\<rparr>"
  obtain m tm where x: "x = (m, tm)" by (cases x)
  let ?m = "send_times C tm m"
  have ok: "msg_ok C m" "list_all (\<lambda>(m, _). msg_ok C m) ps" and h: "holds c p (wire C ?m)" "holds c (p + length (wire C ?m)) (batch_bytes C ps)"
    using Cons.prems x by simp_all
  have cr: "create_message ?D now p c = Inr (recv_times ?D now (msg_sent ?D ?m))"
    using ok(1) h(1) by (intro create_message_read) simp_all
  have bok: "body_ok ?D (m_body ?m)" using ok(1) by (simp add: msg_ok_def)
  have "get_size ?D (m_body (recv_times ?D now (msg_sent ?D ?m))) = length (wire C ?m)"
    using size_sent [OF bok] wire_length [of ?D ?m] bok by (simp add: msg_sent_def)
  then show ?case using cr x Cons.IH [OF ok(2) h(2)] by (simp add: arrival_def Let_def)
qed simp

lemma ucast_small: "n < 2 ^ 32 \<Longrightarrow> ucast (of_nat n :: 32 word) = (of_nat n :: 64 word)"
  by (simp add: unsigned_of_nat take_bit_nat_eq_self)

lemma packet_arrives:
  assumes p: "is_packet C d bs ps" and c: "holds c 0 bs" and node: "g_node_id C < 2 ^ 32" "d < 2 ^ 32" "g_msg_size C < 2 ^ 32"
    and ids: "of_nat d \<noteq> g_node_id C" "ISCLIENTN C (g_node_id C) \<or> ISSERVERN C (g_node_id C) \<or> ISREPLICAN C (g_node_id C)"
  shows "create_messages (C\<lparr>g_node_id := of_nat d\<rparr>) now c = Inr (map (arrival C d now) ps)"
proof -
  obtain ts where bs: "bs = u32_bytes (of_nat d) @ u32_bytes (ucast (g_node_id C)) @ u32_bytes (of_nat (length ps)) @ u64_bytes ts @ batch_bytes C ps"
    using p by (auto simp: is_packet_def)
  have h: "holds c 0 (u32_bytes (of_nat d))" "holds c 4 (u32_bytes (ucast (g_node_id C)))" "holds c 8 (u32_bytes (of_nat (length ps)))"
    "holds c 12 (u64_bytes ts)" "holds c 20 (batch_bytes C ps)"
    using c by (simp_all add: bs)
  have r: "u32_val c 0 = Inr (of_nat d, 4)" "u32_val c 4 = Inr (ucast (g_node_id C), 8)" "u32_val c 8 = Inr (of_nat (length ps), 12)"
    "u64_val c 12 = Inr (ts, 20)"
    using u32.dec_enc [OF _ h(1)] u32.dec_enc [OF _ h(2)] u32.dec_enc [OF _ h(3)] u64.dec_enc [OF _ h(4)] by simp_all
  have u: "ucast (of_nat d :: 32 word) = (of_nat d :: 64 word)" "ucast (ucast (g_node_id C) :: 32 word) = g_node_id C"
    "unat (of_nat (length ps) :: 32 word) = length ps"
    using ucast_small [of d] ucast_small [of "unat (g_node_id C)"] ucast_count [of "unat (g_node_id C)"] node p
    by (simp_all add: word_less_nat_alt is_packet_def unat_of_nat take_bit_nat_eq_self)
  show ?thesis using ids unpack_batch [OF _ h(5), of d now] p
    by (simp add: create_messages_def r u assert_that_def is_packet_def ISCLIENTN_def ISSERVERN_def ISREPLICAN_def)
qed

section \<open>Properties\<close>

text \<open>
  Claim C12. A message thread delivers in order and loses nothing. Given any sequence of turns with admissible
  messages that fit in a buffer, the thread does not fail; for every other node \<open>d\<close> the messages handed
  over for \<open>d\<close> are, in their order, those of the batches sent to \<open>d\<close> followed by those still in its buffer;
  and \<open>create_messages\<close> at \<open>d\<close> unpacks each batch to exactly its messages, with the sender as return node.
\<close>

theorem batches_deliver_in_order:
  assumes "list_all (sendable C) xs" "d < g_total_node_cnt C" "of_nat d \<noteq> g_node_id C"
    and "20 \<le> g_msg_size C" "g_msg_size C < 2 ^ 32" "g_node_id C < 2 ^ 32" "d < 2 ^ 32"
    and "ISCLIENTN C (g_node_id C) \<or> ISSERVERN C (g_node_id C) \<or> ISREPLICAN C (g_node_id C)"
  shows "\<exists>t batches pending. run_all C clock xs (thread_init C mem) = Inr t \<and>
    map fst (concat batches @ pending) = msgs_for d xs \<and> cnt (bufs t ! d) = of_nat (length pending) \<and>
    list_all2 (\<lambda>bs ps. \<forall>c now. holds c 0 bs \<longrightarrow> create_messages (C\<lparr>g_node_id := of_nat d\<rparr>) now c = Inr (map (arrival C d now) ps))
      (packets_to d t) batches"
proof -
  have "g_total_node_cnt C \<le> length (bufs (thread_init C mem))" by (simp add: thread_init_def Let_def)
  then obtain t where t: "run_all C clock xs (thread_init C mem) = Inr t" "thread_inv C d ([] @ msgs_for d xs) t"
    using run_all_inv [OF assms(1) thread_init_inv [OF assms(2,4), of mem] _ assms(4), of clock] by blast
  then obtain batches pending where p: "pending_inv C d (bufs t ! d) pending" and b: "list_all2 (is_packet C d) (packets_to d t) batches"
    and h: "map fst (concat batches @ pending) = msgs_for d xs"
    by (auto simp: thread_inv_def)
  have "list_all2 (\<lambda>bs ps. \<forall>c now. holds c 0 bs \<longrightarrow> create_messages (C\<lparr>g_node_id := of_nat d\<rparr>) now c = Inr (map (arrival C d now) ps))
      (packets_to d t) batches"
    using b by (rule list_all2_mono) (use packet_arrives assms(3,5-8) in blast)
  moreover have "cnt (bufs t ! d) = of_nat (length pending)" using p by (simp add: pending_inv_def)
  ultimately show ?thesis using t(1) h by blast
qed

theorem batches_deliver_in_order_witness:
  "\<exists>t batches pending. run_all ex_cfg of_nat [Some (ex_query, 1), None, Some (ex_query, 2)] (thread_init ex_cfg (\<lambda>_ _. 0)) = Inr t \<and>
    map fst (concat batches @ (pending :: batch)) = [ex_query] \<and> cnt (bufs t ! 1) = of_nat (length pending)"
proof -
  have "get_size ex_cfg (m_body ex_query) = 140"
    by (simp add: ex_query_def ex_message_def query_size_def mget_size_def sends_ts_def sends_start_ts_def calvin_def ex_cfg_def)
  moreover have c: "g_total_node_cnt ex_cfg = 3" "g_node_id ex_cfg = 0" "g_msg_size ex_cfg = 4096" "g_node_cnt ex_cfg = 2"
    by (simp_all add: ex_cfg_def)
  ultimately have s: "list_all (sendable ex_cfg) [Some (ex_query, 1), None, Some (ex_query, 2)]"
    using ex_query_ok by (simp add: sendable_def)
  have h: "1 < g_total_node_cnt ex_cfg" "of_nat 1 \<noteq> g_node_id ex_cfg" "20 \<le> g_msg_size ex_cfg" "g_msg_size ex_cfg < 2 ^ 32"
    "g_node_id ex_cfg < 2 ^ 32" "(1::nat) < 2 ^ 32"
    "ISCLIENTN ex_cfg (g_node_id ex_cfg) \<or> ISSERVERN ex_cfg (g_node_id ex_cfg) \<or> ISREPLICAN ex_cfg (g_node_id ex_cfg)"
    by (simp_all add: c ISSERVERN_def)
  have "\<exists>t batches pending. run_all ex_cfg of_nat [Some (ex_query, 1), None, Some (ex_query, 2)] (thread_init ex_cfg (\<lambda>_ _. 0)) = Inr t \<and>
    map fst (concat batches @ (pending :: batch)) = msgs_for 1 [Some (ex_query, 1), None, Some (ex_query, 2)] \<and> cnt (bufs t ! 1) = of_nat (length pending)"
    using batches_deliver_in_order [OF s h, of of_nat "\<lambda>_ _. 0"] by blast
  then show ?thesis by (simp only: msgs_for.simps) simp
qed

end
