(* ===== verification/Partition.thy ===== *)
theory Partition
imports Prelude
begin

text \<open>
  Partitions, mini-partitions and where they are (\<open>system/global.cpp\<close>, \<open>key_to_part\<close> of
  \<open>system/helper.cpp\<close>), in the configuration \<open>KEY_TO_PART == HASH_MODE\<close> with the YCSB workload. Keys and
  sizes are natural numbers; \<open>minipart_keys_in_table\<close> shows that all of them are below the size of the table.
\<close>

section \<open>Keys\<close>

record part_cfg =
  g_node_cnt :: nat
  g_client_node_cnt :: nat
  g_part_cnt :: nat
  g_part_split_cnt :: nat
  g_synth_table_size :: nat
  g_part_alloc :: bool

definition g_minipart_size :: "part_cfg \<Rightarrow> nat" where
  "g_minipart_size P = g_synth_table_size P div g_part_cnt P div g_part_split_cnt P"

definition key_to_part :: "part_cfg \<Rightarrow> nat \<Rightarrow> nat" where
  "key_to_part P key = (if g_part_alloc P then key mod g_part_cnt P else 0)"

definition part_to_key_start :: "nat \<Rightarrow> nat" where
  "part_to_key_start part = part"

definition part_to_key_end :: "part_cfg \<Rightarrow> nat \<Rightarrow> nat" where
  "part_to_key_end P part = part_to_key_start part + g_part_cnt P * (g_synth_table_size P div g_part_cnt P - 1)"

definition minipart_to_key_start :: "part_cfg \<Rightarrow> nat \<Rightarrow> nat \<Rightarrow> nat" where
  "minipart_to_key_start P part minipart = g_minipart_size P * minipart * g_part_cnt P + part"

definition minipart_to_key_end :: "part_cfg \<Rightarrow> nat \<Rightarrow> nat \<Rightarrow> nat" where
  "minipart_to_key_end P part minipart = minipart_to_key_start P part minipart + (g_minipart_size P - 1) * g_part_cnt P"

definition get_minipart_id :: "part_cfg \<Rightarrow> nat \<Rightarrow> nat" where
  "get_minipart_id P key = key div g_part_cnt P div (g_synth_table_size P div g_part_cnt P div g_part_split_cnt P)"

section \<open>The maps\<close>

text \<open>
  A node's view: for every partition, and for every mini-partition of it, the node that holds it and
  the migration status (0 not migrated, 1 migrating, 2 migrated). An index without an entry is a fault.
\<close>

record part_tables =
  part_map :: "(nat \<times> nat) list"
  minipart_map :: "(nat \<times> nat) list list"

definition part_map_init :: "part_cfg \<Rightarrow> (nat \<times> nat) list" where
  "part_map_init P = map (\<lambda>i. (i mod g_node_cnt P, 0)) [0..<g_part_cnt P]"

definition minipart_map_init :: "part_cfg \<Rightarrow> (nat \<times> nat) list list" where
  "minipart_map_init P = map (\<lambda>i. map (\<lambda>j. (i mod g_node_cnt P, 0)) [0..<g_part_split_cnt P]) [0..<g_part_cnt P]"

definition at :: "'a list \<Rightarrow> nat \<Rightarrow> 'a result" where
  "at xs i = (if i < length xs then Inr (xs ! i) else Inl Out_of_bounds)"

definition get_part_node_id :: "part_tables \<Rightarrow> nat \<Rightarrow> nat result" where
  "get_part_node_id t part = bind_result (at (part_map t) part) (\<lambda>e. Inr (fst e))"

definition get_part_status :: "part_tables \<Rightarrow> nat \<Rightarrow> nat result" where
  "get_part_status t part = bind_result (at (part_map t) part) (\<lambda>e. Inr (snd e))"

definition update_part_map :: "nat \<Rightarrow> nat \<Rightarrow> part_tables \<Rightarrow> part_tables result" where
  "update_part_map part node t = bind_result (at (part_map t) part) (\<lambda>e. Inr (t\<lparr>part_map := (part_map t)[part := (node, snd e)]\<rparr>))"

definition update_part_map_status :: "nat \<Rightarrow> nat \<Rightarrow> part_tables \<Rightarrow> part_tables result" where
  "update_part_map_status part status t = bind_result (at (part_map t) part) (\<lambda>e. Inr (t\<lparr>part_map := (part_map t)[part := (fst e, status)]\<rparr>))"

definition minipart_entry :: "part_tables \<Rightarrow> nat \<Rightarrow> nat \<Rightarrow> (nat \<times> nat) result" where
  "minipart_entry t part minipart = bind_result (at (minipart_map t) part) (\<lambda>r. at r minipart)"

definition get_minipart_node_id :: "part_tables \<Rightarrow> nat \<Rightarrow> nat \<Rightarrow> nat result" where
  "get_minipart_node_id t part minipart = bind_result (minipart_entry t part minipart) (\<lambda>e. Inr (fst e))"

definition get_minipart_status :: "part_tables \<Rightarrow> nat \<Rightarrow> nat \<Rightarrow> nat result" where
  "get_minipart_status t part minipart = bind_result (minipart_entry t part minipart) (\<lambda>e. Inr (snd e))"

definition put_minipart :: "nat \<Rightarrow> nat \<Rightarrow> nat \<times> nat \<Rightarrow> part_tables \<Rightarrow> part_tables" where
  "put_minipart part minipart e t = t\<lparr>minipart_map := (minipart_map t)[part := (minipart_map t ! part)[minipart := e]]\<rparr>"

definition update_minipart_map :: "nat \<Rightarrow> nat \<Rightarrow> nat \<Rightarrow> part_tables \<Rightarrow> part_tables result" where
  "update_minipart_map part minipart node t =
    bind_result (minipart_entry t part minipart) (\<lambda>e. Inr (put_minipart part minipart (node, snd e) t))"

definition update_minipart_map_status :: "nat \<Rightarrow> nat \<Rightarrow> nat \<Rightarrow> part_tables \<Rightarrow> part_tables result" where
  "update_minipart_map_status part minipart status t =
    bind_result (minipart_entry t part minipart) (\<lambda>e. Inr (put_minipart part minipart (fst e, status) t))"

definition get_key_node_id :: "part_cfg \<Rightarrow> part_tables \<Rightarrow> nat \<Rightarrow> nat result" where
  "get_key_node_id P t key = get_minipart_node_id t (key_to_part P key) (get_minipart_id P key)"

section \<open>Geometry\<close>

definition part_cfg_ok :: "part_cfg \<Rightarrow> bool" where
  "part_cfg_ok P \<longleftrightarrow> 0 < g_node_cnt P \<and> 0 < g_part_cnt P \<and> 0 < g_part_split_cnt P \<and> 0 < g_minipart_size P \<and> g_part_alloc P"

text \<open>The keys from \<open>a\<close> to \<open>b\<close> that a loop with the step \<open>g_part_cnt\<close> visits, and those of a mini-partition.\<close>

definition step_keys :: "part_cfg \<Rightarrow> nat \<Rightarrow> nat \<Rightarrow> nat set" where
  "step_keys P a b = {k. \<exists>i. k = a + i * g_part_cnt P \<and> k \<le> b}"

definition minipart_keys :: "part_cfg \<Rightarrow> nat \<Rightarrow> nat \<Rightarrow> nat set" where
  "minipart_keys P part minipart = step_keys P (minipart_to_key_start P part minipart) (minipart_to_key_end P part minipart)"

lemma minipart_keys_eq:
  assumes "part_cfg_ok P"
  shows "minipart_keys P part m = {part + (g_minipart_size P * m + i) * g_part_cnt P | i. i < g_minipart_size P}"
proof -
  let ?s = "g_minipart_size P" and ?c = "g_part_cnt P"
  have le: "a + i * ?c \<le> a + (?s - 1) * ?c \<longleftrightarrow> i < ?s" for i a
  proof -
    have "0 < ?c" "0 < ?s" using assms by (simp_all add: part_cfg_ok_def)
    then have "i * ?c \<le> (?s - 1) * ?c \<longleftrightarrow> i \<le> ?s - 1" by simp
    also have "\<dots> \<longleftrightarrow> i < ?s" using \<open>0 < ?s\<close> by linarith
    finally show ?thesis by simp
  qed
  have st: "minipart_to_key_start P part m + i * ?c = part + (?s * m + i) * ?c" for i
    by (simp add: minipart_to_key_start_def add_mult_distrib)
  have "minipart_keys P part m = {k. \<exists>i. k = minipart_to_key_start P part m + i * ?c \<and> i < ?s}"
    unfolding minipart_keys_def step_keys_def minipart_to_key_end_def using le by blast
  then show ?thesis by (simp add: st)
qed

lemma key_split:
  assumes "part_cfg_ok P" "part < g_part_cnt P" "i < g_minipart_size P"
  shows "key_to_part P (part + (g_minipart_size P * m + i) * g_part_cnt P) = part"
    and "get_minipart_id P (part + (g_minipart_size P * m + i) * g_part_cnt P) = m"
proof -
  show "key_to_part P (part + (g_minipart_size P * m + i) * g_part_cnt P) = part"
    using assms by (simp add: key_to_part_def part_cfg_ok_def)
  have "(part + (g_minipart_size P * m + i) * g_part_cnt P) div g_part_cnt P = g_minipart_size P * m + i"
    using assms by (simp add: part_cfg_ok_def)
  then show "get_minipart_id P (part + (g_minipart_size P * m + i) * g_part_cnt P) = m"
    using assms by (simp add: get_minipart_id_def g_minipart_size_def [symmetric] part_cfg_ok_def)
qed

lemma minipart_of_key:
  assumes "part_cfg_ok P" "part < g_part_cnt P"
  shows "key \<in> minipart_keys P part m \<longleftrightarrow> key_to_part P key = part \<and> get_minipart_id P key = m"
proof
  assume "key \<in> minipart_keys P part m"
  then show "key_to_part P key = part \<and> get_minipart_id P key = m"
    using assms by (auto simp: minipart_keys_eq key_split)
next
  assume a: "key_to_part P key = part \<and> get_minipart_id P key = m"
  let ?q = "key div g_part_cnt P"
  have m: "m = ?q div g_minipart_size P" using a by (simp add: get_minipart_id_def g_minipart_size_def)
  have p: "part = key mod g_part_cnt P" using a assms by (simp add: key_to_part_def part_cfg_ok_def)
  have "?q = g_minipart_size P * m + ?q mod g_minipart_size P" using m by simp
  moreover have "key = part + ?q * g_part_cnt P" using p by simp
  ultimately have "key = part + (g_minipart_size P * m + ?q mod g_minipart_size P) * g_part_cnt P" by metis
  moreover have "?q mod g_minipart_size P < g_minipart_size P" using assms(1) by (simp add: part_cfg_ok_def)
  ultimately show "key \<in> minipart_keys P part m" using minipart_keys_eq [OF assms(1)] by blast
qed

lemma minipart_keys_bound:
  assumes "part_cfg_ok P" "part < g_part_cnt P" "m < g_part_split_cnt P" "key \<in> minipart_keys P part m"
  shows "key < g_part_cnt P * (g_synth_table_size P div g_part_cnt P)"
proof -
  obtain i where k: "key = part + (g_minipart_size P * m + i) * g_part_cnt P" and i: "i < g_minipart_size P"
    using assms by (auto simp: minipart_keys_eq)
  have "g_minipart_size P * m + i < g_minipart_size P * Suc m" using i by simp
  also have "\<dots> \<le> g_minipart_size P * g_part_split_cnt P" using assms(3) by (intro mult_le_mono) simp_all
  also have "\<dots> \<le> g_synth_table_size P div g_part_cnt P" by (simp add: g_minipart_size_def)
  finally have "Suc (g_minipart_size P * m + i) * g_part_cnt P \<le> g_synth_table_size P div g_part_cnt P * g_part_cnt P"
    by (intro mult_le_mono) simp_all
  then show ?thesis using k assms(2) by (simp add: mult.commute)
qed

lemma minipart_keys_in_table:
  assumes "part_cfg_ok P" "part < g_part_cnt P" "m < g_part_split_cnt P" "key \<in> minipart_keys P part m"
  shows "key < g_synth_table_size P"
  using minipart_keys_bound [OF assms] by (rule less_le_trans) simp

section \<open>Reading back\<close>

lemma at_Inr: "at xs i = Inr x \<longleftrightarrow> i < length xs \<and> x = xs ! i"
  by (auto simp: at_def)

end
