(* ===== verification/Migration.thy ===== *)
theory Migration
imports Partition
begin

text \<open>
  Live migration of a partition, one mini-partition after the other (\<open>system/migrate_thread.cpp\<close>, with
  \<open>MIGRATION_ALG == DETEST\<close>): the source reads the rows of a mini-partition and sends them in chunks; the
  destination inserts them and reports the last one; the source tells all other nodes where the
  mini-partition is now and goes on with the next. Between the migrate threads are the queues of the
  nodes: \<open>msg_queue\<close> with one lane for each sending thread, \<open>work_queue\<close> with the worker threads that
  take messages out of it, and \<open>migmsg_queue\<close> with the one migrate thread.

  A row is its value; that the migrate thread waits for the lock of a row it reads is not part of the
  model, nor are the limits of open transactions that a client adapts. Between two conflict markers of
  \<open>process_send_migration\<close> is a block that calls \<open>update_minipart_map_status\<close> without the partition, which
  the version marked \<open>HEAD\<close> does not have; the block after it makes the same updates and is modelled.
\<close>

section \<open>Messages\<close>

datatype mig_type = SEND_MIGRATION | RECV_MIGRATION | FINISH_MIGRATION

record mig_msg =
  mig_rtype :: mig_type
  node_id_src :: nat
  node_id_des :: nat
  part_id :: nat
  minipart_id :: nat
  key_start :: nat
  key_end :: nat
  mig_ord :: nat
  data_size :: nat
  isdata :: bool
  islast :: bool
  mig_order :: "nat list"
  row_data :: "string list"

datatype msg = Mig mig_msg | SetPartMap nat nat nat | SetMiniPartMap nat nat nat nat

section \<open>The migrate thread\<close>

text \<open>A node has its view of the partitions and the rows that its index finds.\<close>

record node =
  tables :: part_tables
  rows :: "nat \<Rightarrow> string option"

record mig_cfg = part_cfg +
  MSG_CHUNK_SIZE :: nat
  MAX_TUPLE_SIZE :: nat
  g_thread_cnt :: nat
  g_send_thread_cnt :: nat

definition msg_num :: "mig_cfg \<Rightarrow> nat" where
  "msg_num G = max (MSG_CHUNK_SIZE G div MAX_TUPLE_SIZE G - 15) 1"

abbreviation pcfg :: "mig_cfg \<Rightarrow> part_cfg" where
  "pcfg G \<equiv> part_cfg.truncate G"

definition new_chunk :: "mig_msg \<Rightarrow> nat \<Rightarrow> mig_msg" where
  "new_chunk m key_ptr = m\<lparr>isdata := True, islast := False, data_size := 0, key_start := key_ptr\<rparr>"

definition add_row :: "string \<Rightarrow> mig_msg \<Rightarrow> mig_msg" where
  "add_row r m1 = m1\<lparr>row_data := row_data m1 @ [r], data_size := data_size m1 + 1\<rparr>"

definition close_chunk :: "mig_msg \<Rightarrow> nat \<Rightarrow> mig_msg \<Rightarrow> mig_msg" where
  "close_chunk m key_ptr m1 = m1\<lparr>mig_rtype := RECV_MIGRATION, key_end := key_ptr, islast := (if key_ptr = key_end m then True else islast m1)\<rparr>"

text \<open>
  The loop that reads the rows and sends the chunks; \<open>msg1\<close> is the chunk under construction, if any. A
  key that is not in the index is a fault. The number of partitions is positive.
\<close>

function send_loop :: "mig_cfg \<Rightarrow> (nat \<Rightarrow> string option) \<Rightarrow> mig_msg \<Rightarrow> mig_msg option \<Rightarrow> nat \<Rightarrow> mig_msg list result" where
  "send_loop G rs m msg1 key_ptr =
    (if key_ptr \<le> key_end m \<and> 0 < g_part_cnt G then
       let m1 = (case msg1 of None \<Rightarrow> new_chunk m key_ptr | Some m1 \<Rightarrow> m1) in
       case rs key_ptr of
         None \<Rightarrow> Inl Assert_failed
       | Some r \<Rightarrow>
           let m2 = add_row r m1 in
           if data_size m2 \<ge> msg_num G \<or> key_ptr = key_end m then
             let m3 = close_chunk m key_ptr m2 in
             if key_ptr = key_end m then Inr [m3]
             else bind_result (send_loop G rs m None (key_ptr + g_part_cnt G)) (\<lambda>ms. Inr (m3 # ms))
           else send_loop G rs m (Some m2) (key_ptr + g_part_cnt G)
     else Inr [])"
  by pat_completeness auto
termination
  by (relation "measure (\<lambda>(G, rs, m, msg1, key_ptr). Suc (key_end m) - key_ptr)") auto

declare send_loop.simps [simp del]

definition mark_migrating :: "mig_msg \<Rightarrow> part_tables \<Rightarrow> part_tables result" where
  "mark_migrating m t = bind_result (update_minipart_map_status (part_id m) (minipart_id m) 1 t) (update_part_map_status (part_id m) 1)"

text \<open>A handler returns the node and the messages it puts into \<open>msg_queue\<close>, with their destinations.\<close>

definition process_send_migration :: "mig_cfg \<Rightarrow> mig_msg \<Rightarrow> node \<Rightarrow> (node \<times> (nat \<times> msg) list) result" where
  "process_send_migration G m n =
    bind_result (mark_migrating m (tables n)) (\<lambda>t.
    bind_result (send_loop G (rows n) (m\<lparr>isdata := False\<rparr>) None (key_start m)) (\<lambda>ms.
    bind_result (mark_migrating m t) (\<lambda>t'. Inr (n\<lparr>tables := t'\<rparr>, map (\<lambda>c. (node_id_des c, Mig c)) ms))))"

text \<open>The destination inserts new rows for the keys of the chunk; the row data of the message is not used.\<close>

function recv_loop :: "mig_cfg \<Rightarrow> mig_msg \<Rightarrow> nat \<Rightarrow> (nat \<Rightarrow> string option) \<Rightarrow> nat \<Rightarrow> string option" where
  "recv_loop G m key_ptr rs =
    (if key_ptr \<le> key_end m \<and> 0 < g_part_cnt G then recv_loop G m (key_ptr + g_part_cnt G) (rs(key_ptr \<mapsto> ''hello'')) else rs)"
  by pat_completeness auto
termination
  by (relation "measure (\<lambda>(G, m, key_ptr, rs). Suc (key_end m) - key_ptr)") auto

declare recv_loop.simps [simp del]

definition process_recv_migration :: "mig_cfg \<Rightarrow> mig_msg \<Rightarrow> node \<Rightarrow> (node \<times> (nat \<times> msg) list) result" where
  "process_recv_migration G m n =
    (let n1 = n\<lparr>rows := recv_loop G m (key_start m) (rows n)\<rparr> in
     if islast m then
       bind_result (mark_migrating m (tables n1)) (\<lambda>t.
       Inr (n1\<lparr>tables := t\<rparr>, [(node_id_src m, Mig (m\<lparr>mig_rtype := FINISH_MIGRATION, isdata := False\<rparr>))]))
     else Inr (n1, []))"

definition to_others :: "mig_cfg \<Rightarrow> nat \<Rightarrow> msg \<Rightarrow> (nat \<times> msg) list" where
  "to_others G me x = map (\<lambda>i. (i, x)) (filter (\<lambda>i. i \<noteq> me) [0..<g_node_cnt G + g_client_node_cnt G])"

definition next_minipart :: "mig_cfg \<Rightarrow> mig_msg \<Rightarrow> nat \<Rightarrow> mig_msg" where
  "next_minipart G m mini = m\<lparr>minipart_id := mini, mig_rtype := SEND_MIGRATION, data_size := g_minipart_size (pcfg G), isdata := False,
     key_start := minipart_to_key_start (pcfg G) (part_id m) mini, key_end := minipart_to_key_end (pcfg G) (part_id m) mini,
     mig_ord := mig_ord m + 1\<rparr>"

definition process_finish_migration :: "mig_cfg \<Rightarrow> nat \<Rightarrow> mig_msg \<Rightarrow> node \<Rightarrow> (node \<times> (nat \<times> msg) list) result" where
  "process_finish_migration G me m n =
    bind_result (assert_that (islast m)) (\<lambda>_.
    let minis = to_others G me (SetMiniPartMap (part_id m) (minipart_id m) (node_id_des m) 2) in
    if mig_ord m = g_part_split_cnt G - 1
    then Inr (n, minis @ to_others G me (SetPartMap (part_id m) (node_id_des m) 2))
    else
      bind_result (at (mig_order m) (mig_ord m + 1)) (\<lambda>mini.
      bind_result (process_send_migration G (next_minipart G m mini) n) (\<lambda>(n', out). Inr (n', minis @ out))))"

definition migrate_thread :: "mig_cfg \<Rightarrow> nat \<Rightarrow> mig_msg \<Rightarrow> node \<Rightarrow> (node \<times> (nat \<times> msg) list) result" where
  "migrate_thread G me m n = (case mig_rtype m of
     SEND_MIGRATION \<Rightarrow> process_send_migration G m n
   | RECV_MIGRATION \<Rightarrow> process_recv_migration G m n
   | FINISH_MIGRATION \<Rightarrow> process_finish_migration G me m n)"

section \<open>Workers and clients\<close>

text \<open>A worker hands migration messages to the migrate thread and carries out changes of the maps; a client does the latter.\<close>

definition process_set_partmap :: "nat \<Rightarrow> nat \<Rightarrow> nat \<Rightarrow> part_tables \<Rightarrow> part_tables result" where
  "process_set_partmap part nd status t = bind_result (update_part_map part nd t) (update_part_map_status part status)"

definition process_set_minipartmap :: "nat \<Rightarrow> nat \<Rightarrow> nat \<Rightarrow> nat \<Rightarrow> part_tables \<Rightarrow> part_tables result" where
  "process_set_minipartmap part mini nd status t =
    bind_result (update_minipart_map part mini nd t) (update_minipart_map_status part mini status)"

fun process_set :: "msg \<Rightarrow> part_tables \<Rightarrow> part_tables result" where
  "process_set (Mig m) t = Inr t"
| "process_set (SetPartMap part nd status) t = process_set_partmap part nd status t"
| "process_set (SetMiniPartMap part mini nd status) t = process_set_minipartmap part mini nd status t"

fun migs :: "msg list \<Rightarrow> mig_msg list" where
  "migs [] = []"
| "migs (Mig m # xs) = m # migs xs"
| "migs (SetPartMap _ _ _ # xs) = migs xs"
| "migs (SetMiniPartMap _ _ _ _ # xs) = migs xs"

section \<open>The cluster\<close>

text \<open>
  Nodes from \<open>g_node_cnt\<close> on are clients. \<open>lanes c i l j\<close> is what sending thread \<open>l\<close> of node \<open>i\<close> has for node \<open>j\<close>,
  \<open>hands c j w\<close> the message that worker \<open>w\<close> of node \<open>j\<close> has taken and not yet processed.
\<close>

record cluster =
  nodes :: "nat \<Rightarrow> node"
  lanes :: "nat \<Rightarrow> nat \<Rightarrow> nat \<Rightarrow> msg list"
  work_queue :: "nat \<Rightarrow> msg list"
  hands :: "nat \<Rightarrow> nat \<Rightarrow> msg option"
  migmsg_queue :: "nat \<Rightarrow> mig_msg list"

definition msg_enqueue :: "nat \<Rightarrow> nat \<Rightarrow> nat \<Rightarrow> msg \<Rightarrow> cluster \<Rightarrow> cluster" where
  "msg_enqueue i l j x c = c\<lparr>lanes := (lanes c)(i := (lanes c i)(l := (lanes c i l)(j := lanes c i l j @ [x])))\<rparr>"

text \<open>The lane of a message is the clock modulo the number of sending threads: any one.\<close>

fun enqueue_all :: "nat \<Rightarrow> (nat \<times> msg) list \<Rightarrow> nat list \<Rightarrow> cluster \<Rightarrow> cluster option" where
  "enqueue_all i [] [] c = Some c"
| "enqueue_all i ((j, x) # xs) (l # ls) c = enqueue_all i xs ls (msg_enqueue i l j x c)"
| "enqueue_all i _ _ c = None"

definition set_node :: "nat \<Rightarrow> node \<Rightarrow> cluster \<Rightarrow> cluster" where
  "set_node j n c = c\<lparr>nodes := (nodes c)(j := n)\<rparr>"

datatype event = Deliver nat nat nat | Take nat nat | Handle nat nat | Migrate nat "nat list" | Write nat nat string

definition deliver :: "mig_cfg \<Rightarrow> nat \<Rightarrow> nat \<Rightarrow> nat \<Rightarrow> cluster \<Rightarrow> cluster option" where
  "deliver G i l j c = (case lanes c i l j of
     [] \<Rightarrow> None
   | x # xs \<Rightarrow>
       let c1 = c\<lparr>lanes := (lanes c)(i := (lanes c i)(l := (lanes c i l)(j := xs)))\<rparr> in
       if j < g_node_cnt G then Some (c1\<lparr>work_queue := (work_queue c)(j := work_queue c j @ [x])\<rparr>)
       else (case process_set x (tables (nodes c j)) of
               Inl _ \<Rightarrow> None
             | Inr t \<Rightarrow> Some (set_node j ((nodes c j)\<lparr>tables := t\<rparr>) c1)))"

definition take_msg :: "mig_cfg \<Rightarrow> nat \<Rightarrow> nat \<Rightarrow> cluster \<Rightarrow> cluster option" where
  "take_msg G j w c = (case work_queue c j of
     [] \<Rightarrow> None
   | x # xs \<Rightarrow> if j < g_node_cnt G \<and> w < g_thread_cnt G \<and> hands c j w = None
       then Some (c\<lparr>work_queue := (work_queue c)(j := xs), hands := (hands c)(j := (hands c j)(w := Some x))\<rparr>) else None)"

definition handle_msg :: "mig_cfg \<Rightarrow> nat \<Rightarrow> nat \<Rightarrow> cluster \<Rightarrow> cluster option" where
  "handle_msg G j w c = (case hands c j w of
     None \<Rightarrow> None
   | Some x \<Rightarrow>
       let c1 = c\<lparr>hands := (hands c)(j := (hands c j)(w := None))\<rparr> in
       case x of
         Mig m \<Rightarrow> Some (c1\<lparr>migmsg_queue := (migmsg_queue c)(j := migmsg_queue c j @ [m])\<rparr>)
       | _ \<Rightarrow> (case process_set x (tables (nodes c j)) of
                 Inl _ \<Rightarrow> None
               | Inr t \<Rightarrow> Some (set_node j ((nodes c j)\<lparr>tables := t\<rparr>) c1)))"

definition migrate :: "mig_cfg \<Rightarrow> nat \<Rightarrow> nat list \<Rightarrow> cluster \<Rightarrow> cluster option" where
  "migrate G j ls c = (case migmsg_queue c j of
     [] \<Rightarrow> None
   | m # ms \<Rightarrow> (case migrate_thread G j m (nodes c j) of
         Inl _ \<Rightarrow> None
       | Inr (n, out) \<Rightarrow> if j < g_node_cnt G \<and> list_all (\<lambda>l. l < g_send_thread_cnt G) ls
           then enqueue_all j out ls (set_node j n (c\<lparr>migmsg_queue := (migmsg_queue c)(j := ms)\<rparr>)) else None))"

text \<open>A transaction at node \<open>j\<close> writes a row that the node takes for its own.\<close>

definition txn_write :: "mig_cfg \<Rightarrow> nat \<Rightarrow> nat \<Rightarrow> string \<Rightarrow> cluster \<Rightarrow> cluster option" where
  "txn_write G j k v c =
    (if get_key_node_id (pcfg G) (tables (nodes c j)) k = Inr j \<and> rows (nodes c j) k \<noteq> None
     then Some (set_node j ((nodes c j)\<lparr>rows := (rows (nodes c j))(k \<mapsto> v)\<rparr>) c) else None)"

fun mig_step :: "mig_cfg \<Rightarrow> event \<Rightarrow> cluster \<Rightarrow> cluster option" where
  "mig_step G (Deliver i l j) c = deliver G i l j c"
| "mig_step G (Take j w) c = take_msg G j w c"
| "mig_step G (Handle j w) c = handle_msg G j w c"
| "mig_step G (Migrate j ls) c = migrate G j ls c"
| "mig_step G (Write j k v) c = txn_write G j k v c"

fun mig_run :: "mig_cfg \<Rightarrow> event list \<Rightarrow> cluster \<Rightarrow> cluster option" where
  "mig_run G [] c = Some c"
| "mig_run G (e # es) c = (case mig_step G e c of None \<Rightarrow> None | Some c' \<Rightarrow> mig_run G es c')"

text \<open>Every node loads the rows of its partitions; a client starts the migration of a partition.\<close>

definition init_rows :: "mig_cfg \<Rightarrow> nat \<Rightarrow> nat \<Rightarrow> string option" where
  "init_rows G j k = (if j < g_node_cnt G \<and> k < g_part_cnt G * (g_synth_table_size G div g_part_cnt G) \<and> k mod g_part_cnt G mod g_node_cnt G = j
     then Some ''hello'' else None)"

definition start_message :: "mig_cfg \<Rightarrow> nat \<Rightarrow> nat \<Rightarrow> nat \<Rightarrow> mig_msg" where
  "start_message G src des part = \<lparr>mig_rtype = SEND_MIGRATION, node_id_src = src, node_id_des = des, part_id = part, minipart_id = 0,
     key_start = minipart_to_key_start (pcfg G) part 0, key_end = minipart_to_key_end (pcfg G) part 0, mig_ord = 0,
     data_size = g_minipart_size (pcfg G), isdata = False, islast = False, mig_order = [0..<g_part_split_cnt G], row_data = []\<rparr>"

definition cluster_init :: "mig_cfg \<Rightarrow> (nat \<Rightarrow> nat \<Rightarrow> string option) \<Rightarrow> cluster" where
  "cluster_init G rs = \<lparr>nodes = (\<lambda>j. \<lparr>tables = \<lparr>part_map = part_map_init (pcfg G), minipart_map = minipart_map_init (pcfg G)\<rparr>, rows = rs j\<rparr>),
     lanes = (\<lambda>i l j. []), work_queue = (\<lambda>j. []), hands = (\<lambda>j w. None), migmsg_queue = (\<lambda>j. [])\<rparr>"

definition start :: "mig_cfg \<Rightarrow> nat \<Rightarrow> nat \<Rightarrow> nat \<Rightarrow> nat \<Rightarrow> cluster \<Rightarrow> cluster" where
  "start G client src des part = msg_enqueue client 0 src (Mig (start_message G src des part))"

section \<open>Chunks\<close>

lemma pcfg_simps [simp]:
  "g_node_cnt (pcfg G) = g_node_cnt G" "g_part_cnt (pcfg G) = g_part_cnt G" "g_part_split_cnt (pcfg G) = g_part_split_cnt G"
  "g_synth_table_size (pcfg G) = g_synth_table_size G" "g_part_alloc (pcfg G) = g_part_alloc G"
  by (simp_all add: part_cfg.defs)

definition chunk_keys :: "mig_cfg \<Rightarrow> mig_msg \<Rightarrow> nat set" where
  "chunk_keys G m = step_keys (pcfg G) (key_start m) (key_end m)"

lemma step_keys_rec:
  "step_keys P a b = (if a \<le> b then insert a (step_keys P (a + g_part_cnt P) b) else {})"
proof (cases "a \<le> b")
  case True
  have "k \<in> step_keys P a b \<longleftrightarrow> k = a \<or> k \<in> step_keys P (a + g_part_cnt P) b" for k
  proof
    assume "k \<in> step_keys P a b"
    then obtain i where "k = a + i * g_part_cnt P" "k \<le> b" by (auto simp: step_keys_def)
    then show "k = a \<or> k \<in> step_keys P (a + g_part_cnt P) b"
      by (cases i) (auto simp: step_keys_def intro: exI [of _ "i - 1"])
  next
    assume "k = a \<or> k \<in> step_keys P (a + g_part_cnt P) b"
    then show "k \<in> step_keys P a b"
    proof
      assume "k = a"
      then show ?thesis using True by (auto simp: step_keys_def intro: exI [of _ 0])
    next
      assume "k \<in> step_keys P (a + g_part_cnt P) b"
      then obtain i where "k = a + g_part_cnt P + i * g_part_cnt P" "k \<le> b" by (auto simp: step_keys_def)
      then have "k = a + Suc i * g_part_cnt P \<and> k \<le> b" by simp
      then show ?thesis unfolding step_keys_def by blast
    qed
  qed
  then show ?thesis using True by auto
qed (auto simp: step_keys_def)

lemma recv_loop_rows:
  "0 < g_part_cnt G \<Longrightarrow> recv_loop G m key_ptr rs k = (if k \<in> step_keys (pcfg G) key_ptr (key_end m) then Some ''hello'' else rs k)"
proof (induction G m key_ptr rs rule: recv_loop.induct)
  case (1 G m key_ptr rs)
  show ?case
  proof (cases "key_ptr \<le> key_end m \<and> 0 < g_part_cnt G")
    case True
    then have "recv_loop G m key_ptr rs = recv_loop G m (key_ptr + g_part_cnt G) (rs(key_ptr \<mapsto> ''hello''))"
      by (subst recv_loop.simps) simp
    then show ?thesis using 1 True step_keys_rec [of "pcfg G" key_ptr "key_end m"] by (simp add: fun_upd_def)
  next
    case False
    then have "recv_loop G m key_ptr rs = rs" by (subst recv_loop.simps) auto
    then show ?thesis using False 1 step_keys_rec [of "pcfg G" key_ptr "key_end m"] by simp
  qed
qed

lemma step_keys_split:
  assumes "p = a + i * g_part_cnt P"
  shows "step_keys P a b \<subseteq> step_keys P a p \<union> step_keys P (p + g_part_cnt P) b"
proof
  fix k assume "k \<in> step_keys P a b"
  then obtain n where k: "k = a + n * g_part_cnt P" "k \<le> b" by (auto simp: step_keys_def)
  show "k \<in> step_keys P a p \<union> step_keys P (p + g_part_cnt P) b"
  proof (cases "n \<le> i")
    case True
    then have "k \<le> p" using assms k by simp
    then show ?thesis using k by (auto simp: step_keys_def)
  next
    case False
    then obtain d where "n = i + Suc d" by (metis add_Suc_right less_imp_Suc_add not_le)
    then have "k = p + g_part_cnt P + d * g_part_cnt P" using assms k by (simp add: add_mult_distrib)
    then show ?thesis using k by (auto simp: step_keys_def)
  qed
qed

text \<open>
  What is on the way to a node is in order: when the last chunk of a mini-partition comes, all its keys
  are in \<open>D\<close> or in a chunk up to this one.
\<close>

definition carried :: "mig_cfg \<Rightarrow> mig_msg \<Rightarrow> nat set" where
  "carried G r = (if mig_rtype r = RECV_MIGRATION then chunk_keys G r else {})"

fun in_order :: "mig_cfg \<Rightarrow> nat \<Rightarrow> nat set \<Rightarrow> mig_msg list \<Rightarrow> bool" where
  "in_order G j D [] = True"
| "in_order G j D (r # rs) \<longleftrightarrow> (mig_rtype r = RECV_MIGRATION \<longrightarrow> node_id_des r = j \<and>
     (islast r \<longrightarrow> minipart_keys (pcfg G) (part_id r) (minipart_id r) \<subseteq> D \<union> chunk_keys G r)) \<and> in_order G j (D \<union> carried G r) rs"

lemma in_order_mono: "in_order G j D rs \<Longrightarrow> D \<subseteq> E \<Longrightarrow> in_order G j E rs"
proof (induction rs arbitrary: D E)
  case (Cons r rs)
  have "D \<union> carried G r \<subseteq> E \<union> carried G r" using Cons.prems(2) by blast
  moreover have "in_order G j (D \<union> carried G r) rs" using Cons.prems(1) by simp
  ultimately have "in_order G j (E \<union> carried G r) rs" by (rule Cons.IH [rotated])
  moreover have "X \<subseteq> D \<union> Y \<Longrightarrow> X \<subseteq> E \<union> Y" for X Y :: "nat set" using Cons.prems(2) by blast
  ultimately show ?case using Cons.prems(1) by simp
qed simp

lemma in_order_append: "in_order G j D (xs @ ys) \<longleftrightarrow> in_order G j D xs \<and> in_order G j (D \<union> \<Union>(carried G ` set xs)) ys"
  by (induction xs arbitrary: D) (simp_all add: Un_assoc)

lemma in_order_insert:
  assumes "in_order G j D (xs @ ys)" "in_order G j D (xs @ [m])" shows "in_order G j D (xs @ m # ys)"
proof -
  have "in_order G j (D \<union> \<Union>(carried G ` set xs) \<union> carried G m) ys"
    using assms(1) by (auto simp: in_order_append elim: in_order_mono)
  then show ?thesis using assms(2) by (simp add: in_order_append)
qed

definition chunk_of :: "mig_msg \<Rightarrow> mig_msg \<Rightarrow> bool" where
  "chunk_of m m1 \<longleftrightarrow> node_id_des m1 = node_id_des m \<and> part_id m1 = part_id m \<and> minipart_id m1 = minipart_id m \<and> \<not> islast m1"

lemma send_loop_in_order:
  assumes "send_loop G rs m msg1 key_ptr = Inr ms"
    and "case msg1 of None \<Rightarrow> s = key_ptr | Some m1 \<Rightarrow> s = key_start m1 \<and> chunk_of m m1 \<and> (\<exists>i. key_ptr = s + i * g_part_cnt G)"
    and "minipart_keys (pcfg G) (part_id m) (minipart_id m) \<subseteq> D \<union> step_keys (pcfg G) s (key_end m)"
  shows "in_order G (node_id_des m) D ms \<and> list_all (\<lambda>c. mig_rtype c = RECV_MIGRATION \<and> node_id_des c = node_id_des m) ms"
  using assms
proof (induction G rs m msg1 key_ptr arbitrary: ms s D rule: send_loop.induct)
  case (1 G rs m msg1 key_ptr)
  note IH = "1.IH" and prems = "1.prems"
  show ?case
  proof (cases "key_ptr \<le> key_end m \<and> 0 < g_part_cnt G")
    case False
    then show ?thesis using prems(1) by (subst (asm) send_loop.simps) auto
  next
    case True
    define m1 where "m1 = (case msg1 of None \<Rightarrow> new_chunk m key_ptr | Some m1 \<Rightarrow> m1)"
    have m1: "key_start m1 = s" "chunk_of m m1" "\<exists>i. key_ptr = s + i * g_part_cnt G"
      using prems(2) by (auto simp: m1_def new_chunk_def chunk_of_def split: option.splits intro: exI [of _ 0])
    obtain r where r: "rs key_ptr = Some r" using prems(1) True by (subst (asm) send_loop.simps) (auto simp: Let_def split: option.splits)
    define m2 where "m2 = add_row r m1"
    have m2: "key_start m2 = s" "chunk_of m m2" using m1 by (simp_all add: m2_def add_row_def chunk_of_def)
    define m3 where "m3 = close_chunk m key_ptr m2"
    have m3: "key_start m3 = s" "key_end m3 = key_ptr" "mig_rtype m3 = RECV_MIGRATION" "node_id_des m3 = node_id_des m"
      "part_id m3 = part_id m" "minipart_id m3 = minipart_id m" "islast m3 = (key_ptr = key_end m)"
      using m2 by (simp_all add: m3_def close_chunk_def chunk_of_def)
    have split: "step_keys (pcfg G) s (key_end m) \<subseteq> step_keys (pcfg G) s key_ptr \<union> step_keys (pcfg G) (key_ptr + g_part_cnt G) (key_end m)"
      using m1(3) step_keys_split [of key_ptr s _ "pcfg G" "key_end m"] by auto
    have e: "send_loop G rs m msg1 key_ptr =
      (if data_size m2 \<ge> msg_num G \<or> key_ptr = key_end m then
         if key_ptr = key_end m then Inr [m3]
         else bind_result (send_loop G rs m None (key_ptr + g_part_cnt G)) (\<lambda>ms. Inr (m3 # ms))
       else send_loop G rs m (Some m2) (key_ptr + g_part_cnt G))"
      using True r by (subst send_loop.simps) (simp add: m3_def m2_def m1_def Let_def)
    show ?thesis
    proof (cases "key_ptr = key_end m")
      case atend: True
      then have "ms = [m3]" using e prems(1) by simp
      then show ?thesis using atend m3 prems(3) by (simp add: chunk_keys_def)
    next
      case notend: False
      show ?thesis
      proof (cases "data_size m2 \<ge> msg_num G")
        case full: True
        then obtain ms' where ms': "send_loop G rs m None (key_ptr + g_part_cnt G) = Inr ms'" "ms = m3 # ms'"
          using e notend prems(1) by (cases "send_loop G rs m None (key_ptr + g_part_cnt G)") auto
        have "minipart_keys (pcfg G) (part_id m) (minipart_id m) \<subseteq>
            (D \<union> chunk_keys G m3) \<union> step_keys (pcfg G) (key_ptr + g_part_cnt G) (key_end m)"
          using prems(3) split m3 by (auto simp: chunk_keys_def)
        then have "in_order G (node_id_des m) (D \<union> chunk_keys G m3) ms' \<and>
            list_all (\<lambda>c. mig_rtype c = RECV_MIGRATION \<and> node_id_des c = node_id_des m) ms'"
          using IH(1) [OF True m1_def r m2_def _ m3_def notend ms'(1)] full by simp
        then show ?thesis using ms'(2) m3 notend by (simp add: carried_def)
      next
        case False
        then have s2: "send_loop G rs m (Some m2) (key_ptr + g_part_cnt G) = Inr ms" using e notend prems(1) by simp
        obtain i where "key_ptr = s + i * g_part_cnt G" using m1(3) by blast
        then have "key_ptr + g_part_cnt G = s + Suc i * g_part_cnt G" by simp
        then have "\<exists>i. key_ptr + g_part_cnt G = s + i * g_part_cnt G" by blast
        then show ?thesis using IH(2) [OF True m1_def r m2_def _ s2] False notend m2 prems(3) by simp
      qed
    qed
  qed
qed

end
