(* ===== verification/MigrationSafe.thy ===== *)
theory MigrationSafe
imports Migration
begin

text \<open>
  Where a key is looked for, it is. With one sending thread and one worker thread per node, no node
  ever takes a row to be at a node that does not have it, whatever the order in which messages are
  delivered and processed. With more threads, chunks overtake each other and the property fails.
\<close>

section \<open>The maps\<close>

lemma minipart_entry_Inr:
  "minipart_entry t p m = Inr e \<longleftrightarrow> p < length (minipart_map t) \<and> m < length (minipart_map t ! p) \<and> e = minipart_map t ! p ! m"
  by (cases "p < length (minipart_map t)") (auto simp: minipart_entry_def at_def)

lemma put_minipart_entry:
  assumes "minipart_entry t p m = Inr e0" "minipart_entry (put_minipart p m e t) p' m' = Inr e'"
  shows "(p' = p \<and> m' = m \<and> e' = e) \<or> ((p', m') \<noteq> (p, m) \<and> minipart_entry t p' m' = Inr e')"
  using assms unfolding minipart_entry_Inr put_minipart_def
  by (cases "p' = p"; cases "m' = m") auto

lemma minipart_status_entry:
  assumes "update_minipart_map_status p m st t = Inr t'" "minipart_entry t' p' m' = Inr (d, s)"
  shows "\<exists>s0. minipart_entry t p' m' = Inr (d, s0)"
proof -
  obtain e where e: "minipart_entry t p m = Inr e" "t' = put_minipart p m (fst e, st) t"
    using assms(1) by (auto simp: update_minipart_map_status_def bind_result_Inr_iff)
  then show ?thesis using put_minipart_entry [OF e(1), of "(fst e, st)" p' m' "(d, s)"] assms(2) by (cases e) auto
qed

lemma minipart_node_entry:
  assumes "update_minipart_map p m nd t = Inr t'" "minipart_entry t' p' m' = Inr (d, s)"
  shows "(\<exists>s0. minipart_entry t p' m' = Inr (d, s0)) \<or> (p' = p \<and> m' = m \<and> d = nd)"
proof -
  obtain e where e: "minipart_entry t p m = Inr e" "t' = put_minipart p m (nd, snd e) t"
    using assms(1) by (auto simp: update_minipart_map_def bind_result_Inr_iff)
  then show ?thesis using put_minipart_entry [OF e(1), of "(nd, snd e)" p' m' "(d, s)"] assms(2) by auto
qed

lemma part_map_entry [simp]: "minipart_entry (t\<lparr>part_map := x\<rparr>) p m = minipart_entry t p m"
  by (simp add: minipart_entry_def)

lemma mark_migrating_entry:
  assumes "mark_migrating m t = Inr t'" "minipart_entry t' p' m' = Inr (d, s)"
  shows "\<exists>s0. minipart_entry t p' m' = Inr (d, s0)"
proof -
  obtain t1 where t1: "update_minipart_map_status (part_id m) (minipart_id m) 1 t = Inr t1" "update_part_map_status (part_id m) 1 t1 = Inr t'"
    using assms(1) by (auto simp: mark_migrating_def bind_result_Inr_iff)
  then have "minipart_entry t1 p' m' = Inr (d, s)" using assms(2) by (auto simp: update_part_map_status_def bind_result_Inr_iff)
  then show ?thesis using minipart_status_entry [OF t1(1)] by blast
qed

lemma process_set_entry:
  assumes "process_set x t = Inr t'" "minipart_entry t' p m = Inr (d, s)"
  shows "(\<exists>s0. minipart_entry t p m = Inr (d, s0)) \<or> (\<exists>s1. x = SetMiniPartMap p m d s1)"
proof (cases x)
  case (SetMiniPartMap p0 m0 d0 s1)
  then obtain t1 where t1: "update_minipart_map p0 m0 d0 t = Inr t1" "update_minipart_map_status p0 m0 s1 t1 = Inr t'"
    using assms(1) by (auto simp: process_set_minipartmap_def bind_result_Inr_iff)
  then obtain s0 where "minipart_entry t1 p m = Inr (d, s0)" using minipart_status_entry assms(2) by blast
  then show ?thesis using minipart_node_entry [OF t1(1)] SetMiniPartMap by blast
next
  case (SetPartMap p0 d0 s1)
  then show ?thesis using assms by (auto simp: process_set_partmap_def bind_result_Inr_iff update_part_map_def update_part_map_status_def)
qed (use assms in auto)

section \<open>The invariant\<close>

definition present :: "cluster \<Rightarrow> nat \<Rightarrow> nat set" where
  "present c j = dom (rows (nodes c j))"

definition complete :: "mig_cfg \<Rightarrow> cluster \<Rightarrow> nat \<Rightarrow> nat \<Rightarrow> nat \<Rightarrow> bool" where
  "complete G c d p m \<longleftrightarrow> minipart_keys (pcfg G) p m \<subseteq> present c d"

fun safe_msg :: "mig_cfg \<Rightarrow> cluster \<Rightarrow> msg \<Rightarrow> bool" where
  "safe_msg G c (SetMiniPartMap p m d s) = complete G c d p m"
| "safe_msg G c (SetPartMap p d s) = True"
| "safe_msg G c (Mig r) = (case mig_rtype r of
     SEND_MIGRATION \<Rightarrow> key_start r = minipart_to_key_start (pcfg G) (part_id r) (minipart_id r) \<and>
       key_end r = minipart_to_key_end (pcfg G) (part_id r) (minipart_id r)
   | RECV_MIGRATION \<Rightarrow> True
   | FINISH_MIGRATION \<Rightarrow> islast r \<longrightarrow> complete G c (node_id_des r) (part_id r) (minipart_id r))"

definition in_hand :: "cluster \<Rightarrow> nat \<Rightarrow> msg list" where
  "in_hand c j = (case hands c j 0 of None \<Rightarrow> [] | Some x \<Rightarrow> [x])"

definition waiting :: "cluster \<Rightarrow> nat \<Rightarrow> mig_msg list" where
  "waiting c j = migmsg_queue c j @ migs (in_hand c j) @ migs (work_queue c j)"

definition mig_inv :: "mig_cfg \<Rightarrow> cluster \<Rightarrow> bool" where
  "mig_inv G c \<longleftrightarrow>
    (\<forall>i l j. l \<noteq> 0 \<longrightarrow> lanes c i l j = []) \<and> (\<forall>j w. w \<noteq> 0 \<longrightarrow> hands c j w = None) \<and>
    (\<forall>i j. \<forall>x\<in>set (lanes c i 0 j). safe_msg G c x) \<and> (\<forall>j. \<forall>x\<in>set (in_hand c j @ work_queue c j). safe_msg G c x) \<and>
    (\<forall>j. \<forall>r\<in>set (migmsg_queue c j). safe_msg G c (Mig r)) \<and>
    (\<forall>i j. j < g_node_cnt G \<longrightarrow> in_order G j (present c j) (waiting c j @ migs (lanes c i 0 j))) \<and>
    (\<forall>n p m d s. minipart_entry (tables (nodes c n)) p m = Inr (d, s) \<longrightarrow> complete G c d p m)"

lemma migs_append [simp]: "migs (xs @ ys) = migs xs @ migs ys"
  by (induction xs rule: migs.induct) simp_all

lemma safe_msg_mono: "safe_msg G c x \<Longrightarrow> (\<And>j. present c j \<subseteq> present c' j) \<Longrightarrow> safe_msg G c' x"
  by (cases x) (auto simp: complete_def split: mig_type.splits)

lemma safe_msg_cong: "(\<And>j. present c j = present c' j) \<Longrightarrow> safe_msg G c x = safe_msg G c' x"
  by (cases x) (auto simp: complete_def split: mig_type.splits)

lemma present_simps [simp]:
  "present (c\<lparr>lanes := a\<rparr>) = present c" "present (c\<lparr>work_queue := b\<rparr>) = present c" "present (c\<lparr>hands := h\<rparr>) = present c"
  "present (c\<lparr>migmsg_queue := q\<rparr>) = present c"
  by (simp_all add: present_def fun_eq_iff)

lemma present_tables [simp]: "present (set_node j ((nodes c j)\<lparr>tables := t\<rparr>) c) = present c"
  by (simp add: present_def set_node_def fun_eq_iff)

lemma complete_cong: "present c' = present c \<Longrightarrow> complete G c' = complete G c"
  by (simp add: complete_def fun_eq_iff)

lemma safe_cong: "present c' = present c \<Longrightarrow> safe_msg G c' = safe_msg G c"
  by (rule ext, rule safe_msg_cong) simp

lemma set_node_simps [simp]:
  "lanes (set_node j n c) = lanes c" "work_queue (set_node j n c) = work_queue c" "hands (set_node j n c) = hands c"
  "migmsg_queue (set_node j n c) = migmsg_queue c" "nodes (set_node j n c) = (nodes c)(j := n)"
  by (simp_all add: set_node_def)

lemma waiting_cong:
  "migmsg_queue c' j = migmsg_queue c j \<Longrightarrow> hands c' j 0 = hands c j 0 \<Longrightarrow> work_queue c' j = work_queue c j \<Longrightarrow> waiting c' j = waiting c j"
  by (simp add: waiting_def in_hand_def)

text \<open>The parts of the invariant, for proofs about one step.\<close>

lemma mig_invI:
  assumes "\<And>i l j. l \<noteq> 0 \<Longrightarrow> lanes c i l j = []" "\<And>j w. w \<noteq> 0 \<Longrightarrow> hands c j w = None"
    and "\<And>i j x. x \<in> set (lanes c i 0 j) \<Longrightarrow> safe_msg G c x" "\<And>j x. x \<in> set (in_hand c j @ work_queue c j) \<Longrightarrow> safe_msg G c x"
    and "\<And>j r. r \<in> set (migmsg_queue c j) \<Longrightarrow> safe_msg G c (Mig r)"
    and "\<And>i j. j < g_node_cnt G \<Longrightarrow> in_order G j (present c j) (waiting c j @ migs (lanes c i 0 j))"
    and "\<And>n p m d s. minipart_entry (tables (nodes c n)) p m = Inr (d, s) \<Longrightarrow> complete G c d p m"
  shows "mig_inv G c"
  unfolding mig_inv_def by (intro conjI allI ballI impI; rule assms; assumption)

lemma mig_invD:
  assumes "mig_inv G c"
  shows "l \<noteq> 0 \<Longrightarrow> lanes c i l j = []" "w \<noteq> 0 \<Longrightarrow> hands c j w = None"
    and "x \<in> set (lanes c i 0 j) \<Longrightarrow> safe_msg G c x" "x \<in> set (in_hand c j @ work_queue c j) \<Longrightarrow> safe_msg G c x"
    and "r \<in> set (migmsg_queue c j) \<Longrightarrow> safe_msg G c (Mig r)"
    and "j < g_node_cnt G \<Longrightarrow> in_order G j (present c j) (waiting c j @ migs (lanes c i 0 j))"
    and "minipart_entry (tables (nodes c n)) p m = Inr (d, s) \<Longrightarrow> complete G c d p m"
proof -
  note a = assms [unfolded mig_inv_def]
  show "l \<noteq> 0 \<Longrightarrow> lanes c i l j = []" using a [THEN conjunct1] by blast
  show "w \<noteq> 0 \<Longrightarrow> hands c j w = None" using a [THEN conjunct2, THEN conjunct1] by blast
  show "x \<in> set (lanes c i 0 j) \<Longrightarrow> safe_msg G c x" using a [THEN conjunct2, THEN conjunct2, THEN conjunct1] by blast
  show "x \<in> set (in_hand c j @ work_queue c j) \<Longrightarrow> safe_msg G c x"
    using a [THEN conjunct2, THEN conjunct2, THEN conjunct2, THEN conjunct1] by blast
  show "r \<in> set (migmsg_queue c j) \<Longrightarrow> safe_msg G c (Mig r)"
    using a [THEN conjunct2, THEN conjunct2, THEN conjunct2, THEN conjunct2, THEN conjunct1] by blast
  show "j < g_node_cnt G \<Longrightarrow> in_order G j (present c j) (waiting c j @ migs (lanes c i 0 j))"
    using a [THEN conjunct2, THEN conjunct2, THEN conjunct2, THEN conjunct2, THEN conjunct2, THEN conjunct1] by blast
  show "minipart_entry (tables (nodes c n)) p m = Inr (d, s) \<Longrightarrow> complete G c d p m"
    using a [THEN conjunct2, THEN conjunct2, THEN conjunct2, THEN conjunct2, THEN conjunct2, THEN conjunct2] by blast
qed

section \<open>Steps\<close>

lemma set_tables_complete:
  assumes "mig_inv G c" "process_set x (tables (nodes c j)) = Inr t" "safe_msg G c x"
    and "minipart_entry (tables (((nodes c)(j := (nodes c j)\<lparr>tables := t\<rparr>)) n)) p m = Inr (d, s)"
  shows "complete G c d p m"
proof (cases "n = j")
  case True
  then show ?thesis using process_set_entry [OF assms(2), of p m d s] assms(3,4) mig_invD(7) [OF assms(1)] by auto
next
  case False
  then show ?thesis using assms(4) mig_invD(7) [OF assms(1)] by auto
qed

lemma deliver_inv:
  assumes inv: "mig_inv G c" and s: "deliver G i l j c = Some c'"
  shows "mig_inv G c'"
proof -
  obtain x xs where x: "lanes c i l j = x # xs" using s by (auto simp: deliver_def split: list.splits)
  have l: "l = 0" using mig_invD(1) [OF inv, of l i j] x by auto
  have sx: "safe_msg G c x" using mig_invD(3) [OF inv, of x i j] x l by simp
  let ?L = "(lanes c)(i := (lanes c i)(l := (lanes c i l)(j := xs)))"
  have L: "y \<in> set (?L i' 0 j') \<Longrightarrow> safe_msg G c y" for y i' j'
    using mig_invD(3) [OF inv, of y i' j'] x l by (auto split: if_splits)
  have L0: "l' \<noteq> 0 \<Longrightarrow> ?L i' l' j' = []" for i' l' j' using mig_invD(1) [OF inv] l by auto
  show ?thesis
  proof (cases "j < g_node_cnt G")
    case True
    then have c': "c' = c\<lparr>lanes := ?L, work_queue := (work_queue c)(j := work_queue c j @ [x])\<rparr>"
      using s x by (simp add: deliver_def)
    have w: "waiting c' j' = (if j' = j then waiting c j @ migs [x] else waiting c j')" for j'
      by (simp add: c' waiting_def in_hand_def)
    have p: "present c' = present c" by (simp add: c')
    have ord: "in_order G j' (present c j') (waiting c' j' @ migs (?L i' 0 j'))" if "j' < g_node_cnt G" for i' j'
    proof (cases "j' = j")
      case False
      then show ?thesis using mig_invD(6) [OF inv that, of i'] by (auto simp: w)
    next
      case j: True
      have o1: "in_order G j (present c j) (waiting c j @ migs [x] @ migs xs)"
        using mig_invD(6) [OF inv True, of i] x l by (cases x) simp_all
      show ?thesis
      proof (cases "i' = i")
        case True
        then show ?thesis using o1 j l by (simp add: w)
      next
        case i': False
        have o2: "in_order G j (present c j) (waiting c j @ migs (lanes c i' 0 j))" using mig_invD(6) [OF inv True] .
        have "in_order G j (present c j) (waiting c j @ migs [x])"
          using o1 by (simp add: in_order_append)
        with o2 have "in_order G j (present c j) (waiting c j @ migs [x] @ migs (lanes c i' 0 j))"
          by (cases x) (simp_all add: in_order_insert)
        then show ?thesis using i' j by (simp add: w)
      qed
    qed
    show ?thesis
    proof (rule mig_invI)
      show "x \<in> set (in_hand c' j' @ work_queue c' j') \<Longrightarrow> safe_msg G c' x" for j' x
        using mig_invD(4) [OF inv, of x j'] sx by (auto simp: c' in_hand_def safe_cong [OF p, unfolded c'] split: if_splits)
    qed (use L L0 ord mig_invD(2,5,7) [OF inv] in \<open>auto simp: c' safe_cong [OF p, unfolded c'] complete_cong [OF p, unfolded c']\<close>)
  next
    case False
    obtain t where t: "process_set x (tables (nodes c j)) = Inr t" and
      c': "c' = set_node j ((nodes c j)\<lparr>tables := t\<rparr>) (c\<lparr>lanes := ?L\<rparr>)"
      using s x False by (auto simp: deliver_def split: sum.splits)
    have p: "present c' = present c" by (simp add: c' present_def fun_eq_iff)
    have w: "waiting c' j' = waiting c j'" for j' by (rule waiting_cong) (simp_all add: c')
    have lc: "lanes c' = ?L" "hands c' = hands c" "migmsg_queue c' = migmsg_queue c" by (simp_all add: c')
    show ?thesis
    proof (rule mig_invI)
      show "in_order G j' (present c' j') (waiting c' j' @ migs (lanes c' i' 0 j'))" if "j' < g_node_cnt G" for i' j'
        using that False mig_invD(6) [OF inv that, of i'] unfolding p w lc by auto
      show "minipart_entry (tables (nodes c' n)) p m = Inr (d, s) \<Longrightarrow> complete G c' d p m" for n p m d s
        using set_tables_complete [OF inv t sx] by (simp add: complete_cong [OF p]) (simp add: c')
      show "x \<in> set (in_hand c' j' @ work_queue c' j') \<Longrightarrow> safe_msg G c' x" for j' x
        using mig_invD(4) [OF inv, of x j'] by (simp add: safe_cong [OF p]) (simp add: c' in_hand_def)
    qed (use L L0 mig_invD(2,5) [OF inv] in \<open>auto simp: safe_cong [OF p] lc\<close>)
  qed
qed

lemma take_inv:
  assumes inv: "mig_inv G c" and s: "take_msg G j w c = Some c'" and one: "g_thread_cnt G = 1"
  shows "mig_inv G c'"
proof -
  obtain x xs where x: "work_queue c j = x # xs" "hands c j 0 = None" "w = 0"
    and c': "c' = c\<lparr>work_queue := (work_queue c)(j := xs), hands := (hands c)(j := (hands c j)(0 := Some x))\<rparr>"
    using s one by (auto simp: take_msg_def split: list.splits if_splits)
  have p: "present c' = present c" by (simp add: c')
  have w: "waiting c' j' = waiting c j'" for j'
    using x by (cases x) (simp_all add: c' waiting_def in_hand_def)
  have f: "lanes c' = lanes c" "migmsg_queue c' = migmsg_queue c" "nodes c' = nodes c" by (simp_all add: c')
  have h: "set (in_hand c' j' @ work_queue c' j') = set (in_hand c j' @ work_queue c j')" for j'
    using x by (simp add: c' in_hand_def)
  show ?thesis
  proof (rule mig_invI)
    show "y \<in> set (in_hand c' j' @ work_queue c' j') \<Longrightarrow> safe_msg G c' y" for j' y
      using mig_invD(4) [OF inv, of y j'] unfolding h safe_cong [OF p] .
    show "in_order G j' (present c' j') (waiting c' j' @ migs (lanes c' i' 0 j'))" if "j' < g_node_cnt G" for i' j'
      using mig_invD(6) [OF inv that, of i'] by (simp add: p w) (simp add: c')
    show "w' \<noteq> 0 \<Longrightarrow> hands c' j' w' = None" for j' w' using mig_invD(2) [OF inv, of w' j'] x by (auto simp: c')
  qed (use mig_invD(1,3,5,7) [OF inv] in \<open>auto simp: safe_cong [OF p] complete_cong [OF p] f\<close>)
qed

lemma set_handled_inv:
  assumes inv: "mig_inv G c" and x: "hands c j w = Some x" "w = 0" "migs [x] = []" and t: "process_set x (tables (nodes c j)) = Inr t"
    and sx: "safe_msg G c x" and c': "c' = set_node j ((nodes c j)\<lparr>tables := t\<rparr>) (c\<lparr>hands := (hands c)(j := (hands c j)(w := None))\<rparr>)"
  shows "mig_inv G c'"
proof -
  have p: "present c' = present c" by (simp add: c' present_def fun_eq_iff)
  have f: "lanes c' = lanes c" "migmsg_queue c' = migmsg_queue c" by (simp_all add: c')
  have w: "waiting c' j' = waiting c j'" for j' using x by (simp add: c' waiting_def in_hand_def)
  show ?thesis
  proof (rule mig_invI)
    show "y \<in> set (in_hand c' j' @ work_queue c' j') \<Longrightarrow> safe_msg G c' y" for j' y
      using mig_invD(4) [OF inv, of y j'] x by (simp add: safe_cong [OF p]) (auto simp: c' in_hand_def split: if_splits)
    show "in_order G j' (present c' j') (waiting c' j' @ migs (lanes c' i' 0 j'))" if "j' < g_node_cnt G" for i' j'
      using mig_invD(6) [OF inv that, of i'] by (simp add: p w) (simp add: c')
    show "minipart_entry (tables (nodes c' n)) p m = Inr (d, s) \<Longrightarrow> complete G c' d p m" for n p m d s
      using set_tables_complete [OF inv t sx] by (simp add: complete_cong [OF p]) (simp add: c')
    show "w' \<noteq> 0 \<Longrightarrow> hands c' j' w' = None" for j' w' using mig_invD(2) [OF inv, of w' j'] by (auto simp: c')
  qed (use mig_invD(1,3,5) [OF inv] in \<open>auto simp: safe_cong [OF p] f\<close>)
qed

lemma handle_inv:
  assumes inv: "mig_inv G c" and s: "handle_msg G j w c = Some c'"
  shows "mig_inv G c'"
proof -
  obtain x where x: "hands c j w = Some x" using s by (auto simp: handle_msg_def split: option.splits)
  have w0: "w = 0" using mig_invD(2) [OF inv, of w j] x by auto
  have sx: "safe_msg G c x" using mig_invD(4) [OF inv, of x j] x w0 by (simp add: in_hand_def)
  let ?H = "(hands c)(j := (hands c j)(w := None))"
  have H: "w' \<noteq> 0 \<Longrightarrow> ?H j' w' = None" for j' w' using mig_invD(2) [OF inv] by simp
  show ?thesis
  proof (cases x)
    case (Mig m)
    have c': "c' = c\<lparr>hands := ?H, migmsg_queue := (migmsg_queue c)(j := migmsg_queue c j @ [m])\<rparr>"
      using s x Mig by (simp add: handle_msg_def)
    have p: "present c' = present c" by (simp add: c')
    have f: "lanes c' = lanes c" "hands c' = ?H" "nodes c' = nodes c" by (simp_all add: c')
    have w: "waiting c' j' = waiting c j'" for j' using x w0 Mig by (simp add: c' waiting_def in_hand_def)
    show ?thesis
    proof (rule mig_invI)
      show "y \<in> set (in_hand c' j' @ work_queue c' j') \<Longrightarrow> safe_msg G c' y" for j' y
        using mig_invD(4) [OF inv, of y j'] by (simp add: safe_cong [OF p]) (auto simp: c' in_hand_def w0 split: if_splits)
      show "in_order G j' (present c' j') (waiting c' j' @ migs (lanes c' i' 0 j'))" if "j' < g_node_cnt G" for i' j'
        using mig_invD(6) [OF inv that, of i'] by (simp add: p w) (simp add: c')
      show "r \<in> set (migmsg_queue c' j') \<Longrightarrow> safe_msg G c' (Mig r)" for j' r
        using mig_invD(5) [OF inv, of r j'] sx Mig by (simp only: safe_cong [OF p]) (auto simp: c' split: if_splits)
    qed (use H mig_invD(1,3,7) [OF inv] in \<open>auto simp: safe_cong [OF p] complete_cong [OF p] f\<close>)
  next
    case (SetPartMap p0 d0 s0)
    then obtain t where t: "process_set x (tables (nodes c j)) = Inr t" and
      c': "c' = set_node j ((nodes c j)\<lparr>tables := t\<rparr>) (c\<lparr>hands := ?H\<rparr>)"
      using s x by (auto simp: handle_msg_def split: sum.splits)
    show ?thesis using set_handled_inv [OF inv x w0 _ t sx c'] SetPartMap by simp
  next
    case (SetMiniPartMap p0 m0 d0 s0)
    then obtain t where t: "process_set x (tables (nodes c j)) = Inr t" and
      c': "c' = set_node j ((nodes c j)\<lparr>tables := t\<rparr>) (c\<lparr>hands := ?H\<rparr>)"
      using s x by (auto simp: handle_msg_def split: sum.splits)
    show ?thesis using set_handled_inv [OF inv x w0 _ t sx c'] SetMiniPartMap by simp
  qed
qed

definition msgs_to :: "nat \<Rightarrow> (nat \<times> msg) list \<Rightarrow> msg list" where
  "msgs_to k out = map snd (filter (\<lambda>p. fst p = k) out)"

lemma msgs_to_simps [simp]:
  "msgs_to k [] = []" "msgs_to k ((j, x) # out) = (if j = k then x # msgs_to k out else msgs_to k out)"
  "msgs_to k (xs @ ys) = msgs_to k xs @ msgs_to k ys"
  by (simp_all add: msgs_to_def)

lemma enqueue_all_result:
  assumes "enqueue_all i out ls c = Some c'" "list_all (\<lambda>l. l = 0) ls"
  shows "nodes c' = nodes c \<and> work_queue c' = work_queue c \<and> hands c' = hands c \<and> migmsg_queue c' = migmsg_queue c \<and>
    lanes c' i' l' j' = (if i' = i \<and> l' = 0 then lanes c i 0 j' @ msgs_to j' out else lanes c i' l' j')"
  using assms
proof (induction i out ls c rule: enqueue_all.induct)
  case (2 i j x xs l ls c)
  then show ?case by (auto simp: msg_enqueue_def)
qed auto

lemma migs_map_Mig [simp]: "migs (map Mig ms) = ms"
  by (induction ms) simp_all

lemma msgs_to_chunks:
  "list_all (\<lambda>c. mig_rtype c = RECV_MIGRATION \<and> node_id_des c = d) ms \<Longrightarrow>
    msgs_to k (map (\<lambda>c. (node_id_des c, Mig c)) ms) = (if k = d then map Mig ms else [])"
  by (induction ms) auto

lemma process_send_result:
  assumes "process_send_migration G m n = Inr (n', out)"
    and "key_start m = minipart_to_key_start (pcfg G) (part_id m) (minipart_id m)"
    and "key_end m = minipart_to_key_end (pcfg G) (part_id m) (minipart_id m)"
  shows "rows n' = rows n \<and> (\<forall>p k d s. minipart_entry (tables n') p k = Inr (d, s) \<longrightarrow> (\<exists>s0. minipart_entry (tables n) p k = Inr (d, s0))) \<and>
    (\<forall>x\<in>snd ` set out. safe_msg G c x) \<and> (\<forall>k D. in_order G k D (migs (msgs_to k out)))"
proof -
  obtain t ms t' where t: "mark_migrating m (tables n) = Inr t" "mark_migrating m t = Inr t'" and
    ms: "send_loop G (rows n) (m\<lparr>isdata := False\<rparr>) None (key_start m) = Inr ms" and
    n': "n' = n\<lparr>tables := t'\<rparr>" "out = map (\<lambda>c. (node_id_des c, Mig c)) ms"
    using assms(1) by (auto simp: process_send_migration_def bind_result_Inr_iff)
  have o: "in_order G (node_id_des m) D ms \<and> list_all (\<lambda>c. mig_rtype c = RECV_MIGRATION \<and> node_id_des c = node_id_des m) ms" for D
    using send_loop_in_order [OF ms, of "key_start m" D] assms(2,3) by (simp add: minipart_keys_def)
  have "in_order G k D (migs (msgs_to k out))" for k D
    using o [of D] msgs_to_chunks [of "node_id_des m" ms k] by (simp add: n')
  moreover have "\<forall>x\<in>snd ` set out. safe_msg G c x" using o by (auto simp: n' list_all_iff)
  moreover have "\<exists>s0. minipart_entry (tables n) p k = Inr (d, s0)" if "minipart_entry t' p k = Inr (d, s)" for p k d s
    using mark_migrating_entry [OF t(1)] mark_migrating_entry [OF t(2) that] by blast
  ultimately show ?thesis using n' by auto
qed

lemma to_others_safe: "safe_msg G c x \<Longrightarrow> \<forall>y\<in>snd ` set (to_others G j x). safe_msg G c y"
  by (auto simp: to_others_def)

lemma to_others_migs [simp]: "migs [x] = [] \<Longrightarrow> migs (msgs_to k (to_others G j x)) = []"
proof -
  have "migs [x] = [] \<Longrightarrow> migs (msgs_to k (map (\<lambda>i. (i, x)) ns)) = []" for ns
    by (induction ns; cases x) auto
  then show "migs [x] = [] \<Longrightarrow> migs (msgs_to k (to_others G j x)) = []" by (simp add: to_others_def)
qed

lemma next_minipart_keys:
  "key_start (next_minipart G m mini) = minipart_to_key_start (pcfg G) (part_id (next_minipart G m mini)) (minipart_id (next_minipart G m mini))"
  "key_end (next_minipart G m mini) = minipart_to_key_end (pcfg G) (part_id (next_minipart G m mini)) (minipart_id (next_minipart G m mini))"
  by (simp_all add: next_minipart_def)

lemma process_finish_result:
  assumes "process_finish_migration G j m n = Inr (n', out)" "complete G c (node_id_des m) (part_id m) (minipart_id m)"
  shows "rows n' = rows n \<and> (\<forall>p k d s. minipart_entry (tables n') p k = Inr (d, s) \<longrightarrow> (\<exists>s0. minipart_entry (tables n) p k = Inr (d, s0))) \<and>
    (\<forall>x\<in>snd ` set out. safe_msg G c x) \<and> (\<forall>k D. in_order G k D (migs (msgs_to k out)))"
proof -
  let ?x = "SetMiniPartMap (part_id m) (minipart_id m) (node_id_des m) 2"
  have sx: "\<forall>x\<in>snd ` set (to_others G j ?x). safe_msg G c x"
    using to_others_safe [of G c ?x j] assms(2) by simp
  show ?thesis
  proof (cases "mig_ord m = g_part_split_cnt G - 1")
    case True
    then have o: "n' = n" "out = to_others G j ?x @ to_others G j (SetPartMap (part_id m) (node_id_des m) 2)"
      using assms(1) by (auto simp: process_finish_migration_def bind_result_Inr_iff Let_def)
    have "\<forall>x\<in>snd ` set (to_others G j (SetPartMap (part_id m) (node_id_des m) 2)). safe_msg G c x"
      using to_others_safe [of G c "SetPartMap (part_id m) (node_id_des m) 2" j] by simp
    then show ?thesis using sx o by (auto simp: image_Un)
  next
    case False
    then obtain mini out1 where s: "process_send_migration G (next_minipart G m mini) n = Inr (n', out1)" and
      o: "out = to_others G j ?x @ out1"
      using assms(1) by (auto simp: process_finish_migration_def bind_result_Inr_iff Let_def)
    show ?thesis using process_send_result [OF s next_minipart_keys, of c] sx by (auto simp: o image_Un)
  qed
qed

lemma process_recv_result:
  assumes "process_recv_migration G m n = Inr (n', out)" "0 < g_part_cnt G"
  shows "dom (rows n') = dom (rows n) \<union> chunk_keys G m \<and>
    (\<forall>p k d s. minipart_entry (tables n') p k = Inr (d, s) \<longrightarrow> (\<exists>s0. minipart_entry (tables n) p k = Inr (d, s0))) \<and>
    (\<forall>x\<in>snd ` set out. \<exists>r. x = Mig r \<and> mig_rtype r = FINISH_MIGRATION \<and> islast m \<and>
       node_id_des r = node_id_des m \<and> part_id r = part_id m \<and> minipart_id r = minipart_id m) \<and>
    (\<forall>k D. in_order G k D (migs (msgs_to k out)))"
proof -
  have d: "dom (recv_loop G m (key_start m) (rows n)) = dom (rows n) \<union> chunk_keys G m"
    using recv_loop_rows [OF assms(2), of m "key_start m" "rows n"] by (auto simp: chunk_keys_def dom_def)
  show ?thesis
  proof (cases "islast m")
    case True
    then obtain t where t: "mark_migrating m (tables n) = Inr t" and n': "n' = n\<lparr>rows := recv_loop G m (key_start m) (rows n), tables := t\<rparr>"
      "out = [(node_id_src m, Mig (m\<lparr>mig_rtype := FINISH_MIGRATION, isdata := False\<rparr>))]"
      using assms(1) by (auto simp: process_recv_migration_def Let_def bind_result_Inr_iff)
    show ?thesis using d True mark_migrating_entry [OF t] by (auto simp: n')
  next
    case False
    then have "n' = n\<lparr>rows := recv_loop G m (key_start m) (rows n)\<rparr>" "out = []"
      using assms(1) by (auto simp: process_recv_migration_def Let_def)
    then show ?thesis using d by simp
  qed
qed

text \<open>What a turn of the migrate thread does, for the three kinds of messages together.\<close>

lemma migrate_thread_result:
  assumes r: "migrate_thread G j m n = Inr (n', out)" and pos: "0 < g_part_cnt G"
    and safe: "safe_msg G c (Mig m)" and ord: "in_order G j (present c j) (m # rest)"
    and n: "nodes c j = n" and c': "nodes c' = (nodes c)(j := n')"
  shows "present c' = (present c)(j := present c j \<union> carried G m)"
    and "\<And>p k d s. minipart_entry (tables n') p k = Inr (d, s) \<Longrightarrow> \<exists>s0. minipart_entry (tables n) p k = Inr (d, s0)"
    and "\<And>x. x \<in> snd ` set out \<Longrightarrow> safe_msg G c' x"
    and "\<And>k D. in_order G k D (migs (msgs_to k out))"
proof -
  have "present c' = (present c)(j := present c j \<union> carried G m) \<and>
    (\<forall>p k d s. minipart_entry (tables n') p k = Inr (d, s) \<longrightarrow> (\<exists>s0. minipart_entry (tables n) p k = Inr (d, s0))) \<and>
    (\<forall>x\<in>snd ` set out. safe_msg G c' x) \<and> (\<forall>k D. in_order G k D (migs (msgs_to k out)))"
  proof (cases "mig_rtype m")
    case SEND_MIGRATION
    then have "process_send_migration G m n = Inr (n', out)" using r by (simp add: migrate_thread_def)
    then have res: "rows n' = rows n \<and> (\<forall>p k d s. minipart_entry (tables n') p k = Inr (d, s) \<longrightarrow> (\<exists>s0. minipart_entry (tables n) p k = Inr (d, s0))) \<and>
        (\<forall>x\<in>snd ` set out. safe_msg G c' x) \<and> (\<forall>k D. in_order G k D (migs (msgs_to k out)))"
      using process_send_result [of G m n n' out c'] SEND_MIGRATION safe by simp
    have "present c' = (present c)(j := present c j \<union> carried G m)"
      by (rule ext) (use res [THEN conjunct1] n c' SEND_MIGRATION in \<open>simp add: present_def carried_def\<close>)
    then show ?thesis using res by blast
  next
    case FINISH_MIGRATION
    then have f: "process_finish_migration G j m n = Inr (n', out)" using r by (simp add: migrate_thread_def)
    then have l: "islast m" by (auto simp: process_finish_migration_def bind_result_Inr_iff assert_that_def split: if_splits)
    have "rows n' = rows n" using process_finish_result [OF f, of c] safe l FINISH_MIGRATION by simp
    then have p: "present c' = present c" by (intro ext) (use n c' in \<open>simp add: present_def\<close>)
    have "complete G c' (node_id_des m) (part_id m) (minipart_id m)"
      using safe l FINISH_MIGRATION complete_cong [OF p, of G] by simp
    note res = process_finish_result [OF f this]
    have "present c' = (present c)(j := present c j \<union> carried G m)" using p FINISH_MIGRATION by (simp add: carried_def)
    then show ?thesis using res by blast
  next
    case RECV_MIGRATION
    then have f: "process_recv_migration G m n = Inr (n', out)" using r by (simp add: migrate_thread_def)
    note res = process_recv_result [OF f pos]
    have p: "present c' = (present c)(j := present c j \<union> carried G m)"
      by (rule ext) (use res [THEN conjunct1] RECV_MIGRATION n c' in \<open>simp add: present_def carried_def\<close>)
    have "safe_msg G c' x" if x: "x \<in> snd ` set out" for x
    proof -
      obtain r' where r': "x = Mig r'" "mig_rtype r' = FINISH_MIGRATION" "islast m" "node_id_des r' = node_id_des m"
        "part_id r' = part_id m" "minipart_id r' = minipart_id m"
        using bspec [OF res [THEN conjunct2, THEN conjunct2, THEN conjunct1] x] by blast
      have "node_id_des m = j" "minipart_keys (pcfg G) (part_id m) (minipart_id m) \<subseteq> present c j \<union> chunk_keys G m"
        using ord RECV_MIGRATION r'(3) by simp_all
      then show ?thesis using r' p RECV_MIGRATION by (simp add: complete_def carried_def)
    qed
    then show ?thesis using res [THEN conjunct2, THEN conjunct1] res [THEN conjunct2, THEN conjunct2, THEN conjunct2] p by blast
  qed
  then show "present c' = (present c)(j := present c j \<union> carried G m)"
    and "\<And>p k d s. minipart_entry (tables n') p k = Inr (d, s) \<Longrightarrow> \<exists>s0. minipart_entry (tables n) p k = Inr (d, s0)"
    and "\<And>x. x \<in> snd ` set out \<Longrightarrow> safe_msg G c' x"
    and "\<And>k D. in_order G k D (migs (msgs_to k out))"
    by blast+
qed

lemma migrate_inv:
  assumes inv: "mig_inv G c" and s: "migrate G j ls c = Some c'" and one: "g_send_thread_cnt G = 1" and pos: "0 < g_part_cnt G"
  shows "mig_inv G c'"
proof -
  obtain m ms n out where q: "migmsg_queue c j = m # ms" and r: "migrate_thread G j m (nodes c j) = Inr (n, out)" and j: "j < g_node_cnt G"
    and e: "list_all (\<lambda>l. l = 0) ls" "enqueue_all j out ls (set_node j n (c\<lparr>migmsg_queue := (migmsg_queue c)(j := ms)\<rparr>)) = Some c'"
    using s one by (auto simp: migrate_def split: list.splits sum.splits if_splits)
  have f: "nodes c' = (nodes c)(j := n)" "work_queue c' = work_queue c" "hands c' = hands c" "migmsg_queue c' = (migmsg_queue c)(j := ms)"
    and l: "\<And>i' l' j'. lanes c' i' l' j' = (if i' = j \<and> l' = 0 then lanes c j 0 j' @ msgs_to j' out else lanes c i' l' j')"
    using enqueue_all_result [OF e(2,1)] by auto
  have ord: "in_order G j (present c j) (m # (ms @ migs (in_hand c j) @ migs (work_queue c j) @ migs (lanes c i' 0 j)))" for i'
    using mig_invD(6) [OF inv j, of i'] q by (simp add: waiting_def)
  note res = migrate_thread_result [OF r pos mig_invD(5) [OF inv, of m j] ord refl f(1)]
  have P: "present c' = (present c)(j := present c j \<union> carried G m)" using res(1) q by simp
  have mono: "present c k \<subseteq> present c' k" for k by (simp add: P)
  have w: "waiting c j' = (if j' = j then m # waiting c' j else waiting c' j')" for j'
    using q by (simp add: waiting_def in_hand_def f)
  show ?thesis
  proof (rule mig_invI)
    show "x \<in> set (lanes c' i' 0 j') \<Longrightarrow> safe_msg G c' x" for i' j' x
      using mig_invD(3) [OF inv, of x i' j'] res(3) [of x] q mono safe_msg_mono [of G c x c']
      by (auto simp: l msgs_to_def split: if_splits)
    show "x \<in> set (in_hand c' j' @ work_queue c' j') \<Longrightarrow> safe_msg G c' x" for j' x
      using mig_invD(4) [OF inv, of x j'] mono safe_msg_mono [of G c x c'] by (simp add: f in_hand_def)
    show "r \<in> set (migmsg_queue c' j') \<Longrightarrow> safe_msg G c' (Mig r)" for j' r
      using mig_invD(5) [OF inv, of r j'] mono safe_msg_mono [of G c "Mig r" c'] q by (auto simp: f split: if_splits)
    show "minipart_entry (tables (nodes c' k)) p m' = Inr (d, s) \<Longrightarrow> complete G c' d p m'" for k p m' d s
    proof -
      assume a: "minipart_entry (tables (nodes c' k)) p m' = Inr (d, s)"
      obtain s0 where "minipart_entry (tables (nodes c k)) p m' = Inr (d, s0)"
        using a res(2) [of p m' d s] q by (cases "k = j") (auto simp: f)
      then have "complete G c d p m'" by (rule mig_invD(7) [OF inv])
      then show ?thesis using mono [of d] by (auto simp: complete_def)
    qed
    show "in_order G j' (present c' j') (waiting c' j' @ migs (lanes c' i' 0 j'))" if "j' < g_node_cnt G" for i' j'
    proof -
      have o: "in_order G j' (present c' j') (waiting c' j' @ migs (lanes c i' 0 j'))"
        using mig_invD(6) [OF inv that, of i'] w [of j'] by (simp add: P split: if_splits)
      then show ?thesis using res(4) q by (auto simp: l in_order_append)
    qed
  qed (use mig_invD(1,2) [OF inv] l in \<open>auto simp: f\<close>)
qed

lemma write_inv:
  assumes inv: "mig_inv G c" and s: "txn_write G j k v c = Some c'"
  shows "mig_inv G c'"
proof -
  have k: "k \<in> dom (rows (nodes c j))" and c': "c' = set_node j ((nodes c j)\<lparr>rows := (rows (nodes c j))(k \<mapsto> v)\<rparr>) c"
    using s by (auto simp: txn_write_def split: if_splits)
  have p: "present c' = present c" by (rule ext) (use k in \<open>auto simp: c' present_def\<close>)
  have t: "tables (nodes c' n) = tables (nodes c n)" for n by (simp add: c')
  have f: "lanes c' = lanes c" "work_queue c' = work_queue c" "hands c' = hands c" "migmsg_queue c' = migmsg_queue c" by (simp_all add: c')
  show ?thesis using inv by (simp add: mig_inv_def waiting_def in_hand_def f p t safe_cong [OF p] complete_cong [OF p])
qed

lemma mig_step_inv:
  assumes "mig_inv G c" "mig_step G e c = Some c'" "g_thread_cnt G = 1" "g_send_thread_cnt G = 1" "0 < g_part_cnt G"
  shows "mig_inv G c'"
  using assms by (cases e) (auto intro: deliver_inv take_inv handle_inv migrate_inv write_inv)

lemma mig_run_inv:
  assumes "mig_inv G c" "mig_run G es c = Some c'" "g_thread_cnt G = 1" "g_send_thread_cnt G = 1" "0 < g_part_cnt G"
  shows "mig_inv G c'"
  using assms(1,2)
proof (induction es arbitrary: c)
  case (Cons e es)
  then obtain c1 where "mig_step G e c = Some c1" "mig_run G es c1 = Some c'" by (auto split: option.splits)
  then show ?case using Cons.IH mig_step_inv [OF Cons.prems(1) _ assms(3-5)] by blast
qed simp

section \<open>The start\<close>

lemma init_entry:
  assumes "minipart_entry (tables (nodes (cluster_init G rs) n)) p m = Inr (d, s)"
  shows "d = p mod g_node_cnt G" "p < g_part_cnt G" "m < g_part_split_cnt G"
  using assms unfolding minipart_entry_Inr by (auto simp: cluster_init_def minipart_map_init_def)

lemma init_complete:
  assumes ok: "part_cfg_ok (pcfg G)" and e: "minipart_entry (tables (nodes (cluster_init G (init_rows G)) n)) p m = Inr (d, s)"
  shows "complete G (cluster_init G (init_rows G)) d p m"
proof -
  note i = init_entry [OF e]
  have "k \<in> present (cluster_init G (init_rows G)) d" if k: "k \<in> minipart_keys (pcfg G) p m" for k
  proof -
    have p: "key_to_part (pcfg G) k = p" using minipart_of_key [OF ok, of p k m] i k by simp
    have a: "k mod g_part_cnt G = p" using p ok by (simp add: key_to_part_def part_cfg_ok_def)
    have "k < g_part_cnt G * (g_synth_table_size G div g_part_cnt G)" using minipart_keys_bound [OF ok _ _ k] i by simp
    moreover have "d < g_node_cnt G" using i(1) ok by (simp add: part_cfg_ok_def)
    ultimately show ?thesis using a i(1) by (simp add: present_def cluster_init_def init_rows_def dom_def)
  qed
  then show ?thesis by (auto simp: complete_def)
qed

lemma start_inv:
  assumes "part_cfg_ok (pcfg G)"
  shows "mig_inv G (start G client src des part (cluster_init G (init_rows G)))"
proof -
  let ?i = "cluster_init G (init_rows G)" and ?c = "start G client src des part (cluster_init G (init_rows G))"
  have f: "nodes ?c = nodes ?i" "work_queue ?c = (\<lambda>j. [])" "hands ?c = (\<lambda>j w. None)" "migmsg_queue ?c = (\<lambda>j. [])"
    by (simp_all add: start_def msg_enqueue_def cluster_init_def)
  have l: "lanes ?c i l j = (if i = client \<and> l = 0 \<and> j = src then [Mig (start_message G src des part)] else [])" for i l j
    by (simp add: start_def msg_enqueue_def cluster_init_def)
  have p: "present ?c = present ?i" by (rule ext) (simp add: present_def f)
  show ?thesis
  proof (rule mig_invI)
    show "minipart_entry (tables (nodes ?c n)) p' m = Inr (d, s) \<Longrightarrow> complete G ?c d p' m" for n p' m d s
      using init_complete [OF assms] unfolding f complete_cong [OF p] by blast
    show "in_order G j (present ?c j) (waiting ?c j @ migs (lanes ?c i 0 j))" for i j
      by (simp add: waiting_def in_hand_def f l start_message_def)
  qed (auto simp: f l in_hand_def start_message_def split: if_splits)
qed

section \<open>Examples\<close>

text \<open>
  Two servers and a client, two partitions of four keys, two mini-partitions each, one row in a chunk.
  Partition 0 moves from node 0 to node 1.
\<close>

definition ex_mig :: "nat \<Rightarrow> mig_cfg" where
  "ex_mig workers = \<lparr>g_node_cnt = 2, g_client_node_cnt = 1, g_part_cnt = 2, g_part_split_cnt = 2, g_synth_table_size = 8, g_part_alloc = True,
     MSG_CHUNK_SIZE = 16, MAX_TUPLE_SIZE = 1, g_thread_cnt = workers, g_send_thread_cnt = 1\<rparr>"

definition ex_start :: "nat \<Rightarrow> cluster" where
  "ex_start workers = start (ex_mig workers) 2 0 1 0 (cluster_init (ex_mig workers) (init_rows (ex_mig workers)))"

text \<open>The source sends the first mini-partition.\<close>

definition ex_send :: "event list" where
  "ex_send = [Deliver 2 0 0, Take 0 0, Handle 0 0, Migrate 0 [0, 0], Deliver 0 0 1, Deliver 0 0 1]"

text \<open>The destination reports the end, and the source tells the others.\<close>

definition ex_finish :: "event list" where
  "ex_finish = [Deliver 1 0 0, Take 0 0, Handle 0 0, Migrate 0 [0, 0, 0, 0], Deliver 0 0 2]"

definition ex_in_order :: "event list" where
  "ex_in_order = ex_send @ [Take 1 0, Handle 1 0, Take 1 0, Handle 1 0, Migrate 1 [], Migrate 1 [0]] @ ex_finish"


text \<open>Where the client looks for key 0, and what node 1 has there.\<close>

definition ex_view :: "nat \<Rightarrow> event list \<Rightarrow> (nat result \<times> string option) option" where
  "ex_view workers es = map_option (\<lambda>c. (get_key_node_id (pcfg (ex_mig workers)) (tables (nodes c 2)) 0, rows (nodes c 1) 0))
     (mig_run (ex_mig workers) es (ex_start workers))"

lemma ex_view_run:
  "ex_view workers es = Some (v, r) \<Longrightarrow> \<exists>c. mig_run (ex_mig workers) es (ex_start workers) = Some c \<and>
    get_key_node_id (pcfg (ex_mig workers)) (tables (nodes c 2)) 0 = v \<and> rows (nodes c 1) 0 = r"
  by (auto simp: ex_view_def)

section \<open>Values\<close>

fun writes_at :: "nat \<Rightarrow> nat \<Rightarrow> event \<Rightarrow> bool" where
  "writes_at j k (Write i k' v) = (i = j \<and> k' = k)"
| "writes_at j k _ = False"

lemma recv_loop_values: "recv_loop G m key_ptr rs k = rs k \<or> recv_loop G m key_ptr rs k = Some ''hello''"
proof (induction G m key_ptr rs rule: recv_loop.induct)
  case (1 G m key_ptr rs)
  then show ?case by (subst (1 2) recv_loop.simps) (auto simp: fun_upd_def split: if_splits)
qed

lemma send_migration_rows: "process_send_migration G m n = Inr (n', out) \<Longrightarrow> rows n' = rows n"
  by (auto simp: process_send_migration_def bind_result_Inr_iff)

lemma migrate_thread_values:
  assumes "migrate_thread G j m n = Inr (n', out)"
  shows "rows n' k = rows n k \<or> rows n' k = Some ''hello''"
proof (cases "mig_rtype m")
  case SEND_MIGRATION
  then show ?thesis using assms send_migration_rows by (simp add: migrate_thread_def)
next
  case RECV_MIGRATION
  then have "rows n' = recv_loop G m (key_start m) (rows n)" using assms
    by (auto simp: migrate_thread_def process_recv_migration_def Let_def bind_result_Inr_iff split: if_splits)
  then show ?thesis using recv_loop_values by simp
next
  case FINISH_MIGRATION
  then have "rows n' = rows n" using assms send_migration_rows
    by (auto simp: migrate_thread_def process_finish_migration_def Let_def bind_result_Inr_iff split: if_splits)
  then show ?thesis by simp
qed

lemma enqueue_all_nodes: "enqueue_all i out ls c = Some c' \<Longrightarrow> nodes c' = nodes c"
  by (induction i out ls c rule: enqueue_all.induct) (simp_all add: msg_enqueue_def)

lemma mig_step_values:
  assumes "mig_step G e c = Some c'" "\<not> writes_at j k e"
  shows "rows (nodes c' j) k = rows (nodes c j) k \<or> rows (nodes c' j) k = Some ''hello''"
proof (cases e)
  case (Migrate i ls)
  then obtain m n out where "migrate_thread G i m (nodes c i) = Inr (n, out)" "nodes c' = (nodes c)(i := n)"
    using assms(1) by (auto simp: migrate_def split: list.splits sum.splits if_splits dest!: enqueue_all_nodes)
  then show ?thesis using migrate_thread_values [of G i m "nodes c i" n out k] by simp
qed (use assms in \<open>auto simp: deliver_def take_msg_def handle_msg_def txn_write_def Let_def
       split: list.splits option.splits msg.splits sum.splits if_splits\<close>)

lemma mig_run_values:
  assumes "mig_run G es c = Some c'" "\<forall>e\<in>set es. \<not> writes_at j k e"
  shows "rows (nodes c' j) k = rows (nodes c j) k \<or> rows (nodes c' j) k = Some ''hello''"
  using assms
proof (induction es arbitrary: c)
  case (Cons e es)
  then obtain c1 where "mig_step G e c = Some c1" "mig_run G es c1 = Some c'" by (auto split: option.splits)
  with Cons mig_step_values [of G e c c1 j k] show ?case by fastforce
qed simp

section \<open>Properties\<close>

text \<open>
  Claim C2. During a migration every key stays reachable. With one worker and one sending thread for
  each node, after any sequence of deliveries, turns of the worker and migrate threads and writes of
  transactions: the node at which any server or client looks for a key has the row.
\<close>

theorem migration_routes_to_rows:
  assumes "part_cfg_ok (pcfg G)" "g_thread_cnt G = 1" "g_send_thread_cnt G = 1"
    and "mig_run G es (start G client src des part (cluster_init G (init_rows G))) = Some c"
    and "get_key_node_id (pcfg G) (tables (nodes c n)) k = Inr d"
  shows "k \<in> dom (rows (nodes c d))"
proof -
  have pos: "0 < g_part_cnt G" using assms(1) by (simp add: part_cfg_ok_def)
  have inv: "mig_inv G c" by (rule mig_run_inv [OF start_inv [OF assms(1)] assms(4,2,3) pos])
  let ?p = "key_to_part (pcfg G) k" and ?m = "get_minipart_id (pcfg G) k"
  obtain s where "minipart_entry (tables (nodes c n)) ?p ?m = Inr (d, s)"
    using assms(5) by (auto simp: get_key_node_id_def get_minipart_node_id_def bind_result_Inr_iff)
  then have "complete G c d ?p ?m" by (rule mig_invD(7) [OF inv])
  moreover have "k \<in> minipart_keys (pcfg G) ?p ?m"
    using minipart_of_key [OF assms(1), of ?p k ?m] pos by (simp add: key_to_part_def)
  ultimately show ?thesis by (auto simp: complete_def present_def)
qed

theorem migration_routes_to_rows_witness:
  "\<exists>c. mig_run (ex_mig 1) ex_in_order (ex_start 1) = Some c \<and> get_key_node_id (pcfg (ex_mig 1)) (tables (nodes c 2)) 0 = Inr 1 \<and>
    0 \<in> dom (rows (nodes c 1))"
proof -
  have "ex_view 1 ex_in_order = Some (Inr 1, Some ''hello'')" by code_simp
  then obtain c where c: "mig_run (ex_mig 1) ex_in_order (ex_start 1) = Some c"
    "get_key_node_id (pcfg (ex_mig 1)) (tables (nodes c 2)) 0 = Inr 1" using ex_view_run by blast
  moreover have "part_cfg_ok (pcfg (ex_mig 1))" "g_thread_cnt (ex_mig 1) = 1" "g_send_thread_cnt (ex_mig 1) = 1"
    by (simp_all add: part_cfg_ok_def g_minipart_size_def ex_mig_def part_cfg.defs)
  ultimately show ?thesis using migration_routes_to_rows [of "ex_mig 1" ex_in_order 2 0 1 0 c 2 0 1] by (simp add: ex_start_def)
qed


text \<open>
  Claim C37. A migration loses updates: values do not travel. Let a transaction write key \<open>k\<close> at node \<open>i\<close>;
  the write takes effect there. Whatever the nodes then do, in any order and with any number of
  threads, as long as no transaction writes \<open>k\<close> at node \<open>j\<close> itself, node \<open>j\<close> has for \<open>k\<close> what it had
  before the write, or the initial value of new rows: the destination of a migration never gets the
  new value.
\<close>

theorem migration_loses_update:
  assumes "mig_step G (Write i k v) c = Some c1" "i \<noteq> j"
    and "mig_run G es c1 = Some c2" "\<forall>e\<in>set es. \<not> writes_at j k e"
  shows "rows (nodes c1 i) k = Some v \<and>
    (rows (nodes c2 j) k = rows (nodes c j) k \<or> rows (nodes c2 j) k = Some ''hello'')"
proof -
  have "rows (nodes c1 i) k = Some v" "rows (nodes c1 j) k = rows (nodes c j) k"
    using assms(1,2) by (auto simp: txn_write_def split: if_splits)
  then show ?thesis using mig_run_values [OF assms(3,4)] by simp
qed

text \<open>The write of key 0 at node 0, then the migration: the client is sent to node 1 and finds the initial value.\<close>

theorem migration_loses_update_witness:
  "\<exists>c1 c2. mig_step (ex_mig 1) (Write 0 0 ''new'') (ex_start 1) = Some c1 \<and> rows (nodes c1 0) 0 = Some ''new'' \<and>
    mig_run (ex_mig 1) ex_in_order c1 = Some c2 \<and>
    get_key_node_id (pcfg (ex_mig 1)) (tables (nodes c2 2)) 0 = Inr 1 \<and> rows (nodes c2 1) 0 = Some ''hello''"
proof -
  have "ex_view 1 (Write 0 0 ''new'' # ex_in_order) = Some (Inr 1, Some ''hello'')" by code_simp
  then obtain c2 where "mig_run (ex_mig 1) (Write 0 0 ''new'' # ex_in_order) (ex_start 1) = Some c2"
    and c2: "get_key_node_id (pcfg (ex_mig 1)) (tables (nodes c2 2)) 0 = Inr 1" "rows (nodes c2 1) 0 = Some ''hello''"
    using ex_view_run by blast
  then obtain c1 where c1: "mig_step (ex_mig 1) (Write 0 0 ''new'') (ex_start 1) = Some c1"
    and run: "mig_run (ex_mig 1) ex_in_order c1 = Some c2"
    by (auto split: option.splits)
  have "\<forall>e\<in>set ex_in_order. \<not> writes_at 1 0 e" by code_simp
  from migration_loses_update [OF c1 _ run this] have "rows (nodes c1 0) 0 = Some ''new''" by simp
  with c1 run c2 show ?thesis by blast
qed

end
