(* ===== verification/MigrationSource.thy ===== *)
theory MigrationSource
imports MigrationSafe
begin

text \<open>
  The node that a partition leaves. It tells all other nodes where the mini-partitions are now, but
  does not change its own map, so it goes on to take the rows for its own.
\<close>

section \<open>Where messages are\<close>

text \<open>Messages that change the maps are never on the way to the source, and reports go to it only.\<close>

fun from_source :: "nat \<Rightarrow> nat \<Rightarrow> msg \<Rightarrow> bool" where
  "from_source src j (Mig r) \<longleftrightarrow> node_id_src r = src \<and> (mig_rtype r = FINISH_MIGRATION \<longrightarrow> j = src)"
| "from_source src j (SetPartMap p d s) \<longleftrightarrow> j \<noteq> src"
| "from_source src j (SetMiniPartMap p m d s) \<longleftrightarrow> j \<noteq> src"

definition same_nodes :: "part_tables \<Rightarrow> part_tables \<Rightarrow> bool" where
  "same_nodes t t' \<longleftrightarrow> (\<forall>p m. get_minipart_node_id t' p m = get_minipart_node_id t p m)"

definition source_inv :: "nat \<Rightarrow> part_tables \<Rightarrow> cluster \<Rightarrow> bool" where
  "source_inv src t0 c \<longleftrightarrow>
    (\<forall>i l j. list_all (from_source src j) (lanes c i l j)) \<and> (\<forall>j. list_all (from_source src j) (work_queue c j)) \<and>
    (\<forall>j w. pred_option (from_source src j) (hands c j w)) \<and> (\<forall>j. list_all (\<lambda>r. from_source src j (Mig r)) (migmsg_queue c j)) \<and>
    same_nodes t0 (tables (nodes c src))"

lemma same_nodes_trans: "same_nodes t t' \<Longrightarrow> same_nodes t' t'' \<Longrightarrow> same_nodes t t''"
  by (simp add: same_nodes_def)

lemma status_same_nodes: "update_minipart_map_status p m st t = Inr t' \<Longrightarrow> same_nodes t t'"
proof -
  assume "update_minipart_map_status p m st t = Inr t'"
  then obtain e where e: "minipart_entry t p m = Inr e" and t': "t' = put_minipart p m (fst e, st) t"
    by (auto simp: update_minipart_map_status_def bind_result_Inr_iff)
  then have "p < length (minipart_map t)" "m < length (minipart_map t ! p)" "e = minipart_map t ! p ! m"
    by (simp_all add: minipart_entry_Inr)
  then show ?thesis
    by (auto simp: same_nodes_def get_minipart_node_id_def minipart_entry_def at_def t' put_minipart_def nth_list_update)
qed

lemma part_same_nodes: "update_part_map_status p st t = Inr t' \<Longrightarrow> same_nodes t t'"
  by (auto simp: update_part_map_status_def bind_result_Inr_iff same_nodes_def get_minipart_node_id_def)

lemma mark_same_nodes: "mark_migrating m t = Inr t' \<Longrightarrow> same_nodes t t'"
  unfolding mark_migrating_def bind_result_Inr_iff using status_same_nodes part_same_nodes same_nodes_trans by blast

lemma send_loop_source:
  assumes "send_loop G rs m msg1 key_ptr = Inr ms" "case msg1 of None \<Rightarrow> True | Some m1 \<Rightarrow> node_id_src m1 = node_id_src m"
  shows "list_all (\<lambda>c. node_id_src c = node_id_src m \<and> mig_rtype c = RECV_MIGRATION) ms"
  using assms
proof (induction G rs m msg1 key_ptr arbitrary: ms rule: send_loop.induct)
  case (1 G rs m msg1 key_ptr)
  note IH = "1.IH" and prems = "1.prems"
  show ?case
  proof (cases "key_ptr \<le> key_end m \<and> 0 < g_part_cnt G")
    case False
    then show ?thesis using prems(1) by (subst (asm) send_loop.simps) auto
  next
    case True
    define m1 where "m1 = (case msg1 of None \<Rightarrow> new_chunk m key_ptr | Some m1 \<Rightarrow> m1)"
    obtain r where r: "rs key_ptr = Some r" using prems(1) True by (subst (asm) send_loop.simps) (auto simp: Let_def split: option.splits)
    define m2 where "m2 = add_row r m1"
    define m3 where "m3 = close_chunk m key_ptr m2"
    have s: "node_id_src m1 = node_id_src m" "node_id_src m2 = node_id_src m" "node_id_src m3 = node_id_src m" "mig_rtype m3 = RECV_MIGRATION"
      using prems(2) by (simp_all add: m1_def m2_def m3_def new_chunk_def add_row_def close_chunk_def split: option.splits)
    have e: "send_loop G rs m msg1 key_ptr =
      (if data_size m2 \<ge> msg_num G \<or> key_ptr = key_end m then
         if key_ptr = key_end m then Inr [m3]
         else bind_result (send_loop G rs m None (key_ptr + g_part_cnt G)) (\<lambda>ms. Inr (m3 # ms))
       else send_loop G rs m (Some m2) (key_ptr + g_part_cnt G))"
      using True r by (subst send_loop.simps) (simp add: m3_def m2_def m1_def Let_def)
    show ?thesis
      using prems(1) [unfolded e] s IH(1) [OF True m1_def r m2_def _ m3_def] IH(2) [OF True m1_def r m2_def]
      by (auto simp: bind_result_Inr_iff split: if_splits)
  qed
qed

section \<open>The steps\<close>

lemma source_invI:
  assumes "\<And>i l j. list_all (from_source src j) (lanes c i l j)" "\<And>j. list_all (from_source src j) (work_queue c j)"
    and "\<And>j w. pred_option (from_source src j) (hands c j w)" "\<And>j. list_all (\<lambda>r. from_source src j (Mig r)) (migmsg_queue c j)"
    and "same_nodes t0 (tables (nodes c src))"
  shows "source_inv src t0 c"
  using assms by (simp add: source_inv_def)

lemma source_invD:
  assumes "source_inv src t0 c"
  shows "list_all (from_source src j) (lanes c i l j)" "list_all (from_source src j) (work_queue c j)"
    "pred_option (from_source src j) (hands c j w)" "list_all (\<lambda>r. from_source src j (Mig r)) (migmsg_queue c j)"
    "same_nodes t0 (tables (nodes c src))"
  using assms by (simp_all add: source_inv_def)

lemma process_set_source: "from_source src src x \<Longrightarrow> process_set x t = Inr t' \<Longrightarrow> t' = t"
  by (cases x) auto

lemma deliver_source:
  assumes "source_inv src t0 c" "deliver G i l j c = Some c'" shows "source_inv src t0 c'"
proof -
  note inv = source_invD [OF assms(1)]
  obtain x xs where q: "lanes c i l j = x # xs" using assms(2) by (auto simp: deliver_def split: list.splits)
  have x: "from_source src j x" "list_all (from_source src j) xs" using inv(1) [of j i l] q by simp_all
  show ?thesis
  proof (cases "j < g_node_cnt G")
    case True
    then show ?thesis using assms(2) q x inv by (intro source_invI) (auto simp: deliver_def)
  next
    case False
    then obtain t where t: "process_set x (tables (nodes c j)) = Inr t"
      and c': "c' = set_node j ((nodes c j)\<lparr>tables := t\<rparr>) (c\<lparr>lanes := (lanes c)(i := (lanes c i)(l := (lanes c i l)(j := xs)))\<rparr>)"
      using assms(2) q by (auto simp: deliver_def split: sum.splits)
    have "j = src \<Longrightarrow> t = tables (nodes c src)" using process_set_source x(1) t by blast
    then show ?thesis using c' x inv by (intro source_invI) (auto simp: set_node_def)
  qed
qed

lemma take_source:
  assumes "source_inv src t0 c" "take_msg G j w c = Some c'" shows "source_inv src t0 c'"
proof -
  note inv = source_invD [OF assms(1)]
  obtain x xs where q: "work_queue c j = x # xs"
    and c': "c' = c\<lparr>work_queue := (work_queue c)(j := xs), hands := (hands c)(j := (hands c j)(w := Some x))\<rparr>"
    using assms(2) by (auto simp: take_msg_def split: list.splits if_splits)
  have "from_source src j x" "list_all (from_source src j) xs" using inv(2) [of j] q by simp_all
  then show ?thesis using inv c' by (intro source_invI) auto
qed

lemma handle_source:
  assumes "source_inv src t0 c" "handle_msg G j w c = Some c'" shows "source_inv src t0 c'"
proof -
  note inv = source_invD [OF assms(1)]
  obtain x where h: "hands c j w = Some x" using assms(2) by (auto simp: handle_msg_def split: option.splits)
  have x: "from_source src j x" using inv(3) [of j w] h by simp
  define c1 where "c1 = c\<lparr>hands := (hands c)(j := (hands c j)(w := None))\<rparr>"
  consider m where "x = Mig m" "c' = c1\<lparr>migmsg_queue := (migmsg_queue c)(j := migmsg_queue c j @ [m])\<rparr>"
    | t where "process_set x (tables (nodes c j)) = Inr t" "c' = set_node j ((nodes c j)\<lparr>tables := t\<rparr>) c1"
    using assms(2) h by (cases x) (auto simp: handle_msg_def Let_def c1_def split: sum.splits)
  then show ?thesis
  proof cases
    case 1
    then show ?thesis using x inv by (intro source_invI) (auto simp: c1_def)
  next
    case 2
    have "j = src \<Longrightarrow> t = tables (nodes c src)" using process_set_source x 2(1) by blast
    then show ?thesis using 2 inv by (intro source_invI) (auto simp: set_node_def c1_def)
  qed
qed

lemma process_send_source:
  assumes "process_send_migration G m n = Inr (n', out)"
  shows "same_nodes (tables n) (tables n') \<and> (\<forall>(j, x)\<in>set out. from_source (node_id_src m) j x)"
proof -
  obtain t t' ms where *: "mark_migrating m (tables n) = Inr t" "mark_migrating m t = Inr t'"
    "send_loop G (rows n) (m\<lparr>isdata := False\<rparr>) None (key_start m) = Inr ms"
    "n' = n\<lparr>tables := t'\<rparr>" "out = map (\<lambda>c. (node_id_des c, Mig c)) ms"
    using assms by (auto simp: process_send_migration_def bind_result_Inr_iff)
  have "same_nodes (tables n) t'" using *(1,2) mark_same_nodes same_nodes_trans by blast
  then show ?thesis using send_loop_source [OF *(3)] *(4,5) by (auto simp: list_all_iff)
qed

lemma migrate_thread_source:
  assumes "migrate_thread G j m n = Inr (n', out)" "from_source src j (Mig m)"
  shows "same_nodes (tables n) (tables n') \<and> (\<forall>(i, x)\<in>set out. from_source src i x)"
proof (cases "mig_rtype m")
  case SEND_MIGRATION
  then show ?thesis using assms process_send_source [of G m n n' out] by (auto simp: migrate_thread_def)
next
  case RECV_MIGRATION
  then show ?thesis using assms mark_same_nodes
    by (auto simp: migrate_thread_def process_recv_migration_def bind_result_Inr_iff Let_def same_nodes_def split: if_splits)
next
  case FINISH_MIGRATION
  then have f: "process_finish_migration G src m n = Inr (n', out)" "node_id_src m = src"
    using assms by (simp_all add: migrate_thread_def)
  have o: "\<forall>(i, x)\<in>set (to_others G src (SetMiniPartMap p k d s)). from_source src i x"
      "\<forall>(i, x)\<in>set (to_others G src (SetPartMap p d s)). from_source src i x" for p k d s by (auto simp: to_others_def)
  have s: "node_id_src (next_minipart G m mini) = src" for mini using f(2) by (simp add: next_minipart_def)
  show ?thesis
  proof (cases "mig_ord m = g_part_split_cnt G - 1")
    case True
    then have "n' = n" "out = to_others G src (SetMiniPartMap (part_id m) (minipart_id m) (node_id_des m) 2) @
        to_others G src (SetPartMap (part_id m) (node_id_des m) 2)"
      using f(1) by (auto simp: process_finish_migration_def bind_result_Inr_iff Let_def)
    then show ?thesis using o by (simp add: same_nodes_def ball_Un)
  next
    case False
    then obtain mini out' where "process_send_migration G (next_minipart G m mini) n = Inr (n', out')"
      "out = to_others G src (SetMiniPartMap (part_id m) (minipart_id m) (node_id_des m) 2) @ out'"
      using f(1) by (auto simp: process_finish_migration_def bind_result_Inr_iff Let_def)
    then show ?thesis using process_send_source [of G "next_minipart G m mini" n n' out'] s o(1) by (simp add: ball_Un)
  qed
qed

lemma enqueue_all_source:
  "enqueue_all i out ls c = Some c' \<Longrightarrow> source_inv src t0 c \<Longrightarrow> \<forall>(j, x)\<in>set out. from_source src j x \<Longrightarrow> source_inv src t0 c'"
proof (induction i out ls c rule: enqueue_all.induct)
  case (2 i j x xs l ls c)
  have "source_inv src t0 (msg_enqueue i l j x c)"
    using 2(3,4) by (auto simp: source_inv_def msg_enqueue_def)
  then show ?case using 2 by simp
qed auto

lemma migrate_source:
  assumes "source_inv src t0 c" "migrate G j ls c = Some c'" shows "source_inv src t0 c'"
proof -
  note inv = source_invD [OF assms(1)]
  obtain m ms n out where q: "migmsg_queue c j = m # ms" "migrate_thread G j m (nodes c j) = Inr (n, out)"
    and e: "enqueue_all j out ls (set_node j n (c\<lparr>migmsg_queue := (migmsg_queue c)(j := ms)\<rparr>)) = Some c'"
    using assms(2) by (auto simp: migrate_def split: list.splits sum.splits if_splits)
  have m: "from_source src j (Mig m)" "list_all (\<lambda>r. from_source src j (Mig r)) ms" using inv(4) [of j] q(1) by simp_all
  note r = migrate_thread_source [OF q(2) m(1)]
  have "source_inv src t0 (set_node j n (c\<lparr>migmsg_queue := (migmsg_queue c)(j := ms)\<rparr>))"
    using inv m(2) r same_nodes_trans [OF inv(5)] by (intro source_invI) (auto simp: set_node_def)
  then show ?thesis using enqueue_all_source [OF e] r by blast
qed

lemma write_source: "source_inv src t0 c \<Longrightarrow> txn_write G j k v c = Some c' \<Longrightarrow> source_inv src t0 c'"
  by (auto simp: txn_write_def source_inv_def set_node_def split: if_splits)

lemma mig_step_source: "source_inv src t0 c \<Longrightarrow> mig_step G e c = Some c' \<Longrightarrow> source_inv src t0 c'"
  by (cases e) (auto intro: deliver_source take_source handle_source migrate_source write_source)

lemma mig_run_source: "source_inv src t0 c \<Longrightarrow> mig_run G es c = Some c' \<Longrightarrow> source_inv src t0 c'"
  by (induction es arbitrary: c) (auto split: option.splits dest: mig_step_source)

section \<open>Property\<close>

text \<open>
  Claim C38. The source of a migration never redirects. Whatever messages are delivered and processed, and with
  any number of workers and sending threads, it keeps looking for the keys of the migrated partition
  at the node where they were before, and so goes on to write to its own, old copy of the rows.
\<close>

theorem source_never_redirects:
  assumes "mig_run G es (start G client src des part (cluster_init G rs)) = Some c"
  shows "get_key_node_id (pcfg G) (tables (nodes c src)) k =
    get_key_node_id (pcfg G) (tables (nodes (cluster_init G rs) src)) k"
proof -
  have "source_inv src (tables (nodes (cluster_init G rs) src)) (start G client src des part (cluster_init G rs))"
    by (intro source_invI) (auto simp: start_def msg_enqueue_def cluster_init_def start_message_def same_nodes_def)
  from mig_run_source [OF this assms] show ?thesis
    by (simp add: source_inv_def same_nodes_def get_key_node_id_def)
qed

theorem source_never_redirects_witness:
  "\<exists>c. mig_run (ex_mig 1) ex_in_order (ex_start 1) = Some c \<and> get_key_node_id (pcfg (ex_mig 1)) (tables (nodes c 2)) 0 = Inr 1 \<and>
    get_key_node_id (pcfg (ex_mig 1)) (tables (nodes c 0)) 0 = Inr 0"
proof -
  have "ex_view 1 ex_in_order = Some (Inr 1, Some ''hello'')" by code_simp
  then obtain c where c: "mig_run (ex_mig 1) ex_in_order (ex_start 1) = Some c"
    "get_key_node_id (pcfg (ex_mig 1)) (tables (nodes c 2)) 0 = Inr 1" using ex_view_run by blast
  have "get_key_node_id (pcfg (ex_mig 1)) (tables (nodes (cluster_init (ex_mig 1) (init_rows (ex_mig 1))) 0)) 0 = Inr 0" by code_simp
  then show ?thesis using c source_never_redirects [of "ex_mig 1" ex_in_order 2 0 1 0 "init_rows (ex_mig 1)" c 0] by (simp add: ex_start_def)
qed

end
