(* ===== verification/TwoPhase.thy ===== *)
theory TwoPhase
imports MessageTypes Partition
begin

text \<open>
  The life of a distributed transaction: execution of its requests on the nodes that have the rows, two-phase
  commit, and the answer to the client (\<open>system/worker_thread.cpp\<close>, the control part of \<open>system/txn.cpp\<close>,
  and \<open>YCSBTxnManager\<close> of \<open>benchmarks/ycsb_txn.cpp\<close>), without logging.

  The model follows one attempt of one transaction through all nodes, up to the answer to the client or
  the entry into the abort queue. What the algorithms decide are parameters: whether \<open>get_row\<close> gives
  the row of a request, and whether \<open>validate\<close> succeeds on a node. A request that has to wait for a
  lock is answered later, which the order of deliveries covers. The node of a key does not change
  during the attempt.
\<close>

section \<open>State\<close>

record tp_cfg =
  tp_alg :: cc_alg
  tp_home :: nat
  tp_readonly :: bool
  tp_requests :: "nat list"
  tp_get_row :: "nat \<Rightarrow> bool"
  tp_validate :: "nat \<Rightarrow> bool"
  tp_part_node :: "nat \<Rightarrow> nat"

text \<open>
  The transaction manager of a node. \<open>tp_requests\<close> is the node of each request's key, \<open>tp_part_node\<close> is
  \<open>get_part_node_id\<close>. The partition number that stands for a node (\<open>GET_PART_ID\<close>) is the node's number.
\<close>

record tman =
  txn_rc :: RC
  rsp_cnt :: int
  aborted :: bool
  partitions_touched :: "nat list"
  next_record_id :: nat

datatype tp_msg = Rqry "nat list" | RqryRsp RC | Rprepare | RackPrep RC | Rfin RC bool | RackFin RC

text \<open>
  \<open>releases s n\<close> are the calls of \<open>release_locks\<close> on node \<open>n\<close>, each with its argument; \<open>wire\<close> are the messages on
  the way, with sender and receiver; \<open>answer\<close> is \<open>Commit\<close> when the client has its response, \<open>Abort\<close> when the
  transaction is in the abort queue.
\<close>

record tp_state =
  mans :: "nat \<Rightarrow> tman"
  releases :: "nat \<Rightarrow> RC list"
  wire :: "(nat \<times> nat \<times> tp_msg) list"
  answer :: "RC option"

definition new_man :: tman where
  "new_man = \<lparr>txn_rc = RCOK, rsp_cnt = 0, aborted = False, partitions_touched = [], next_record_id = 0\<rparr>"

definition upd :: "nat \<Rightarrow> (tman \<Rightarrow> tman) \<Rightarrow> tp_state \<Rightarrow> tp_state" where
  "upd n f s = s\<lparr>mans := (mans s)(n := f (mans s n))\<rparr>"

definition send :: "nat \<Rightarrow> nat \<Rightarrow> tp_msg \<Rightarrow> tp_state \<Rightarrow> tp_state" where
  "send src dest m s = s\<lparr>wire := wire s @ [(src, dest, m)]\<rparr>"

definition add_unique :: "nat \<Rightarrow> nat list \<Rightarrow> nat list" where
  "add_unique x xs = (if x \<in> set xs then xs else xs @ [x])"

section \<open>TxnManager\<close>

definition release_locks :: "nat \<Rightarrow> RC \<Rightarrow> tp_state \<Rightarrow> tp_state" where
  "release_locks n rc s = s\<lparr>releases := (releases s)(n := releases s n @ [rc])\<rparr>"

definition txn_commit :: "nat \<Rightarrow> tp_state \<Rightarrow> tp_state" where
  "txn_commit n s = release_locks n RCOK s"

definition txn_abort :: "nat \<Rightarrow> tp_state \<Rightarrow> tp_state" where
  "txn_abort n s = (if aborted (mans s n) then s
     else release_locks n Abort (upd n (\<lambda>m. m\<lparr>txn_rc := Abort, aborted := True\<rparr>) s))"

definition txn_reset :: "nat \<Rightarrow> tp_state \<Rightarrow> tp_state" where
  "txn_reset n = upd n (\<lambda>m. m\<lparr>txn_rc := RCOK, rsp_cnt := 0, aborted := False, next_record_id := 0\<rparr>)"

definition reset_query :: "nat \<Rightarrow> tp_state \<Rightarrow> tp_state" where
  "reset_query n = upd n (\<lambda>m. m\<lparr>partitions_touched := []\<rparr>)"

text \<open>Messages to all touched partitions that are not on the home node, and the number of answers to wait for.\<close>

definition send_to_touched :: "tp_cfg \<Rightarrow> tp_msg \<Rightarrow> tp_state \<Rightarrow> tp_state" where
  "send_to_touched C x s =
    (let h = tp_home C; T = partitions_touched (mans s h);
         s1 = upd h (\<lambda>m. m\<lparr>rsp_cnt := int (length T) - 1\<rparr>) s
     in s1\<lparr>wire := wire s1 @ map (\<lambda>p. (h, tp_part_node C p, x)) (filter (\<lambda>p. tp_part_node C p \<noteq> h) T)\<rparr>)"

definition send_prepare_messages :: "tp_cfg \<Rightarrow> tp_state \<Rightarrow> tp_state" where
  "send_prepare_messages C = send_to_touched C Rprepare"

definition send_finish_messages :: "tp_cfg \<Rightarrow> tp_state \<Rightarrow> tp_state" where
  "send_finish_messages C s = send_to_touched C (Rfin (txn_rc (mans s (tp_home C))) (tp_readonly C)) s"

definition is_multi_part :: "tp_cfg \<Rightarrow> tp_state \<Rightarrow> bool" where
  "is_multi_part C s \<longleftrightarrow> length (partitions_touched (mans s (tp_home C))) > 1"

definition start_abort :: "tp_cfg \<Rightarrow> tp_state \<Rightarrow> RC \<times> tp_state" where
  "start_abort C s =
    (let h = tp_home C; s1 = upd h (\<lambda>m. m\<lparr>txn_rc := Abort\<rparr>) s in
     (Abort, txn_abort h (if is_multi_part C s then send_finish_messages C s1 else s1)))"

definition needs_prepare :: "tp_cfg \<Rightarrow> bool" where
  "needs_prepare C \<longleftrightarrow> \<not> tp_readonly C \<or> tp_alg C \<in> {ALG_OCC, ALG_MAAT, ALG_DLI_BASE, ALG_DLI_OCC, ALG_SILO, ALG_BOCC, ALG_SSI}"

definition start_commit :: "tp_cfg \<Rightarrow> tp_state \<Rightarrow> RC \<times> tp_state" where
  "start_commit C s =
    (let h = tp_home C in
     if is_multi_part C s then
       if tp_alg C = ALG_TICTOC then (if tp_validate C h then (WAIT_REM, send_prepare_messages C s) else (Abort, s))
       else if needs_prepare C then (WAIT_REM, send_prepare_messages C s)
       else (WAIT_REM, upd h (\<lambda>m. m\<lparr>rsp_cnt := 0\<rparr>) (send_finish_messages C s))
     else if tp_validate C h then (Commit, txn_commit h s)
     else (Abort, txn_abort h (upd h (\<lambda>m. m\<lparr>txn_rc := Abort\<rparr>) s)))"

definition received_response :: "RC \<Rightarrow> tman \<Rightarrow> tman result" where
  "received_response rc m =
    bind_result (assert_that (txn_rc m = RCOK \<or> txn_rc m = Abort)) (\<lambda>_.
      Inr (m\<lparr>txn_rc := (if txn_rc m = RCOK then rc else txn_rc m), rsp_cnt := (if rsp_cnt m > 0 then rsp_cnt m - 1 else rsp_cnt m)\<rparr>))"

section \<open>YCSBTxnManager\<close>

text \<open>A request for another node takes all directly following requests for that node with it.\<close>

definition group_end :: "tp_cfg \<Rightarrow> nat \<Rightarrow> nat" where
  "group_end C i = i + length (takeWhile (\<lambda>d. d = tp_requests C ! i) (drop i (tp_requests C)))"

definition send_remote_request :: "tp_cfg \<Rightarrow> tp_state \<Rightarrow> RC \<times> tp_state" where
  "send_remote_request C s =
    (let h = tp_home C; i = next_record_id (mans s h); d = tp_requests C ! i; j = group_end C i in
     (WAIT_REM, send h d (Rqry [i..<j])
        (upd h (\<lambda>m. m\<lparr>partitions_touched := add_unique d (partitions_touched m), next_record_id := j\<rparr>) s)))"

function run_loop :: "tp_cfg \<Rightarrow> tp_state \<Rightarrow> RC \<times> tp_state" where
  "run_loop C s =
    (let h = tp_home C; i = next_record_id (mans s h) in
     if i \<ge> length (tp_requests C) then start_commit C s
     else if tp_requests C ! i = h then
       (if tp_get_row C i then run_loop C (upd h (\<lambda>m. m\<lparr>next_record_id := i + 1\<rparr>) s) else start_abort C s)
     else send_remote_request C s)"
  by pat_completeness auto
termination
  by (relation "measure (\<lambda>(C, s). length (tp_requests C) - next_record_id (mans s (tp_home C)))") (auto simp: upd_def)

declare run_loop.simps [simp del]

definition run_txn :: "tp_cfg \<Rightarrow> tp_state \<Rightarrow> RC \<times> tp_state" where
  "run_txn C s =
    (let h = tp_home C in
     run_loop C (if next_record_id (mans s h) = 0
       then upd h (\<lambda>m. m\<lparr>partitions_touched := add_unique h (partitions_touched m)\<rparr>) s else s))"

section \<open>WorkerThread\<close>

definition worker_commit :: "tp_cfg \<Rightarrow> tp_state \<Rightarrow> tp_state" where
  "worker_commit C s = (upd (tp_home C) (\<lambda>_. new_man) s)\<lparr>answer := Some Commit\<rparr>"

definition worker_abort :: "tp_cfg \<Rightarrow> tp_state \<Rightarrow> tp_state" where
  "worker_abort C s = (txn_reset (tp_home C) s)\<lparr>answer := Some Abort\<rparr>"

definition check_if_done :: "tp_cfg \<Rightarrow> RC \<times> tp_state \<Rightarrow> tp_state" where
  "check_if_done C rs = (case rs of (rc, s) \<Rightarrow>
     if rsp_cnt (mans s (tp_home C)) > 0 then s
     else if rc = Commit then worker_commit C s
     else if rc = Abort then worker_abort C s else s)"

definition process_rtxn :: "tp_cfg \<Rightarrow> tp_state \<Rightarrow> tp_state" where
  "process_rtxn C s = check_if_done C (run_txn C s)"

definition process_rqry :: "tp_cfg \<Rightarrow> nat \<Rightarrow> nat \<Rightarrow> nat list \<Rightarrow> tp_state \<Rightarrow> tp_state result" where
  "process_rqry C src n idxs s =
    (if n = tp_home C then Inr (snd (start_abort C s))
     else let s1 = (if list_all (tp_get_row C) idxs then s else txn_abort n s)
          in Inr (send n src (RqryRsp (txn_rc (mans s1 n))) s1))"

definition process_rqry_rsp :: "tp_cfg \<Rightarrow> nat \<Rightarrow> RC \<Rightarrow> tp_state \<Rightarrow> tp_state result" where
  "process_rqry_rsp C n rc s =
    bind_result (assert_that (n = tp_home C)) (\<lambda>_.
      Inr (if rc = Abort then snd (start_abort C s) else check_if_done C (run_txn C s)))"

definition process_rprepare :: "tp_cfg \<Rightarrow> nat \<Rightarrow> nat \<Rightarrow> tp_state \<Rightarrow> tp_state result" where
  "process_rprepare C src n s =
    (let rc = (if tp_validate C n then RCOK else Abort);
         s1 = upd n (\<lambda>m. m\<lparr>txn_rc := rc\<rparr>) s;
         s2 = send n src (RackPrep (txn_rc (mans s1 n))) s1
     in Inr (if rc = Abort then txn_abort n s2 else s2))"

definition process_rack_prep :: "tp_cfg \<Rightarrow> nat \<Rightarrow> RC \<Rightarrow> tp_state \<Rightarrow> tp_state result" where
  "process_rack_prep C n ack s =
    bind_result (received_response ack (mans s n)) (\<lambda>m.
    bind_result (assert_that (rsp_cnt m \<ge> 0)) (\<lambda>_.
      let s1 = upd n (\<lambda>_. m) s in
      if rsp_cnt m > 0 then Inr s1
      else
        let rc = (if txn_rc m = RCOK \<and> tp_alg C \<noteq> ALG_TICTOC \<and> \<not> tp_validate C n then Abort else RCOK);
            fail = (rc = Abort \<or> txn_rc m = Abort);
            s2 = (if fail then upd n (\<lambda>m. m\<lparr>txn_rc := Abort\<rparr>) s1 else s1);
            s3 = send_finish_messages C s2
        in Inr (if fail then txn_abort n s3 else txn_commit n s3)))"

definition acks_finish :: "cc_alg \<Rightarrow> bool \<Rightarrow> bool" where
  "acks_finish alg ro \<longleftrightarrow> \<not> ro \<or> alg \<in> {ALG_MAAT, ALG_OCC, ALG_TICTOC, ALG_BOCC, ALG_SSI, ALG_DLI_BASE, ALG_DLI_OCC, ALG_SILO}"

definition process_rfin :: "tp_cfg \<Rightarrow> nat \<Rightarrow> RC \<Rightarrow> bool \<Rightarrow> tp_state \<Rightarrow> tp_state result" where
  "process_rfin C n rc ro s =
    bind_result (assert_that (n \<noteq> tp_home C)) (\<lambda>_.
      if rc = Abort then
        let s1 = reset_query n (txn_reset n (txn_abort n s))
        in Inr (send n (tp_home C) (RackFin (txn_rc (mans s1 n))) s1)
      else
        let s1 = txn_commit n s;
            s2 = (if acks_finish (tp_alg C) ro then send n (tp_home C) (RackFin (txn_rc (mans s1 n))) s1 else s1)
        in Inr (upd n (\<lambda>_. new_man) s2))"

definition process_rack_rfin :: "tp_cfg \<Rightarrow> nat \<Rightarrow> RC \<Rightarrow> tp_state \<Rightarrow> tp_state result" where
  "process_rack_rfin C n ack s =
    bind_result (received_response ack (mans s n)) (\<lambda>m.
      let s1 = upd n (\<lambda>_. m) s in
      Inr (if rsp_cnt m > 0 then s1 else if txn_rc m = RCOK then worker_commit C s1 else worker_abort C s1))"

fun tp_process :: "tp_cfg \<Rightarrow> nat \<times> nat \<times> tp_msg \<Rightarrow> tp_state \<Rightarrow> tp_state result" where
  "tp_process C (src, n, Rqry idxs) s = process_rqry C src n idxs s"
| "tp_process C (src, n, RqryRsp rc) s = process_rqry_rsp C n rc s"
| "tp_process C (src, n, Rprepare) s = process_rprepare C src n s"
| "tp_process C (src, n, RackPrep rc) s = process_rack_prep C n rc s"
| "tp_process C (src, n, Rfin rc ro) s = process_rfin C n rc ro s"
| "tp_process C (src, n, RackFin rc) s = process_rack_rfin C n rc s"

section \<open>Runs\<close>

text \<open>Any message on the way may be the next one that a worker processes.\<close>

definition tp_deliver :: "tp_cfg \<Rightarrow> nat \<Rightarrow> tp_state \<Rightarrow> tp_state result" where
  "tp_deliver C k s =
    (if k < length (wire s) then tp_process C (wire s ! k) (s\<lparr>wire := take k (wire s) @ drop (Suc k) (wire s)\<rparr>)
     else Inl Out_of_bounds)"

inductive tp_step :: "tp_cfg \<Rightarrow> tp_state \<Rightarrow> tp_state \<Rightarrow> bool" for C where
  deliver: "k < length (wire s) \<Longrightarrow> tp_deliver C k s = Inr s' \<Longrightarrow> tp_step C s s'"

definition tp_start :: "tp_cfg \<Rightarrow> tp_state" where
  "tp_start C = process_rtxn C \<lparr>mans = (\<lambda>_. new_man), releases = (\<lambda>_. []), wire = [], answer = None\<rparr>"

end
