(* ===== verification/TwoPhaseInv.thy ===== *)
theory TwoPhaseInv
imports TwoPhase
begin

text \<open>
  The invariant of a distributed transaction, by the phase of its home node (running requests, waiting for
  the votes, waiting for the acknowledgements, over), with a number that bounds the messages still to come;
  and that the home node establishes it whenever it goes on with its requests.
\<close>

section \<open>What operations change\<close>

lemma upd_simps [simp]:
  "mans (upd n f s) = (mans s)(n := f (mans s n))" "releases (upd n f s) = releases s" "wire (upd n f s) = wire s" "answer (upd n f s) = answer s"
  by (simp_all add: upd_def)

lemma send_simps [simp]:
  "mans (send a b x s) = mans s" "releases (send a b x s) = releases s" "wire (send a b x s) = wire s @ [(a, b, x)]" "answer (send a b x s) = answer s"
  by (simp_all add: send_def)

lemma release_locks_simps [simp]:
  "mans (release_locks n rc s) = mans s" "releases (release_locks n rc s) = (releases s)(n := releases s n @ [rc])"
  "wire (release_locks n rc s) = wire s" "answer (release_locks n rc s) = answer s"
  by (simp_all add: release_locks_def)

lemma txn_commit_simps [simp]:
  "mans (txn_commit n s) = mans s" "releases (txn_commit n s) = (releases s)(n := releases s n @ [RCOK])"
  "wire (txn_commit n s) = wire s" "answer (txn_commit n s) = answer s"
  by (simp_all add: txn_commit_def)

lemma txn_abort_simps [simp]:
  "mans (txn_abort n s) = (if aborted (mans s n) then mans s else (mans s)(n := (mans s n)\<lparr>txn_rc := Abort, aborted := True\<rparr>))"
  "releases (txn_abort n s) = (if aborted (mans s n) then releases s else (releases s)(n := releases s n @ [Abort]))"
  "wire (txn_abort n s) = wire s" "answer (txn_abort n s) = answer s"
  by (simp_all add: txn_abort_def)

section \<open>The invariant\<close>

definition tp_ok :: "tp_cfg \<Rightarrow> bool" where
  "tp_ok C \<longleftrightarrow> tp_alg C \<noteq> ALG_TICTOC \<and> needs_prepare C \<and> list_all (\<lambda>p. tp_part_node C p = p) (tp_home C # tp_requests C)"

lemma tp_okI: "tp_alg C \<noteq> ALG_TICTOC \<Longrightarrow> needs_prepare C \<Longrightarrow> list_all (\<lambda>p. tp_part_node C p = p) (tp_home C # tp_requests C) \<Longrightarrow> tp_ok C"
  by (simp add: tp_ok_def)

definition all_nodes :: "tp_cfg \<Rightarrow> nat set" where
  "all_nodes C = insert (tp_home C) (set (tp_requests C))"

definition rows_ok :: "tp_cfg \<Rightarrow> bool" where
  "rows_ok C \<longleftrightarrow> (\<forall>k<length (tp_requests C). tp_get_row C k)"

definition remote :: "tp_cfg \<Rightarrow> tp_state \<Rightarrow> nat list" where
  "remote C s = filter (\<lambda>p. p \<noteq> tp_home C) (partitions_touched (mans s (tp_home C)))"

definition touched_ok :: "tp_cfg \<Rightarrow> tp_state \<Rightarrow> bool" where
  "touched_ok C s \<longleftrightarrow> (let T = partitions_touched (mans s (tp_home C)) in distinct T \<and> tp_home C \<in> set T \<and> set T \<subseteq> all_nodes C)"

text \<open>A participant that has done nothing irrevocable, and one that has aborted.\<close>

definition clean :: "tp_state \<Rightarrow> nat \<Rightarrow> bool" where
  "clean s n \<longleftrightarrow> txn_rc (mans s n) = RCOK \<and> \<not> aborted (mans s n) \<and> releases s n = []"

definition failed :: "tp_state \<Rightarrow> nat \<Rightarrow> bool" where
  "failed s n \<longleftrightarrow> aborted (mans s n) \<and> releases s n = [Abort]"

fun peer :: "nat \<Rightarrow> nat \<times> nat \<times> tp_msg \<Rightarrow> nat" where
  "peer h (a, b, x) = (if a = h then b else a)"

text \<open>The home node waits for the rows of a request.\<close>

definition home_runs :: "tp_cfg \<Rightarrow> tp_state \<Rightarrow> bool" where
  "home_runs C s \<longleftrightarrow> (let h = tp_home C in clean s h \<and> rsp_cnt (mans s h) = 0 \<and> answer s = None \<and> touched_ok C s \<and>
     next_record_id (mans s h) \<le> length (tp_requests C) \<and>
     (\<forall>k<next_record_id (mans s h). tp_requests C ! k \<in> set (partitions_touched (mans s h))))"

definition got_rows :: "tp_cfg \<Rightarrow> tp_state \<Rightarrow> bool" where
  "got_rows C s \<longleftrightarrow> (\<forall>k<next_record_id (mans s (tp_home C)). tp_get_row C k)"

definition exec_inv :: "tp_cfg \<Rightarrow> tp_state \<Rightarrow> bool" where
  "exec_inv C s \<longleftrightarrow> home_runs C s \<and> (\<exists>d\<in>set (remote C s).
     (\<exists>i. wire s = [(tp_home C, d, Rqry [i..<next_record_id (mans s (tp_home C))])] \<and> (\<forall>n. clean s n) \<and> (\<forall>k<i. tp_get_row C k)) \<or>
     wire s = [(d, tp_home C, RqryRsp RCOK)] \<and> (\<forall>n. clean s n) \<and> got_rows C s \<or>
     wire s = [(d, tp_home C, RqryRsp Abort)] \<and> failed s d \<and> (\<forall>n. n \<noteq> d \<longrightarrow> clean s n))"

text \<open>It waits for the answers to the prepare messages.\<close>

definition prep_msg :: "tp_cfg \<Rightarrow> tp_state \<Rightarrow> nat \<times> nat \<times> tp_msg \<Rightarrow> bool" where
  "prep_msg C s x \<longleftrightarrow> (\<exists>n\<in>set (remote C s).
     x = (tp_home C, n, Rprepare) \<and> clean s n \<or>
     x = (n, tp_home C, RackPrep RCOK) \<and> clean s n \<and> tp_validate C n \<or>
     x = (n, tp_home C, RackPrep Abort) \<and> failed s n)"

definition waits :: "tp_cfg \<Rightarrow> tp_state \<Rightarrow> bool" where
  "waits C s \<longleftrightarrow> answer s = None \<and> touched_ok C s \<and> rsp_cnt (mans s (tp_home C)) = int (length (wire s)) \<and> wire s \<noteq> [] \<and>
     distinct (map (peer (tp_home C)) (wire s))"

definition prep_inv :: "tp_cfg \<Rightarrow> tp_state \<Rightarrow> bool" where
  "prep_inv C s \<longleftrightarrow> (let h = tp_home C in waits C s \<and> rows_ok C \<and> all_nodes C \<subseteq> set (partitions_touched (mans s h)) \<and>
     \<not> aborted (mans s h) \<and> releases s h = [] \<and> txn_rc (mans s h) \<in> {RCOK, Abort} \<and>
     list_all (prep_msg C s) (wire s) \<and>
     (\<forall>n\<in>set (remote C s) - peer h ` set (wire s). clean s n \<and> tp_validate C n \<or> failed s n \<and> txn_rc (mans s h) = Abort) \<and>
     (\<forall>n. n \<notin> all_nodes C \<longrightarrow> clean s n))"

text \<open>It has decided and waits for the acknowledgements.\<close>

definition fin_msg :: "tp_cfg \<Rightarrow> RC \<Rightarrow> tp_state \<Rightarrow> nat \<times> nat \<times> tp_msg \<Rightarrow> bool" where
  "fin_msg C D s x \<longleftrightarrow> (\<exists>n\<in>set (remote C s).
     x = (tp_home C, n, Rfin D (tp_readonly C)) \<and> (clean s n \<or> D = Abort \<and> failed s n) \<or>
     x = (n, tp_home C, RackFin RCOK) \<and> releases s n = [D])"

definition may_commit :: "tp_cfg \<Rightarrow> nat set \<Rightarrow> bool" where
  "may_commit C T \<longleftrightarrow> rows_ok C \<and> (\<forall>n\<in>all_nodes C. tp_validate C n) \<and> all_nodes C \<subseteq> T"

definition fin_inv :: "tp_cfg \<Rightarrow> RC \<Rightarrow> tp_state \<Rightarrow> bool" where
  "fin_inv C D s \<longleftrightarrow> (let h = tp_home C; T = set (partitions_touched (mans s h)) in
     D \<in> {RCOK, Abort} \<and> waits C s \<and> txn_rc (mans s h) = D \<and> releases s h = [D] \<and> list_all (fin_msg C D s) (wire s) \<and>
     (\<forall>n\<in>set (remote C s) - peer h ` set (wire s). releases s n = [D]) \<and> (\<forall>n. n \<notin> T \<longrightarrow> releases s n = []) \<and>
     (D = RCOK \<longrightarrow> may_commit C T))"

definition done_inv :: "tp_cfg \<Rightarrow> RC \<Rightarrow> tp_state \<Rightarrow> bool" where
  "done_inv C D s \<longleftrightarrow> D \<in> {RCOK, Abort} \<and> wire s = [] \<and> answer s = Some (if D = RCOK then Commit else Abort) \<and>
     (\<exists>T. tp_home C \<in> T \<and> T \<subseteq> all_nodes C \<and> (\<forall>n. releases s n = (if n \<in> T then [D] else [])) \<and> (D = RCOK \<longrightarrow> may_commit C T) \<and>
       (D = Abort \<longrightarrow> T = set (partitions_touched (mans s (tp_home C)))))"

definition tp_inv :: "tp_cfg \<Rightarrow> tp_state \<Rightarrow> bool" where
  "tp_inv C s \<longleftrightarrow> exec_inv C s \<or> prep_inv C s \<or> (\<exists>D. fin_inv C D s \<or> done_inv C D s)"

text \<open>A number that every delivery makes smaller.\<close>

fun weight :: "nat \<times> nat \<times> tp_msg \<Rightarrow> nat" where
  "weight (a, b, Rqry is') = 2"
| "weight (a, b, RqryRsp rc) = 1"
| "weight (a, b, Rprepare) = 2"
| "weight (a, b, RackPrep rc) = 1"
| "weight (a, b, Rfin rc ro) = 2"
| "weight (a, b, RackFin rc) = 1"

definition tp_rank :: "tp_cfg \<Rightarrow> tp_state \<Rightarrow> nat" where
  "tp_rank C s = (let h = tp_home C; L = length (tp_requests C) in sum_list (map weight (wire s)) +
     (if releases s h \<noteq> [] then 0
      else if rsp_cnt (mans s h) > 0 then 2 * length (remote C s)
      else 2 * (L - next_record_id (mans s h)) + 4 * L))"

section \<open>Sending to all participants\<close>

lemma remote_set: "touched_ok C s \<Longrightarrow> set (remote C s) = set (partitions_touched (mans s (tp_home C))) - {tp_home C}"
  by (auto simp: remote_def)

lemma remote_length:
  assumes "touched_ok C s" shows "length (partitions_touched (mans s (tp_home C))) = Suc (length (remote C s))"
proof -
  let ?h = "tp_home C" and ?T = "partitions_touched (mans s (tp_home C))"
  have d: "distinct ?T" "?h \<in> set ?T" using assms by (simp_all add: touched_ok_def Let_def)
  then have "card (set ?T) = Suc (card (set ?T - {?h}))" by (metis List.finite_set card.remove)
  moreover have "set (remote C s) = set ?T - {?h}" "distinct (remote C s)" using d by (auto simp: remote_def)
  ultimately show ?thesis using d(1) by (metis distinct_card)
qed

lemma remote_bound:
  assumes "touched_ok C s" shows "length (remote C s) \<le> length (tp_requests C)"
proof -
  have "distinct (remote C s)" "set (remote C s) \<subseteq> set (tp_requests C)"
    using assms by (auto simp: remote_def touched_ok_def Let_def all_nodes_def)
  then have "length (remote C s) \<le> card (set (tp_requests C))" by (metis List.finite_set card_mono distinct_card)
  then show ?thesis using card_length [of "tp_requests C"] by linarith
qed

lemma part_node_ok: "tp_ok C \<Longrightarrow> p \<in> all_nodes C \<Longrightarrow> tp_part_node C p = p"
  by (auto simp: tp_ok_def all_nodes_def list_all_iff)

lemma send_to_touched_eq:
  assumes "tp_ok C" "touched_ok C s"
  shows "send_to_touched C x s = (upd (tp_home C) (\<lambda>m. m\<lparr>rsp_cnt := int (length (remote C s))\<rparr>) s)\<lparr>wire := wire s @ map (\<lambda>p. (tp_home C, p, x)) (remote C s)\<rparr>"
proof -
  let ?T = "partitions_touched (mans s (tp_home C))"
  have p: "p \<in> set ?T \<Longrightarrow> tp_part_node C p = p" for p using assms part_node_ok by (auto simp: touched_ok_def Let_def)
  then have "filter (\<lambda>p. tp_part_node C p \<noteq> tp_home C) ?T = remote C s" unfolding remote_def by (intro filter_cong) auto
  moreover have "map (\<lambda>p. (tp_home C, tp_part_node C p, x)) (remote C s) = map (\<lambda>p. (tp_home C, p, x)) (remote C s)"
    using p by (intro map_cong) (auto simp: remote_def)
  ultimately show ?thesis using remote_length [OF assms(2)] by (simp add: send_to_touched_def Let_def)
qed

lemma peer_comp [simp]: "peer h \<circ> (\<lambda>p. (h, p, x)) = id"
  by (simp add: fun_eq_iff)

lemma weight_map: "(\<And>p. weight (h, p, x) = w) \<Longrightarrow> sum_list (map weight (map (\<lambda>p. (h, p, x)) ps)) = w * length ps"
  by (induction ps) simp_all

lemma waits_after_send:
  assumes "tp_ok C" "touched_ok C s" "wire s = []" "answer s = None" "remote C s \<noteq> []"
  shows "waits C (send_to_touched C x s)"
  using assms by (auto simp: send_to_touched_eq waits_def touched_ok_def Let_def remote_def)

lemma remote_send: "tp_ok C \<Longrightarrow> touched_ok C s \<Longrightarrow> remote C (send_to_touched C x s) = remote C s"
  by (simp add: send_to_touched_eq remote_def)

lemma all_touched:
  assumes "home_runs C s" "next_record_id (mans s (tp_home C)) = length (tp_requests C)"
  shows "all_nodes C \<subseteq> set (partitions_touched (mans s (tp_home C)))"
proof
  fix n assume "n \<in> all_nodes C"
  then consider "n = tp_home C" | k where "k < length (tp_requests C)" "n = tp_requests C ! k" by (auto simp: all_nodes_def in_set_conv_nth)
  then show "n \<in> set (partitions_touched (mans s (tp_home C)))"
    using assms by cases (auto simp: home_runs_def Let_def touched_ok_def)
qed

lemma start_prep:
  assumes ok: "tp_ok C" and runs: "home_runs C s" "got_rows C s" "wire s = []" "\<forall>n. clean s n"
    and "next_record_id (mans s (tp_home C)) = length (tp_requests C)" "remote C s \<noteq> []"
  shows "prep_inv C (send_prepare_messages C s)"
proof -
  let ?h = "tp_home C" and ?s = "send_prepare_messages C s"
  have t: "touched_ok C s" "answer s = None" using runs(1) by (simp_all add: home_runs_def Let_def)
  note e = send_to_touched_eq [OF ok t(1), of Rprepare, folded send_prepare_messages_def]
  have w: "waits C ?s" "remote C ?s = remote C s" using waits_after_send [OF ok t(1) runs(3) t(2) assms(7)] remote_send [OF ok t(1)] by (simp_all add: send_prepare_messages_def)
  note all_touched [OF runs(1) assms(6)]
  moreover have "list_all (prep_msg C ?s) (wire ?s)"
    using runs(3,4) w(2) by (auto simp: e list_all_iff prep_msg_def remote_def clean_def)
  moreover have "set (remote C ?s) \<subseteq> peer ?h ` set (wire ?s)"
    using w(2) runs(3) by (auto simp: e image_image)
  ultimately show ?thesis using w runs assms(6)
    by (auto simp: prep_inv_def Let_def e rows_ok_def got_rows_def clean_def)
qed

lemma start_abort_multi:
  assumes ok: "tp_ok C" and t: "touched_ok C s" "answer s = None" "wire s = []" "remote C s \<noteq> []"
    and h: "\<not> aborted (mans s (tp_home C))" "releases s (tp_home C) = []"
    and p: "\<forall>n. n \<noteq> tp_home C \<longrightarrow> clean s n \<or> n \<in> set (remote C s) \<and> failed s n"
  shows "fin_inv C Abort (snd (start_abort C s))"
proof -
  let ?h = "tp_home C" and ?s = "snd (start_abort C s)"
  define s1 where "s1 = upd ?h (\<lambda>m. m\<lparr>txn_rc := Abort\<rparr>) s"
  have t1: "touched_ok C s1" "remote C s1 = remote C s" "wire s1 = []" "answer s1 = None" using t by (simp_all add: s1_def touched_ok_def remote_def)
  have m: "is_multi_part C s" using remote_length [OF t(1)] t(4) by (cases "remote C s") (simp_all add: is_multi_part_def)
  define s2 where "s2 = send_finish_messages C s1"
  have e: "s2 = (upd ?h (\<lambda>m. m\<lparr>rsp_cnt := int (length (remote C s))\<rparr>) s1)\<lparr>wire := map (\<lambda>p. (?h, p, Rfin Abort (tp_readonly C))) (remote C s)\<rparr>"
    using send_to_touched_eq [OF ok t1(1)] t1 by (simp add: s2_def send_finish_messages_def s1_def)
  have s: "?s = txn_abort ?h s2" using m by (simp add: start_abort_def Let_def s2_def s1_def)
  have r: "remote C ?s = remote C s" "touched_ok C ?s" using t by (simp_all add: s e s1_def remote_def touched_ok_def)
  have "waits C ?s" using t r by (auto simp: waits_def s e s1_def remote_def touched_ok_def Let_def)
  moreover have "list_all (fin_msg C Abort ?s) (wire ?s)"
    using p r(1) by (auto simp: s e s1_def list_all_iff fin_msg_def clean_def failed_def remote_def)
  moreover have "set (remote C ?s) \<subseteq> peer ?h ` set (wire ?s)" using r(1) by (auto simp: s e image_image)
  moreover have "releases s n = []" if "n \<notin> set (partitions_touched (mans s ?h))" for n
  proof -
    have "n \<noteq> ?h" "n \<notin> set (remote C s)" using that t(1) by (auto simp: touched_ok_def Let_def remote_def)
    then show ?thesis using p by (auto simp: clean_def)
  qed
  ultimately show ?thesis using h t(1) by (auto simp: fin_inv_def Let_def s e s1_def touched_ok_def)
qed

lemma home_only:
  assumes "touched_ok C s" "remote C s = []" shows "set (partitions_touched (mans s (tp_home C))) = {tp_home C}" "\<not> is_multi_part C s"
  using remote_set [OF assms(1)] remote_length [OF assms(1)] assms by (auto simp: touched_ok_def Let_def is_multi_part_def)

lemma start_abort_single:
  assumes t: "touched_ok C s" "answer s = None" "wire s = []" "remote C s = []" and r: "rsp_cnt (mans s (tp_home C)) = 0" and c: "\<forall>n. clean s n"
  shows "done_inv C Abort (check_if_done C (start_abort C s))"
proof -
  have "\<not> is_multi_part C s" "set (partitions_touched (mans s (tp_home C))) = {tp_home C}" using home_only [OF t(1,4)] by simp_all
  then show ?thesis using t r c
    by (auto simp: done_inv_def start_abort_def Let_def check_if_done_def worker_abort_def txn_reset_def clean_def all_nodes_def
        intro!: exI [of _ "{tp_home C}"])
qed

lemma start_commit_single:
  assumes "home_runs C s" "got_rows C s" "wire s = []" "\<forall>n. clean s n" "remote C s = []"
    and "next_record_id (mans s (tp_home C)) = length (tp_requests C)"
  shows "\<exists>D. done_inv C D (check_if_done C (start_commit C s))"
proof -
  let ?h = "tp_home C"
  have t: "touched_ok C s" "answer s = None" "rsp_cnt (mans s ?h) = 0" using assms(1) by (simp_all add: home_runs_def Let_def)
  note o = home_only [OF t(1) assms(5)]
  have a: "all_nodes C \<subseteq> {?h}" using all_touched [OF assms(1,6)] o(1) by simp
  show ?thesis
  proof (cases "tp_validate C ?h")
    case True
    then have "may_commit C {?h}" using assms(2,6) a by (auto simp: may_commit_def rows_ok_def got_rows_def)
    then have "done_inv C RCOK (check_if_done C (start_commit C s))" using True t o(2) assms(3,4)
      by (auto simp: done_inv_def start_commit_def Let_def check_if_done_def worker_commit_def clean_def all_nodes_def intro!: exI [of _ "{?h}"])
    then show ?thesis by blast
  next
    case False
    then have "done_inv C Abort (check_if_done C (start_commit C s))" using t o assms(3,4)
      by (auto simp: done_inv_def start_commit_def Let_def check_if_done_def worker_abort_def txn_reset_def clean_def all_nodes_def intro!: exI [of _ "{?h}"])
    then show ?thesis by blast
  qed
qed

section \<open>Execution\<close>

lemma rank_done: "done_inv C D s \<Longrightarrow> tp_rank C s = 0"
  by (auto simp: done_inv_def tp_rank_def Let_def)

lemma rank_prepared:
  assumes "tp_ok C" "touched_ok C s" "wire s = []" "remote C s \<noteq> []" "releases s (tp_home C) = []"
  shows "tp_rank C (send_prepare_messages C s) = 4 * length (remote C s)"
proof -
  have "remote C (send_prepare_messages C s) = remote C s" using remote_send [OF assms(1,2)] by (simp add: send_prepare_messages_def)
  then show ?thesis using assms weight_map [of "tp_home C" Rprepare 2 "remote C s"]
    by (simp add: tp_rank_def Let_def send_prepare_messages_def send_to_touched_eq)
qed

lemma rank_start_abort:
  assumes "tp_ok C" "touched_ok C s" "wire s = []" "remote C s \<noteq> []" "\<not> aborted (mans s (tp_home C))"
  shows "tp_rank C (snd (start_abort C s)) = 2 * length (remote C s)"
proof -
  let ?s = "upd (tp_home C) (\<lambda>m. m\<lparr>txn_rc := Abort\<rparr>) s"
  have t: "touched_ok C ?s" "remote C ?s = remote C s" using assms(2) by (simp_all add: touched_ok_def remote_def)
  have "is_multi_part C s" using remote_length [OF assms(2)] assms(4) by (cases "remote C s") (simp_all add: is_multi_part_def)
  then show ?thesis using assms t weight_map [of "tp_home C" "Rfin Abort (tp_readonly C)" 2 "remote C s"]
    by (simp add: tp_rank_def Let_def start_abort_def send_finish_messages_def send_to_touched_eq)
qed

lemma done_waiting: "rsp_cnt (mans s (tp_home C)) > 0 \<Longrightarrow> check_if_done C (rc, s) = s"
  by (simp add: check_if_done_def)

lemma fin_waiting: "fin_inv C D s \<Longrightarrow> rsp_cnt (mans s (tp_home C)) > 0"
  by (simp add: fin_inv_def waits_def Let_def)

lemma prep_waiting: "prep_inv C s \<Longrightarrow> rsp_cnt (mans s (tp_home C)) > 0"
  by (simp add: prep_inv_def waits_def Let_def)

lemma group_end_gt: "i < length (tp_requests C) \<Longrightarrow> i < group_end C i"
  using Cons_nth_drop_Suc [of i "tp_requests C", symmetric] by (simp add: group_end_def)

lemma group_end_le: "i < length (tp_requests C) \<Longrightarrow> group_end C i \<le> length (tp_requests C)"
  using length_takeWhile_le [of "\<lambda>d. d = tp_requests C ! i" "drop i (tp_requests C)"] by (simp add: group_end_def)

lemma group_same:
  assumes "i \<le> k" "k < group_end C i" shows "tp_requests C ! k = tp_requests C ! i"
proof -
  let ?xs = "drop i (tp_requests C)" and ?P = "\<lambda>d. d = tp_requests C ! i"
  have k: "k - i < length (takeWhile ?P ?xs)" using assms by (simp add: group_end_def)
  then have "takeWhile ?P ?xs ! (k - i) = ?xs ! (k - i)" by (rule takeWhile_nth)
  moreover have "?P (takeWhile ?P ?xs ! (k - i))" using set_takeWhileD [OF nth_mem [OF k]] by simp
  moreover have "i + (k - i) < length (tp_requests C)" using k length_takeWhile_le [of ?P ?xs] by simp
  ultimately show ?thesis using assms(1) by (simp add: nth_drop)
qed

text \<open>The home node continues with all its participants untouched by failures.\<close>

definition running :: "tp_cfg \<Rightarrow> tp_state \<Rightarrow> bool" where
  "running C s \<longleftrightarrow> home_runs C s \<and> got_rows C s \<and> wire s = [] \<and> (\<forall>n. clean s n)"

definition good_result :: "tp_cfg \<Rightarrow> tp_state \<Rightarrow> tp_state \<Rightarrow> bool" where
  "good_result C s s' \<longleftrightarrow> tp_inv C s' \<and>
     tp_rank C s' \<le> 2 * (length (tp_requests C) - next_record_id (mans s (tp_home C))) + 4 * length (tp_requests C)"

lemma runningD:
  assumes "running C s"
  shows "home_runs C s" "got_rows C s" "wire s = []" "\<forall>n. clean s n" "touched_ok C s" "answer s = None" "rsp_cnt (mans s (tp_home C)) = 0"
    "next_record_id (mans s (tp_home C)) \<le> length (tp_requests C)" "\<not> aborted (mans s (tp_home C))" "releases s (tp_home C) = []"
  using assms by (simp_all add: running_def home_runs_def Let_def clean_def)

lemma multi_part: "touched_ok C s \<Longrightarrow> is_multi_part C s \<longleftrightarrow> remote C s \<noteq> []"
  using remote_length [of C s] by (cases "remote C s") (simp_all add: is_multi_part_def)

lemma run_commit:
  assumes ok: "tp_ok C" and run: "running C s" and i: "next_record_id (mans s (tp_home C)) = length (tp_requests C)"
  shows "good_result C s (check_if_done C (start_commit C s))"
proof (cases "remote C s = []")
  case True
  then show ?thesis using start_commit_single [OF runningD(1-4) [OF run] True i] rank_done by (fastforce simp: good_result_def tp_inv_def)
next
  case False
  note r = runningD [OF run]
  have p: "prep_inv C (send_prepare_messages C s)" by (rule start_prep [OF ok r(1-4) i False])
  have "check_if_done C (start_commit C s) = send_prepare_messages C s"
    using multi_part [OF r(5)] False ok prep_waiting [OF p] by (simp add: start_commit_def tp_ok_def Let_def done_waiting)
  then show ?thesis using p rank_prepared [OF ok r(5,3) False r(10)] remote_bound [OF r(5)] by (simp add: good_result_def tp_inv_def)
qed

lemma run_abort:
  assumes ok: "tp_ok C" and run: "running C s"
  shows "good_result C s (check_if_done C (start_abort C s))"
proof (cases "remote C s = []")
  case True
  then show ?thesis using start_abort_single [OF runningD(5,6,3) [OF run] True runningD(7,4) [OF run]] rank_done
    by (fastforce simp: good_result_def tp_inv_def)
next
  case False
  note r = runningD [OF run]
  have f: "fin_inv C Abort (snd (start_abort C s))"
    by (rule start_abort_multi [OF ok r(5,6,3) False r(9,10)]) (use r(4) in auto)
  have "check_if_done C (start_abort C s) = snd (start_abort C s)"
    using done_waiting [OF fin_waiting [OF f]] by (cases "start_abort C s") auto
  then show ?thesis using f rank_start_abort [OF ok r(5,3) False r(9)] remote_bound [OF r(5)] by (auto simp: good_result_def tp_inv_def)
qed

lemma run_remote:
  assumes run: "running C s" and less: "next_record_id (mans s (tp_home C)) < length (tp_requests C)"
    and away: "tp_requests C ! next_record_id (mans s (tp_home C)) \<noteq> tp_home C"
  shows "good_result C s (check_if_done C (send_remote_request C s))"
proof -
  let ?h = "tp_home C" and ?i = "next_record_id (mans s (tp_home C))" and ?L = "length (tp_requests C)"
  let ?d = "tp_requests C ! ?i" and ?j = "group_end C ?i"
  note r = runningD [OF run]
  define s' where "s' = send ?h ?d (Rqry [?i..<?j]) (upd ?h (\<lambda>m. m\<lparr>partitions_touched := add_unique ?d (partitions_touched m), next_record_id := ?j\<rparr>) s)"
  have e: "check_if_done C (send_remote_request C s) = s'" by (simp add: send_remote_request_def Let_def s'_def check_if_done_def)
  have j: "?i < ?j" "?j \<le> ?L" using group_end_gt group_end_le less by simp_all
  have "?d \<in> all_nodes C" using less by (simp add: all_nodes_def)
  then have t': "touched_ok C s'" using r(5) by (auto simp: touched_ok_def Let_def s'_def add_unique_def)
  have c: "\<forall>n. clean s' n" using r(4) by (simp add: clean_def s'_def)
  have d: "?d \<in> set (remote C s')" using away by (auto simp: remote_def s'_def add_unique_def)
  have "tp_requests C ! k \<in> set (partitions_touched (mans s' ?h))" if "k < ?j" for k
    using r(1) group_same [of ?i k C] that by (cases "k < ?i") (auto simp: home_runs_def Let_def s'_def add_unique_def)
  then have "home_runs C s'" using t' c r(6,7) j(2) by (auto simp: home_runs_def Let_def s'_def)
  moreover have "wire s' = [(?h, ?d, Rqry [?i..<next_record_id (mans s' ?h)])]" using r(3) by (simp add: s'_def)
  moreover have "\<forall>k<?i. tp_get_row C k" using r(2) by (simp add: got_rows_def)
  ultimately have "exec_inv C s'" using d c unfolding exec_inv_def by blast
  moreover have "tp_rank C s' \<le> 2 * (?L - ?i) + 4 * ?L" using r(3,7,10) j by (simp add: tp_rank_def Let_def s'_def)
  ultimately show ?thesis using e by (simp add: good_result_def tp_inv_def)
qed

lemma run_loop_result: "tp_ok C \<Longrightarrow> running C s \<Longrightarrow> good_result C s (check_if_done C (run_loop C s))"
proof (induction C s rule: run_loop.induct)
  case (1 C s)
  let ?h = "tp_home C" and ?i = "next_record_id (mans s (tp_home C))" and ?L = "length (tp_requests C)"
  let ?s = "upd ?h (\<lambda>m. m\<lparr>next_record_id := ?i + 1\<rparr>) s"
  note ok = "1.prems"(1) and run = "1.prems"(2)
  consider "?i \<ge> ?L" | "?i < ?L" "tp_requests C ! ?i = ?h" "tp_get_row C ?i" | "?i < ?L" "tp_requests C ! ?i = ?h" "\<not> tp_get_row C ?i"
    | "?i < ?L" "tp_requests C ! ?i \<noteq> ?h" by linarith
  then show ?case
  proof cases
    case 1
    then have "run_loop C s = start_commit C s" by (subst run_loop.simps) (simp add: Let_def)
    moreover have "?i = ?L" using 1 runningD(8) [OF run] by simp
    ultimately show ?thesis using run_commit [OF ok run] by simp
  next
    case 2
    have e: "run_loop C s = run_loop C ?s" using 2 by (subst run_loop.simps) (simp add: Let_def)
    have "running C ?s" using run 2
      by (auto simp: running_def home_runs_def Let_def clean_def touched_ok_def got_rows_def less_Suc_eq)
    then have "good_result C ?s (check_if_done C (run_loop C ?s))" using "1.IH" [OF refl refl] 2 ok by simp
    then show ?thesis using e by (auto simp: good_result_def)
  next
    case 3
    then have "run_loop C s = start_abort C s" by (subst run_loop.simps) (simp add: Let_def)
    then show ?thesis using run_abort [OF ok run] by simp
  next
    case 4
    then have "run_loop C s = send_remote_request C s" by (subst run_loop.simps) (simp add: Let_def)
    then show ?thesis using run_remote [OF run 4] by simp
  qed
qed

end
