(* ===== verification/TwoPhaseSafe.thy ===== *)
theory TwoPhaseSafe
imports TwoPhaseInv
begin

text \<open>
  Two-phase commit is atomic and ends: all nodes that release their locks do so with the same outcome, a
  commit means that every request and every validation succeeded, and after a bounded number of
  messages the client is answered or the transaction waits for its next attempt.
\<close>

section \<open>Deliveries\<close>

definition good_step :: "tp_cfg \<Rightarrow> tp_state \<Rightarrow> tp_state result \<Rightarrow> bool" where
  "good_step C s r \<longleftrightarrow> (\<exists>s'. r = Inr s' \<and> tp_inv C s' \<and> tp_rank C s' < tp_rank C s)"

lemma run_txn_again:
  assumes "touched_ok C s" shows "run_txn C s = run_loop C s"
proof -
  have "upd (tp_home C) (\<lambda>m. m\<lparr>partitions_touched := add_unique (tp_home C) (partitions_touched m)\<rparr>) s = s"
    using assms by (simp add: upd_def touched_ok_def Let_def add_unique_def fun_upd_idem)
  then show ?thesis by (simp add: run_txn_def Let_def)
qed

lemma rank_running:
  "releases s (tp_home C) = [] \<Longrightarrow> rsp_cnt (mans s (tp_home C)) = 0 \<Longrightarrow> tp_rank C s = sum_list (map weight (wire s)) +
    2 * (length (tp_requests C) - next_record_id (mans s (tp_home C))) + 4 * length (tp_requests C)"
  by (simp add: tp_rank_def Let_def)

lemma rqry_step:
  assumes "home_runs C s" "d \<in> set (remote C s)" "\<forall>n. clean s n" "\<forall>k<i. tp_get_row C k"
    and w: "wire s = [(tp_home C, d, Rqry [i..<next_record_id (mans s (tp_home C))])]"
  shows "good_step C s (process_rqry C (tp_home C) d [i..<next_record_id (mans s (tp_home C))] (s\<lparr>wire := []\<rparr>))"
proof -
  let ?h = "tp_home C" and ?is = "[i..<next_record_id (mans s (tp_home C))]" and ?s = "s\<lparr>wire := []\<rparr>"
  have d: "d \<noteq> ?h" using assms(2) by (simp add: remote_def)
  have h: "releases s ?h = []" "rsp_cnt (mans s ?h) = 0" "txn_rc (mans s d) = RCOK" "releases s d = []" "\<not> aborted (mans s d)"
    using assms(1,3) by (simp_all add: home_runs_def Let_def clean_def)
  define s' where "s' = (if list_all (tp_get_row C) ?is then send d ?h (RqryRsp RCOK) ?s else send d ?h (RqryRsp Abort) (txn_abort d ?s))"
  have e: "process_rqry C ?h d ?is ?s = Inr s'" using d h by (simp add: process_rqry_def s'_def)
  have m: "mans s' ?h = mans s ?h" "releases s' ?h = releases s ?h" "answer s' = answer s" using d h(5) by (simp_all add: s'_def)
  have r: "home_runs C s'" "d \<in> set (remote C s')" using assms(1,2) m by (simp_all add: home_runs_def Let_def clean_def touched_ok_def remote_def)
  have "exec_inv C s'"
  proof (cases "list_all (tp_get_row C) ?is")
    case True
    then have "got_rows C s'" using assms(4) m(1) by (auto simp: got_rows_def list_all_iff not_less)
    moreover have "\<forall>n. clean s' n" using True assms(3) by (simp add: s'_def clean_def)
    moreover have "wire s' = [(d, ?h, RqryRsp RCOK)]" using True by (simp add: s'_def)
    ultimately show ?thesis using r by (auto simp: exec_inv_def)
  next
    case False
    then have "failed s' d" "\<forall>n. n \<noteq> d \<longrightarrow> clean s' n" "wire s' = [(d, ?h, RqryRsp Abort)]"
      using assms(3) h(4,5) by (simp_all add: s'_def clean_def failed_def)
    then show ?thesis using r by (auto simp: exec_inv_def)
  qed
  moreover have "tp_rank C s' < tp_rank C s"
    using h(1,2) m w rank_running [of s C] rank_running [of s' C] by (simp add: s'_def split: if_splits)
  ultimately show ?thesis using e by (simp add: good_step_def tp_inv_def)
qed

lemma rqry_rsp_step:
  assumes ok: "tp_ok C" and runs: "home_runs C s" and "got_rows C s" "\<forall>n. clean s n" and w: "wire s = [(d, tp_home C, RqryRsp RCOK)]"
  shows "good_step C s (process_rqry_rsp C (tp_home C) RCOK (s\<lparr>wire := []\<rparr>))"
proof -
  let ?s = "s\<lparr>wire := []\<rparr>"
  have r: "running C ?s" using runs assms(3,4) by (simp add: running_def home_runs_def Let_def touched_ok_def got_rows_def clean_def)
  note t = runningD(5) [OF r]
  have "releases s (tp_home C) = []" "rsp_cnt (mans s (tp_home C)) = 0" using runs by (simp_all add: home_runs_def Let_def clean_def)
  then have "tp_rank C s = 1 + 2 * (length (tp_requests C) - next_record_id (mans s (tp_home C))) + 4 * length (tp_requests C)"
    using w rank_running [of s C] by simp
  then show ?thesis using run_loop_result [OF ok r] run_txn_again [OF t]
    by (simp add: good_step_def good_result_def process_rqry_rsp_def assert_that_def)
qed

lemma rqry_abort_step:
  assumes ok: "tp_ok C" and runs: "home_runs C s" and d: "d \<in> set (remote C s)" "failed s d" "\<forall>n. n \<noteq> d \<longrightarrow> clean s n"
    and w: "wire s = [(d, tp_home C, RqryRsp Abort)]"
  shows "good_step C s (process_rqry_rsp C (tp_home C) Abort (s\<lparr>wire := []\<rparr>))"
proof -
  let ?s = "s\<lparr>wire := []\<rparr>"
  have t: "touched_ok C ?s" "answer ?s = None" "wire ?s = []" using runs by (simp_all add: home_runs_def Let_def touched_ok_def)
  have h: "\<not> aborted (mans ?s (tp_home C))" "releases ?s (tp_home C) = []" "rsp_cnt (mans s (tp_home C)) = 0"
    using runs by (simp_all add: home_runs_def Let_def clean_def)
  have r: "remote C ?s = remote C s" by (simp add: remote_def)
  then have ne: "remote C ?s \<noteq> []" using d(1) by auto
  have "fin_inv C Abort (snd (start_abort C ?s))"
    by (rule start_abort_multi [OF ok t(1,2,3) ne h(1,2)]) (use d r in \<open>auto simp: clean_def failed_def\<close>)
  moreover have "tp_rank C (snd (start_abort C ?s)) \<le> 2 * length (tp_requests C)"
    using rank_start_abort [OF ok t(1,3) ne h(1)] remote_bound [OF t(1)] by simp
  moreover have "tp_rank C s \<ge> 1 + 4 * length (tp_requests C)" using h w rank_running [of s C] by simp
  ultimately show ?thesis by (auto simp: good_step_def process_rqry_rsp_def assert_that_def tp_inv_def)
qed

lemma exec_step:
  assumes "tp_ok C" "exec_inv C s" "wire s = xs @ m # ys"
  shows "good_step C s (tp_process C m (s\<lparr>wire := xs @ ys\<rparr>))"
proof -
  let ?h = "tp_home C" and ?n = "next_record_id (mans s (tp_home C))"
  obtain d where d: "home_runs C s" "d \<in> set (remote C s)"
    and c: "(\<exists>i. wire s = [(?h, d, Rqry [i..<?n])] \<and> (\<forall>n. clean s n) \<and> (\<forall>k<i. tp_get_row C k)) \<or>
      wire s = [(d, ?h, RqryRsp RCOK)] \<and> (\<forall>n. clean s n) \<and> got_rows C s \<or>
      wire s = [(d, ?h, RqryRsp Abort)] \<and> failed s d \<and> (\<forall>n. n \<noteq> d \<longrightarrow> clean s n)"
    using assms(2) by (auto simp: exec_inv_def)
  have one: "wire s = [x] \<Longrightarrow> xs = [] \<and> ys = [] \<and> m = x" for x using assms(3) by (cases xs) auto
  from c show ?thesis
  proof (elim disjE conjE exE)
    fix i assume w: "wire s = [(?h, d, Rqry [i..<?n])]" and "\<forall>n. clean s n" "\<forall>k<i. tp_get_row C k"
    then show ?thesis using rqry_step [OF d(1,2) _ _ w] one [OF w] by simp
  next
    assume w: "wire s = [(d, ?h, RqryRsp RCOK)]" and "\<forall>n. clean s n" "got_rows C s"
    then show ?thesis using rqry_rsp_step [OF assms(1) d(1) _ _ w] one [OF w] by simp
  next
    assume w: "wire s = [(d, ?h, RqryRsp Abort)]" and "failed s d" "\<forall>n. n \<noteq> d \<longrightarrow> clean s n"
    then show ?thesis using rqry_abort_step [OF assms(1) d(1,2) _ _ w] one [OF w] by simp
  qed
qed

text \<open>A participant changes only itself and answers the message it got.\<close>

definition answered :: "tp_cfg \<Rightarrow> nat \<Rightarrow> tp_state \<Rightarrow> tp_state \<Rightarrow> bool" where
  "answered C n s s' \<longleftrightarrow> n \<noteq> tp_home C \<and> (\<forall>k. k \<noteq> n \<longrightarrow> mans s' k = mans s k \<and> releases s' k = releases s k) \<and> answer s' = answer s"

lemma answered_home: "answered C n s s' \<Longrightarrow> mans s' (tp_home C) = mans s (tp_home C)"
  by (simp add: answered_def)

lemma answered_remote: "answered C n s s' \<Longrightarrow> remote C s' = remote C s"
  by (simp add: answered_def remote_def)

lemma answered_touched: "answered C n s s' \<Longrightarrow> touched_ok C s' = touched_ok C s"
  by (simp add: answered_def touched_ok_def)

lemma answered_clean: "answered C n s s' \<Longrightarrow> k \<noteq> n \<Longrightarrow> clean s' k = clean s k \<and> failed s' k = failed s k"
  by (simp add: answered_def clean_def failed_def)

lemma answered_waits:
  assumes "answered C n s s'" "waits C s" "wire s = xs @ m # ys" "wire s' = xs @ ys @ [m']"
    and "peer (tp_home C) m = n" "peer (tp_home C) m' = n"
  shows "waits C s'" "peer (tp_home C) ` set (wire s') = peer (tp_home C) ` set (wire s)" "n \<notin> peer (tp_home C) ` set (xs @ ys)"
  using assms answered_home [OF assms(1)] answered_touched [OF assms(1)]
  by (auto simp: waits_def answered_def)

lemma prep_msg_peer: "prep_msg C s x \<Longrightarrow> peer (tp_home C) x \<in> set (remote C s)"
  by (auto simp: prep_msg_def remote_def)

lemma prep_msg_frame: "prep_msg C s x \<Longrightarrow> answered C n s s' \<Longrightarrow> peer (tp_home C) x \<noteq> n \<Longrightarrow> prep_msg C s' x"
  unfolding prep_msg_def using answered_remote [of C n s s'] answered_clean [of C n s s']
  by (auto simp: remote_def)

lemma fin_msg_frame: "fin_msg C D s x \<Longrightarrow> answered C n s s' \<Longrightarrow> peer (tp_home C) x \<noteq> n \<Longrightarrow> fin_msg C D s' x"
  unfolding fin_msg_def using answered_remote [of C n s s'] answered_clean [of C n s s']
  by (auto simp: remote_def answered_def)

lemma prepare_step:
  assumes inv: "prep_inv C s" and w: "wire s = xs @ (tp_home C, n, Rprepare) # ys"
  shows "good_step C s (process_rprepare C (tp_home C) n (s\<lparr>wire := xs @ ys\<rparr>))"
proof -
  let ?h = "tp_home C" and ?s = "s\<lparr>wire := xs @ ys\<rparr>"
  have "prep_msg C s (?h, n, Rprepare)" using inv w by (simp add: prep_inv_def Let_def)
  then have n: "n \<in> set (remote C s)" "clean s n" "n \<noteq> ?h" by (auto simp: prep_msg_def remote_def)
  define rc where "rc = (if tp_validate C n then RCOK else Abort)"
  define s' where "s' = (if rc = Abort then txn_abort n (send n ?h (RackPrep rc) (upd n (\<lambda>m. m\<lparr>txn_rc := rc\<rparr>) ?s))
    else send n ?h (RackPrep rc) (upd n (\<lambda>m. m\<lparr>txn_rc := rc\<rparr>) ?s))"
  have e: "process_rprepare C ?h n ?s = Inr s'" by (simp add: process_rprepare_def Let_def s'_def rc_def)
  have a: "answered C n s s'" using n by (auto simp: answered_def s'_def clean_def)
  have w': "wire s' = xs @ ys @ [(n, ?h, RackPrep rc)]" by (simp add: s'_def)
  have wt: "waits C s" using inv by (simp add: prep_inv_def Let_def)
  note aw = answered_waits [OF a wt w w', simplified] and ah = answered_home [OF a] and ar = answered_remote [OF a]
  have "prep_msg C s' (n, ?h, RackPrep rc)"
    using n ar by (auto simp: prep_msg_def rc_def s'_def clean_def failed_def)
  moreover have "prep_msg C s' x" if "x \<in> set (xs @ ys)" for x
    using prep_msg_frame [OF _ a, of x] inv w aw(3) n(3) that by (auto simp: prep_inv_def Let_def list_all_iff)
  ultimately have "list_all (prep_msg C s') (wire s')" using w' by (auto simp: list_all_iff)
  moreover have "\<forall>k\<in>set (remote C s') - peer ?h ` set (wire s'). clean s' k \<and> tp_validate C k \<or> failed s' k \<and> txn_rc (mans s' ?h) = Abort"
    using inv answered_clean [OF a] ar ah aw(2) n(3) w by (auto simp: prep_inv_def Let_def)
  moreover have "clean s' k" if "k \<notin> all_nodes C" for k
  proof -
    have "k \<noteq> n" using n(1) inv that by (auto simp: prep_inv_def Let_def waits_def touched_ok_def remote_def)
    then show ?thesis using answered_clean [OF a] inv that by (simp add: prep_inv_def Let_def)
  qed
  ultimately have "prep_inv C s'" using inv aw(1) ah n(3) a by (auto simp: prep_inv_def Let_def answered_def)
  moreover have "releases s' ?h = releases s ?h" using a by (simp add: answered_def)
  then have "tp_rank C s' < tp_rank C s" using w w' ah ar by (simp add: tp_rank_def Let_def)
  ultimately show ?thesis using e by (simp add: good_step_def tp_inv_def)
qed

text \<open>An answer arrives at the home node.\<close>

lemma received_ok:
  "txn_rc m \<in> {RCOK, Abort} \<Longrightarrow> rsp_cnt m = int (Suc k) \<Longrightarrow>
    received_response rc m = Inr (m\<lparr>txn_rc := (if txn_rc m = RCOK then rc else txn_rc m), rsp_cnt := int k\<rparr>)"
  by (auto simp: received_response_def assert_that_def)

lemma waits_drop:
  assumes "waits C s" "wire s = xs @ m # ys" "xs @ ys \<noteq> []" "wire s' = xs @ ys" "answer s' = answer s"
    and "mans s' (tp_home C) = (mans s (tp_home C))\<lparr>txn_rc := rc, rsp_cnt := int (length (xs @ ys))\<rparr>"
  shows "waits C s'" "remote C s' = remote C s"
  using assms by (auto simp: waits_def touched_ok_def Let_def remote_def)

lemma prep_msg_same: "prep_msg C s x \<Longrightarrow> remote C s' = remote C s \<Longrightarrow> \<forall>k. k \<noteq> tp_home C \<longrightarrow> mans s' k = mans s k \<and> releases s' k = releases s k \<Longrightarrow> prep_msg C s' x"
  unfolding prep_msg_def by (auto simp: remote_def clean_def failed_def)

lemma fin_msg_same: "fin_msg C D s x \<Longrightarrow> remote C s' = remote C s \<Longrightarrow> \<forall>k. k \<noteq> tp_home C \<longrightarrow> mans s' k = mans s k \<and> releases s' k = releases s k \<Longrightarrow> fin_msg C D s' x"
  unfolding fin_msg_def by (auto simp: remote_def clean_def failed_def)

text \<open>What an answer to a prepare message says about its sender.\<close>

lemma rack_prep_msg:
  assumes "prep_msg C s (n, tp_home C, RackPrep rc)"
  shows "n \<in> set (remote C s)" "rc = RCOK \<and> clean s n \<and> tp_validate C n \<or> rc = Abort \<and> failed s n"
  using assms by (auto simp: prep_msg_def)

lemma rack_prep_wait:
  assumes inv: "prep_inv C s" and w: "wire s = xs @ (n, tp_home C, RackPrep rc) # ys" and ne: "xs @ ys \<noteq> []"
  shows "good_step C s (process_rack_prep C (tp_home C) rc (s\<lparr>wire := xs @ ys\<rparr>))"
proof -
  let ?h = "tp_home C" and ?m = "mans s (tp_home C)"
  have wt: "waits C s" and m: "list_all (prep_msg C s) (wire s)" and rc0: "txn_rc ?m \<in> {RCOK, Abort}"
    using inv by (simp_all add: prep_inv_def Let_def)
  define m' where "m' = ?m\<lparr>txn_rc := (if txn_rc ?m = RCOK then rc else txn_rc ?m), rsp_cnt := int (length (xs @ ys))\<rparr>"
  define s' where "s' = upd ?h (\<lambda>_. m') (s\<lparr>wire := xs @ ys\<rparr>)"
  have "received_response rc ?m = Inr m'" unfolding m'_def using rc0 wt w by (intro received_ok) (simp_all add: waits_def)
  moreover have pos: "int (length (xs @ ys)) > 0" using ne by (metis length_greater_0_conv of_nat_0_less_iff)
  then have "rsp_cnt m' > 0" by (simp add: m'_def)
  ultimately have e: "process_rack_prep C ?h rc (s\<lparr>wire := xs @ ys\<rparr>) = Inr s'"
    by (simp add: process_rack_prep_def s'_def assert_that_def Let_def)
  have n: "n \<in> set (remote C s)" "rc = RCOK \<and> clean s n \<and> tp_validate C n \<or> rc = Abort \<and> failed s n" "n \<noteq> ?h"
    using rack_prep_msg [of C s n rc] m w by (auto simp: remote_def)
  have wd: "waits C s'" "remote C s' = remote C s"
    using waits_drop [OF wt w ne, of s' "txn_rc m'"] by (simp_all add: s'_def m'_def)
  have same: "\<forall>k. k \<noteq> ?h \<longrightarrow> mans s' k = mans s k \<and> releases s' k = releases s k" by (simp add: s'_def)
  have cf: "clean s' k = clean s k \<and> failed s' k = failed s k" if "k \<noteq> ?h" for k using same that by (simp add: clean_def failed_def)
  have "list_all (prep_msg C s') (wire s')" using m w prep_msg_same [OF _ wd(2) same] by (auto simp: list_all_iff s'_def)
  moreover have "clean s' k \<and> tp_validate C k \<or> failed s' k \<and> txn_rc (mans s' ?h) = Abort"
    if k: "k \<in> set (remote C s') - peer ?h ` set (wire s')" for k
  proof -
    have kh: "k \<noteq> ?h" using k wd(2) by (simp add: remote_def)
    show ?thesis
    proof (cases "k = n")
      case True
      then show ?thesis using n(2) cf [OF kh] rc0 by (auto simp: s'_def m'_def)
    next
      case False
      then have "k \<in> set (remote C s) - peer ?h ` set (wire s)" using k wd(2) w n(3) by (auto simp: s'_def)
      then have "clean s k \<and> tp_validate C k \<or> failed s k \<and> txn_rc ?m = Abort" using inv by (simp add: prep_inv_def Let_def)
      then show ?thesis using cf [OF kh] by (auto simp: s'_def m'_def)
    qed
  qed
  moreover have "\<forall>k. k \<notin> all_nodes C \<longrightarrow> clean s' k" using inv cf by (auto simp: prep_inv_def Let_def all_nodes_def)
  moreover have "txn_rc m' \<in> {RCOK, Abort}" using n(2) rc0 by (auto simp: m'_def)
  ultimately have "prep_inv C s'" using inv wd(1) by (auto simp: prep_inv_def Let_def s'_def m'_def)
  moreover have "tp_rank C s' < tp_rank C s"
    using w wd(2) inv wt pos by (simp add: tp_rank_def Let_def s'_def m'_def prep_inv_def waits_def)
  ultimately show ?thesis using e by (simp add: good_step_def tp_inv_def)
qed

text \<open>The decision.\<close>

definition decision :: "tp_cfg \<Rightarrow> RC \<Rightarrow> RC" where
  "decision C r = (if r = RCOK \<and> tp_validate C (tp_home C) then RCOK else Abort)"

lemma decide_state:
  assumes ok: "tp_ok C" and inv: "prep_inv C s" and w: "wire s = [(n, tp_home C, RackPrep rc)]" and rc: "rc \<in> {RCOK, Abort}"
  defines "D \<equiv> decision C (if txn_rc (mans s (tp_home C)) = RCOK then rc else txn_rc (mans s (tp_home C)))"
  shows "\<exists>s'. process_rack_prep C (tp_home C) rc (s\<lparr>wire := []\<rparr>) = Inr s' \<and>
    wire s' = map (\<lambda>p. (tp_home C, p, Rfin D (tp_readonly C))) (remote C s) \<and> answer s' = answer s \<and>
    releases s' = (releases s)(tp_home C := [D]) \<and> (\<forall>k. k \<noteq> tp_home C \<longrightarrow> mans s' k = mans s k) \<and>
    txn_rc (mans s' (tp_home C)) = D \<and> rsp_cnt (mans s' (tp_home C)) = int (length (remote C s)) \<and>
    partitions_touched (mans s' (tp_home C)) = partitions_touched (mans s (tp_home C))"
proof -
  let ?h = "tp_home C" and ?m = "mans s (tp_home C)"
  have wt: "waits C s" and rc0: "txn_rc ?m \<in> {RCOK, Abort}" and h: "\<not> aborted ?m" "releases s ?h = []"
    using inv by (simp_all add: prep_inv_def Let_def)
  define r where "r = (if txn_rc ?m = RCOK then rc else txn_rc ?m)"
  have r: "r \<in> {RCOK, Abort}" using rc rc0 by (auto simp: r_def)
  define m' where "m' = ?m\<lparr>txn_rc := r, rsp_cnt := 0\<rparr>"
  have recv: "received_response rc ?m = Inr m'"
    using received_ok [of ?m 0 rc] rc0 wt w by (simp add: waits_def m'_def r_def)
  define s2 where "s2 = upd ?h (\<lambda>_. m'\<lparr>txn_rc := D\<rparr>) (s\<lparr>wire := []\<rparr>)"
  have t2: "touched_ok C s2" "remote C s2 = remote C s" "wire s2 = []" using wt by (simp_all add: s2_def waits_def touched_ok_def remote_def m'_def)
  have D: "D = decision C r" by (simp add: D_def r_def)
  have same: "D = RCOK \<Longrightarrow> m'\<lparr>txn_rc := D\<rparr> = m'" using r by (auto simp: D decision_def m'_def split: if_splits)
  have e: "process_rack_prep C ?h rc (s\<lparr>wire := []\<rparr>) =
    Inr (if D = RCOK then txn_commit ?h (send_finish_messages C s2) else txn_abort ?h (send_finish_messages C s2))"
    using recv ok r same by (auto simp: process_rack_prep_def Let_def assert_that_def tp_ok_def s2_def D decision_def m'_def upd_def)
  define s3 where "s3 = send_finish_messages C s2"
  have f: "wire s3 = map (\<lambda>p. (?h, p, Rfin D (tp_readonly C))) (remote C s)" "releases s3 = releases s" "answer s3 = answer s"
    "mans s3 = (mans s)(?h := ?m\<lparr>txn_rc := D, rsp_cnt := int (length (remote C s))\<rparr>)"
    using send_to_touched_eq [OF ok t2(1)] t2 by (simp_all add: s3_def send_finish_messages_def s2_def m'_def)
  have "D = RCOK \<or> D = Abort" by (simp add: D decision_def)
  then show ?thesis using e [folded s3_def] h by (auto simp: f)
qed

lemma decide_peers:
  assumes inv: "prep_inv C s" and w: "wire s = [(n, tp_home C, RackPrep rc)]" and k: "k \<in> set (remote C s)"
  shows "clean s k \<and> tp_validate C k \<or> failed s k \<and> (rc = Abort \<or> txn_rc (mans s (tp_home C)) = Abort)"
proof (cases "k = n")
  case True
  then show ?thesis using rack_prep_msg [of C s n rc] inv w by (auto simp: prep_inv_def Let_def)
next
  case False
  have "prep_msg C s (n, tp_home C, RackPrep rc)" using inv w by (simp add: prep_inv_def Let_def)
  then have "n \<noteq> tp_home C" by (auto simp: prep_msg_def remote_def)
  then have "k \<in> set (remote C s) - peer (tp_home C) ` set (wire s)" using False k w by simp
  then show ?thesis using inv by (auto simp: prep_inv_def Let_def)
qed

lemma decide_step:
  assumes ok: "tp_ok C" and inv: "prep_inv C s" and w: "wire s = [(n, tp_home C, RackPrep rc)]"
  shows "good_step C s (process_rack_prep C (tp_home C) rc (s\<lparr>wire := []\<rparr>))"
proof -
  let ?h = "tp_home C" and ?T = "set (partitions_touched (mans s (tp_home C)))"
  have pm: "prep_msg C s (n, ?h, RackPrep rc)" and wt: "waits C s" and all: "all_nodes C \<subseteq> ?T" and rows: "rows_ok C"
    and others: "\<forall>k. k \<notin> all_nodes C \<longrightarrow> clean s k" and rc0: "txn_rc (mans s ?h) \<in> {RCOK, Abort}"
    using inv w by (simp_all add: prep_inv_def Let_def)
  have rc: "rc \<in> {RCOK, Abort}" and n: "n \<in> set (remote C s)" using rack_prep_msg [OF pm] by auto
  define D where "D = decision C (if txn_rc (mans s ?h) = RCOK then rc else txn_rc (mans s ?h))"
  obtain s' where e: "process_rack_prep C ?h rc (s\<lparr>wire := []\<rparr>) = Inr s'"
    and s': "wire s' = map (\<lambda>p. (?h, p, Rfin D (tp_readonly C))) (remote C s)" "answer s' = answer s" "releases s' = (releases s)(?h := [D])"
      "\<forall>k. k \<noteq> ?h \<longrightarrow> mans s' k = mans s k" "txn_rc (mans s' ?h) = D" "rsp_cnt (mans s' ?h) = int (length (remote C s))"
      "partitions_touched (mans s' ?h) = partitions_touched (mans s ?h)"
    using decide_state [OF ok inv w rc, folded D_def] by auto
  have D2: "D \<in> {RCOK, Abort}" by (simp add: D_def decision_def)
  have t: "touched_ok C s" using wt by (simp add: waits_def)
  have r': "remote C s' = remote C s" "touched_ok C s'" using s'(7) t by (simp_all add: remote_def touched_ok_def)
  have pk: "clean s k \<and> tp_validate C k \<or> failed s k \<and> D = Abort" if "k \<in> set (remote C s)" for k
    using decide_peers [OF inv w that] rc rc0 by (auto simp: D_def decision_def)
  have "waits C s'" using s' r' wt n t by (auto simp: waits_def touched_ok_def Let_def remote_def filter_empty_conv)
  moreover have "list_all (fin_msg C D s') (wire s')"
    using pk s' r'(1) by (auto simp: list_all_iff fin_msg_def clean_def failed_def remote_def)
  moreover have "set (remote C s') \<subseteq> peer ?h ` set (wire s')" using s'(1) r'(1) by (auto simp: image_image)
  moreover have "releases s' k = []" if "k \<notin> ?T" for k using that others all t s'(3) by (auto simp: clean_def touched_ok_def Let_def)
  moreover have "may_commit C ?T" if "D = RCOK"
  proof -
    have "tp_validate C ?h" using that by (simp add: D_def decision_def split: if_splits)
    moreover have "tp_validate C k" if "k \<in> ?T" "k \<noteq> ?h" for k using pk [of k] that \<open>D = RCOK\<close> by (auto simp: remote_def)
    ultimately show ?thesis using rows all by (auto simp: may_commit_def)
  qed
  ultimately have "fin_inv C D s'" using D2 s' by (auto simp: fin_inv_def Let_def)
  moreover have "remote C s \<noteq> []" using n by auto
  then have "tp_rank C s' < tp_rank C s"
    using s' w inv wt weight_map [of ?h "Rfin D (tp_readonly C)" 2 "remote C s"] by (simp add: tp_rank_def Let_def prep_inv_def waits_def)
  ultimately show ?thesis using e by (auto simp: good_step_def tp_inv_def)
qed

lemma prep_step:
  assumes "tp_ok C" "prep_inv C s" "wire s = xs @ m # ys"
  shows "good_step C s (tp_process C m (s\<lparr>wire := xs @ ys\<rparr>))"
proof -
  have "prep_msg C s m" using assms(2,3) by (simp add: prep_inv_def Let_def)
  then consider n where "m = (tp_home C, n, Rprepare)" | n rc where "m = (n, tp_home C, RackPrep rc)" by (auto simp: prep_msg_def)
  then show ?thesis
  proof cases
    case 1
    then show ?thesis using prepare_step [of C s xs n ys] assms by simp
  next
    case 2
    then show ?thesis using rack_prep_wait [of C s xs n rc ys] decide_step [of C s n rc] assms by (cases "xs @ ys = []") auto
  qed
qed

text \<open>The second phase.\<close>

lemma finish_step:
  assumes ok: "tp_ok C" and inv: "fin_inv C D s" and w: "wire s = xs @ (tp_home C, n, Rfin D (tp_readonly C)) # ys"
    and n: "n \<in> set (remote C s)" "clean s n \<or> D = Abort \<and> failed s n"
  shows "good_step C s (process_rfin C n D (tp_readonly C) (s\<lparr>wire := xs @ ys\<rparr>))"
proof -
  let ?h = "tp_home C" and ?s = "s\<lparr>wire := xs @ ys\<rparr>"
  have nh: "n \<noteq> ?h" using n(1) by (simp add: remote_def)
  have D: "D = RCOK \<or> D = Abort" and wt: "waits C s" and h: "releases s ?h = [D]" using inv by (auto simp: fin_inv_def Let_def)
  have ack: "acks_finish (tp_alg C) (tp_readonly C)" using ok by (auto simp: tp_ok_def needs_prepare_def acks_finish_def)
  define s' where "s' = (if D = Abort then send n ?h (RackFin RCOK) (reset_query n (txn_reset n (txn_abort n ?s)))
    else upd n (\<lambda>_. new_man) (send n ?h (RackFin RCOK) (txn_commit n ?s)))"
  have e: "process_rfin C n D (tp_readonly C) ?s = Inr s'"
    using nh D n(2) ack by (auto simp: process_rfin_def assert_that_def Let_def s'_def txn_reset_def reset_query_def clean_def)
  have a: "answered C n s s'" using nh by (auto simp: answered_def s'_def txn_reset_def reset_query_def)
  have w': "wire s' = xs @ ys @ [(n, ?h, RackFin RCOK)]" by (simp add: s'_def txn_reset_def reset_query_def)
  note aw = answered_waits [OF a wt w w', simplified] and ah = answered_home [OF a] and ar = answered_remote [OF a]
  have rel: "releases s' n = [D]" using n(2) D by (auto simp: s'_def clean_def failed_def txn_reset_def reset_query_def)
  have "fin_msg C D s' (n, ?h, RackFin RCOK)" using n(1) ar rel by (simp add: fin_msg_def)
  moreover have "fin_msg C D s' x" if "x \<in> set (xs @ ys)" for x
    using fin_msg_frame [OF _ a, of D x] inv w aw(3) nh that by (auto simp: fin_inv_def Let_def list_all_iff)
  ultimately have "list_all (fin_msg C D s') (wire s')" using w' by (auto simp: list_all_iff)
  moreover have "\<forall>k\<in>set (remote C s') - peer ?h ` set (wire s'). releases s' k = [D]"
    using inv a ar aw(2) nh w by (auto simp: fin_inv_def Let_def answered_def)
  moreover have "releases s' k = []" if "k \<notin> set (partitions_touched (mans s ?h))" for k
  proof -
    have "k \<noteq> n" using n(1) that by (auto simp: remote_def)
    then show ?thesis using inv a that by (simp add: fin_inv_def Let_def answered_def)
  qed
  ultimately have "fin_inv C D s'" using inv aw(1) ah nh a by (auto simp: fin_inv_def Let_def answered_def)
  moreover have "tp_rank C s' < tp_rank C s" using w w' h a nh by (simp add: tp_rank_def Let_def answered_def)
  ultimately show ?thesis using e by (auto simp: good_step_def tp_inv_def)
qed

lemma rack_fin_wait:
  assumes inv: "fin_inv C D s" and w: "wire s = xs @ (n, tp_home C, RackFin RCOK) # ys" and ne: "xs @ ys \<noteq> []"
    and n: "n \<in> set (remote C s)" "releases s n = [D]"
  shows "good_step C s (process_rack_rfin C (tp_home C) RCOK (s\<lparr>wire := xs @ ys\<rparr>))"
proof -
  let ?h = "tp_home C" and ?m = "mans s (tp_home C)"
  have D: "D = RCOK \<or> D = Abort" and wt: "waits C s" and h: "releases s ?h = [D]" and rc: "txn_rc ?m = D"
    and m: "list_all (fin_msg C D s) (wire s)" using inv by (auto simp: fin_inv_def Let_def)
  define m' where "m' = ?m\<lparr>txn_rc := D, rsp_cnt := int (length (xs @ ys))\<rparr>"
  define s' where "s' = upd ?h (\<lambda>_. m') (s\<lparr>wire := xs @ ys\<rparr>)"
  have pos: "int (length (xs @ ys)) > 0" using ne by (metis length_greater_0_conv of_nat_0_less_iff)
  have "received_response RCOK ?m = Inr m'" unfolding m'_def
    using received_ok [of ?m "length (xs @ ys)" RCOK] rc wt w D by (auto simp: waits_def)
  then have e: "process_rack_rfin C ?h RCOK (s\<lparr>wire := xs @ ys\<rparr>) = Inr s'"
    using pos by (simp add: process_rack_rfin_def s'_def Let_def m'_def)
  have nh: "n \<noteq> ?h" using n(1) by (simp add: remote_def)
  have wd: "waits C s'" "remote C s' = remote C s" using waits_drop [OF wt w ne, of s' D] by (simp_all add: s'_def m'_def)
  have same: "\<forall>k. k \<noteq> ?h \<longrightarrow> mans s' k = mans s k \<and> releases s' k = releases s k" by (simp add: s'_def)
  have "list_all (fin_msg C D s') (wire s')" using m w fin_msg_same [OF _ wd(2) same] by (auto simp: list_all_iff s'_def)
  moreover have "releases s' k = [D]" if k: "k \<in> set (remote C s') - peer ?h ` set (wire s')" for k
  proof (cases "k = n")
    case True
    then show ?thesis using n(2) by (simp add: s'_def)
  next
    case False
    then have "k \<in> set (remote C s) - peer ?h ` set (wire s)" using k wd(2) w nh by (auto simp: s'_def)
    then show ?thesis using inv by (simp add: fin_inv_def Let_def s'_def)
  qed
  ultimately have "fin_inv C D s'" using inv wd(1) by (auto simp: fin_inv_def Let_def s'_def m'_def)
  moreover have "tp_rank C s' < tp_rank C s" using w h by (simp add: tp_rank_def Let_def s'_def)
  ultimately show ?thesis using e by (auto simp: good_step_def tp_inv_def)
qed

lemma rack_fin_last:
  assumes inv: "fin_inv C D s" and w: "wire s = [(n, tp_home C, RackFin RCOK)]" and n: "releases s n = [D]" "n \<noteq> tp_home C"
  shows "good_step C s (process_rack_rfin C (tp_home C) RCOK (s\<lparr>wire := []\<rparr>))"
proof -
  let ?h = "tp_home C" and ?m = "mans s (tp_home C)" and ?T = "set (partitions_touched (mans s (tp_home C)))"
  have D: "D = RCOK \<or> D = Abort" and wt: "waits C s" and h: "releases s ?h = [D]" and rc: "txn_rc ?m = D"
    and rest: "\<forall>k\<in>set (remote C s) - peer ?h ` set (wire s). releases s k = [D]" "\<forall>k. k \<notin> ?T \<longrightarrow> releases s k = []" "D = RCOK \<longrightarrow> may_commit C ?T"
    using inv by (auto simp: fin_inv_def Let_def)
  define s1 where "s1 = upd ?h (\<lambda>_. ?m\<lparr>txn_rc := D, rsp_cnt := 0\<rparr>) (s\<lparr>wire := []\<rparr>)"
  define s' where "s' = (if D = RCOK then worker_commit C s1 else worker_abort C s1)"
  have "received_response RCOK ?m = Inr (?m\<lparr>txn_rc := D, rsp_cnt := 0\<rparr>)"
    using received_ok [of ?m 0 RCOK] rc wt w D by (auto simp: waits_def)
  then have e: "process_rack_rfin C ?h RCOK (s\<lparr>wire := []\<rparr>) = Inr s'" by (simp add: process_rack_rfin_def s'_def s1_def Let_def)
  have s': "wire s' = []" "releases s' = releases s" "answer s' = Some (if D = RCOK then Commit else Abort)"
    "D = Abort \<Longrightarrow> partitions_touched (mans s' ?h) = partitions_touched ?m"
    by (simp_all add: s'_def s1_def worker_commit_def worker_abort_def txn_reset_def)
  have "releases s k = (if k \<in> ?T then [D] else [])" for k
    using rest(1,2) h n w by (cases "k = ?h"; cases "k = n") (auto simp: remote_def)
  then have "done_inv C D s'" using s' D wt rest(3) by (auto simp: done_inv_def waits_def touched_ok_def Let_def intro!: exI [of _ ?T])
  moreover have "tp_rank C s' < tp_rank C s" using s' w h by (simp add: tp_rank_def Let_def)
  ultimately show ?thesis using e by (auto simp: good_step_def tp_inv_def)
qed

lemma fin_step:
  assumes "tp_ok C" "fin_inv C D s" "wire s = xs @ m # ys"
  shows "good_step C s (tp_process C m (s\<lparr>wire := xs @ ys\<rparr>))"
proof -
  have "fin_msg C D s m" using assms(2,3) by (simp add: fin_inv_def Let_def)
  then obtain n where n: "n \<in> set (remote C s)" and
    c: "m = (tp_home C, n, Rfin D (tp_readonly C)) \<and> (clean s n \<or> D = Abort \<and> failed s n) \<or> m = (n, tp_home C, RackFin RCOK) \<and> releases s n = [D]"
    by (auto simp: fin_msg_def)
  have nh: "n \<noteq> tp_home C" using n by (simp add: remote_def)
  from c show ?thesis
  proof (elim disjE conjE)
    assume "m = (tp_home C, n, Rfin D (tp_readonly C))" "clean s n"
    then show ?thesis using finish_step [OF assms(1,2)] assms(3) n by simp
  next
    assume "m = (tp_home C, n, Rfin D (tp_readonly C))" "D = Abort" "failed s n"
    then show ?thesis using finish_step [OF assms(1,2)] assms(3) n by simp
  next
    assume "m = (n, tp_home C, RackFin RCOK)" "releases s n = [D]"
    then show ?thesis using rack_fin_wait [OF assms(2)] rack_fin_last [OF assms(2)] assms(3) n nh by (cases "xs @ ys = []") auto
  qed
qed

lemma deliver_good:
  assumes "tp_ok C" "tp_inv C s" "k < length (wire s)"
  shows "good_step C s (tp_deliver C k s)"
proof -
  have w: "wire s = take k (wire s) @ wire s ! k # drop (Suc k) (wire s)" using assms(3) by (rule id_take_nth_drop)
  have e: "tp_deliver C k s = tp_process C (wire s ! k) (s\<lparr>wire := take k (wire s) @ drop (Suc k) (wire s)\<rparr>)"
    using assms(3) by (simp add: tp_deliver_def)
  from assms(2) consider "exec_inv C s" | "prep_inv C s" | D where "fin_inv C D s" | D where "done_inv C D s" by (auto simp: tp_inv_def)
  then show ?thesis
  proof cases
    case 1
    then show ?thesis unfolding e by (rule exec_step [OF assms(1) _ w])
  next
    case 2
    then show ?thesis unfolding e by (rule prep_step [OF assms(1) _ w])
  next
    case 3
    then show ?thesis unfolding e by (rule fin_step [OF assms(1) _ w])
  next
    case 4
    then show ?thesis using assms(3) by (simp add: done_inv_def)
  qed
qed

lemma start_good:
  assumes "tp_ok C" shows "tp_inv C (tp_start C)" "tp_rank C (tp_start C) \<le> 6 * length (tp_requests C)"
proof -
  let ?h = "tp_home C"
  define s where "s = upd ?h (\<lambda>m. m\<lparr>partitions_touched := [?h]\<rparr>) \<lparr>mans = (\<lambda>_. new_man), releases = (\<lambda>_. []), wire = [], answer = None\<rparr>"
  have e: "tp_start C = check_if_done C (run_loop C s)"
    by (simp add: tp_start_def process_rtxn_def run_txn_def Let_def s_def new_man_def add_unique_def upd_def fun_upd_def)
  have "running C s"
    by (simp add: running_def home_runs_def Let_def clean_def touched_ok_def got_rows_def s_def new_man_def all_nodes_def)
  from run_loop_result [OF assms this] show "tp_inv C (tp_start C)" "tp_rank C (tp_start C) \<le> 6 * length (tp_requests C)"
    by (simp_all add: e good_result_def s_def new_man_def)
qed

lemma steps_good:
  assumes "tp_ok C" "(tp_step C ^^ k) (tp_start C) s"
  shows "tp_inv C s \<and> tp_rank C s + k \<le> 6 * length (tp_requests C)"
  using assms(2)
proof (induction k arbitrary: s)
  case 0
  then show ?case using start_good [OF assms(1)] by simp
next
  case (Suc k)
  then obtain s0 where s0: "(tp_step C ^^ k) (tp_start C) s0" "tp_step C s0 s" by auto
  from s0(2) obtain j where j: "j < length (wire s0)" "tp_deliver C j s0 = Inr s" by (auto elim: tp_step.cases)
  have "good_step C s0 (tp_deliver C j s0)" using deliver_good [OF assms(1) _ j(1)] Suc.IH [OF s0(1)] by blast
  then have "tp_inv C s \<and> tp_rank C s < tp_rank C s0" using j(2) by (simp add: good_step_def)
  then show ?case using Suc.IH [OF s0(1)] by simp
qed

lemma reachable_inv: "tp_ok C \<Longrightarrow> (tp_step C)\<^sup>*\<^sup>* (tp_start C) s \<Longrightarrow> tp_inv C s"
  using steps_good by (metis rtranclp_imp_relpowp)

section \<open>Outcomes\<close>

lemma exec_outcome: "exec_inv C s \<Longrightarrow> releases s n \<in> {[], [Abort]}"
  unfolding exec_inv_def by (auto simp: clean_def failed_def) metis+

lemma node_cases:
  obtains (home) "n = tp_home C" | (untouched) "n \<notin> set (partitions_touched (mans s (tp_home C)))"
    | (quiet) "n \<in> set (remote C s) - peer (tp_home C) ` set (wire s)" | (busy) x where "x \<in> set (wire s)" "n = peer (tp_home C) x"
proof (cases "n \<in> peer (tp_home C) ` set (wire s)")
  case True
  then show ?thesis using busy by blast
next
  case False
  then show ?thesis using home untouched quiet by (auto simp: remote_def)
qed

lemma prep_outcome:
  assumes "prep_inv C s" shows "releases s n \<in> {[], [Abort]}"
proof -
  show ?thesis
  proof (cases rule: node_cases [where n = n and C = C and s = s])
    case (busy x)
    then have "prep_msg C s x" using assms by (simp add: prep_inv_def Let_def list_all_iff)
    then show ?thesis using busy(2) by (auto simp: prep_msg_def remote_def clean_def failed_def)
  qed (use assms in \<open>auto simp: prep_inv_def Let_def clean_def failed_def\<close>)
qed

lemma fin_outcome:
  assumes "fin_inv C D s" shows "releases s n \<in> {[], [D]}"
proof -
  show ?thesis
  proof (cases rule: node_cases [where n = n and C = C and s = s])
    case (busy x)
    then have "fin_msg C D s x" using assms by (simp add: fin_inv_def Let_def list_all_iff)
    then show ?thesis using busy(2) by (auto simp: fin_msg_def remote_def clean_def failed_def)
  qed (use assms in \<open>auto simp: fin_inv_def Let_def\<close>)
qed

lemma one_outcome:
  assumes "tp_inv C s" obtains D where "\<forall>n. releases s n \<in> {[], [D]}" "D = RCOK \<longrightarrow> may_commit C (all_nodes C)"
proof -
  from assms consider "exec_inv C s" | "prep_inv C s" | D where "fin_inv C D s" | D where "done_inv C D s" by (auto simp: tp_inv_def)
  then show ?thesis
  proof cases
    case 3
    then show ?thesis using fin_outcome [OF 3] that [of D] by (auto simp: fin_inv_def Let_def may_commit_def)
  next
    case 4
    then show ?thesis using that [of D] by (auto simp: done_inv_def may_commit_def)
  qed (use exec_outcome prep_outcome that [of Abort] in auto)
qed

lemma answered_when_quiet:
  assumes "tp_inv C s" "wire s = []"
  shows "answer s = Some Commit \<and> (\<forall>n\<in>all_nodes C. releases s n = [RCOK]) \<or>
    answer s = Some Abort \<and> (\<forall>n. releases s n = (if n \<in> set (partitions_touched (mans s (tp_home C))) then [Abort] else []))"
proof -
  obtain D where "done_inv C D s" using assms by (auto simp: tp_inv_def exec_inv_def prep_inv_def fin_inv_def waits_def Let_def)
  then show ?thesis by (auto simp: done_inv_def may_commit_def)
qed

section \<open>Properties\<close>

text \<open>An example: a transaction at home on node 0 with requests for nodes 0, 1, 2 and 1.\<close>

definition ex_txn :: "(nat \<Rightarrow> bool) \<Rightarrow> tp_cfg" where
  "ex_txn v = \<lparr>tp_alg = ALG_NO_WAIT, tp_home = 0, tp_readonly = False, tp_requests = [0, 1, 2, 1], tp_get_row = (\<lambda>_. True), tp_validate = v, tp_part_node = (\<lambda>p. p)\<rparr>"

fun tp_run :: "tp_cfg \<Rightarrow> nat list \<Rightarrow> tp_state \<Rightarrow> tp_state result" where
  "tp_run C [] s = Inr s"
| "tp_run C (k # ks) s = bind_result (tp_deliver C k s) (tp_run C ks)"

lemma tp_run_steps: "tp_run C ks s = Inr s' \<Longrightarrow> (tp_step C ^^ length ks) s s'"
proof (induction ks arbitrary: s)
  case (Cons k ks)
  then obtain s1 where s1: "tp_deliver C k s = Inr s1" "tp_run C ks s1 = Inr s'" by (auto simp: bind_result_Inr_iff)
  then have "k < length (wire s)" by (auto simp: tp_deliver_def split: if_splits)
  then have "tp_step C s s1" using s1(1) by (rule tp_step.deliver)
  from relpowp_Suc_I2 [OF this Cons.IH [OF s1(2)]] show ?case by simp
qed simp

definition ex_outcome :: "tp_cfg \<Rightarrow> nat list \<Rightarrow> (RC option \<times> RC list list) result" where
  "ex_outcome C ks = bind_result (tp_run C ks (tp_start C)) (\<lambda>s. Inr (answer s, map (releases s) [0, 1, 2]))"

lemma ex_outcome_run:
  assumes "ex_outcome C ks = Inr (a, rs)"
  obtains s where "(tp_step C ^^ length ks) (tp_start C) s" "(tp_step C)\<^sup>*\<^sup>* (tp_start C) s" "answer s = a" "map (releases s) [0, 1, 2] = rs"
proof -
  obtain s where s: "tp_run C ks (tp_start C) = Inr s" "answer s = a" "map (releases s) [0, 1, 2] = rs"
    using assms by (auto simp: ex_outcome_def bind_result_Inr_iff)
  show ?thesis using that [OF tp_run_steps [OF s(1)] relpowp_imp_rtranclp [OF tp_run_steps [OF s(1)]] s(2,3)] .
qed

text \<open>
  Claim C1. Atomic commitment. For a transaction that goes through the prepare phase (\<open>needs_prepare\<close>), under an
  algorithm other than \<open>TICTOC\<close>, while the first partition of every node it touches is still at that
  node: whatever the order in which messages are delivered and whatever the nodes decide, a node
  releases the locks of the transaction at most once, and no node aborts while another one commits.
\<close>

theorem twopc_atomic:
  assumes "tp_alg C \<noteq> ALG_TICTOC" "needs_prepare C" "list_all (\<lambda>p. tp_part_node C p = p) (tp_home C # tp_requests C)"
    and "(tp_step C)\<^sup>*\<^sup>* (tp_start C) s" "rc \<in> set (releases s n)" "rc' \<in> set (releases s n')"
  shows "rc = rc' \<and> length (releases s n) = 1"
proof -
  obtain D where "\<forall>n. releases s n \<in> {[], [D]}" by (rule one_outcome [OF reachable_inv [OF tp_okI [OF assms(1-3)] assms(4)]])
  then have "releases s n \<in> {[], [D]}" "releases s n' \<in> {[], [D]}" by blast+
  then show ?thesis using assms(5,6) by auto
qed

theorem twopc_atomic_witness:
  "\<exists>s. (tp_step (ex_txn (\<lambda>n. n \<noteq> 2)))\<^sup>*\<^sup>* (tp_start (ex_txn (\<lambda>n. n \<noteq> 2))) s \<and> Abort \<in> set (releases s 0) \<and> Abort \<in> set (releases s 2) \<and>
    length (releases s 0) = 1"
proof -
  let ?C = "ex_txn (\<lambda>n. n \<noteq> 2)"
  have "ex_outcome ?C (replicate 10 0) = Inr (None, [[Abort], [], [Abort]])" by code_simp
  then obtain s where s: "(tp_step ?C)\<^sup>*\<^sup>* (tp_start ?C) s" "map (releases s) [0, 1, 2] = [[Abort], [], [Abort]]" by (rule ex_outcome_run)
  have "tp_ok ?C" by code_simp
  moreover have "Abort \<in> set (releases s 0)" "Abort \<in> set (releases s 2)" using s(2) by simp_all
  ultimately show ?thesis using twopc_atomic [of ?C s Abort 0 Abort 2] s(1) unfolding tp_ok_def by blast
qed

text \<open>
  Claim C10. A commit is unanimous. For a transaction that goes through the prepare phase, under an algorithm other
  than \<open>TICTOC\<close>, while the first partition of every node it touches is still at that node: when
  some node has committed, every request of the transaction has got its row, and validation has
  succeeded on the home node and on every node that has a request.
\<close>

theorem twopc_commit_unanimous:
  assumes "tp_alg C \<noteq> ALG_TICTOC" "needs_prepare C" "list_all (\<lambda>p. tp_part_node C p = p) (tp_home C # tp_requests C)"
    and "(tp_step C)\<^sup>*\<^sup>* (tp_start C) s" "RCOK \<in> set (releases s n)"
  shows "(\<forall>k<length (tp_requests C). tp_get_row C k) \<and> tp_validate C (tp_home C) \<and> list_all (tp_validate C) (tp_requests C)"
proof -
  obtain D where D: "\<forall>n. releases s n \<in> {[], [D]}" "D = RCOK \<longrightarrow> may_commit C (all_nodes C)"
    by (rule one_outcome [OF reachable_inv [OF tp_okI [OF assms(1-3)] assms(4)]])
  then have "releases s n \<in> {[], [D]}" by blast
  then have "may_commit C (all_nodes C)" using D(2) assms(5) by auto
  then show ?thesis by (simp add: may_commit_def all_nodes_def rows_ok_def list_all_iff)
qed

theorem twopc_commit_unanimous_witness:
  "\<exists>s. (tp_step (ex_txn (\<lambda>_. True)))\<^sup>*\<^sup>* (tp_start (ex_txn (\<lambda>_. True))) s \<and> RCOK \<in> set (releases s 0) \<and>
    list_all (tp_validate (ex_txn (\<lambda>_. True))) [0, 1, 2, 1]"
proof -
  let ?C = "ex_txn (\<lambda>_. True)"
  have "ex_outcome ?C (replicate 10 0) = Inr (None, [[RCOK], [], []])" by code_simp
  then obtain s where s: "(tp_step ?C)\<^sup>*\<^sup>* (tp_start ?C) s" "map (releases s) [0, 1, 2] = [[RCOK], [], []]" by (rule ex_outcome_run)
  have "tp_ok ?C" by code_simp
  moreover have "RCOK \<in> set (releases s 0)" using s(2) by simp
  ultimately show ?thesis using twopc_commit_unanimous [of ?C s 0] s(1) unfolding tp_ok_def by (auto simp: ex_txn_def)
qed

text \<open>
  Claim C9. Two-phase commit ends. A transaction with \<open>L\<close> requests that goes through the prepare phase, under an
  algorithm other than \<open>TICTOC\<close>, while the first partition of every node it touches is still at
  that node, is over after at most \<open>6 * L\<close> messages; no
  assertion fails on the way; and when no message is left, the client has its response and all
  nodes with a request have committed, or the transaction waits for another attempt and exactly
  the nodes that it touched have aborted.
\<close>

theorem twopc_ends:
  assumes "tp_alg C \<noteq> ALG_TICTOC" "needs_prepare C" "list_all (\<lambda>p. tp_part_node C p = p) (tp_home C # tp_requests C)"
    and "(tp_step C ^^ k) (tp_start C) s"
  shows "k \<le> 6 * length (tp_requests C) \<and> (\<forall>j. j < length (wire s) \<longrightarrow> (\<exists>s'. tp_deliver C j s = Inr s')) \<and>
    (wire s = [] \<longrightarrow> answer s = Some Commit \<and> (\<forall>n\<in>insert (tp_home C) (set (tp_requests C)). releases s n = [RCOK]) \<or>
      answer s = Some Abort \<and> (\<forall>n. releases s n = (if n \<in> set (partitions_touched (mans s (tp_home C))) then [Abort] else [])))"
proof -
  have ok: "tp_ok C" by (rule tp_okI [OF assms(1-3)])
  have inv: "tp_inv C s" and k: "tp_rank C s + k \<le> 6 * length (tp_requests C)" using steps_good [OF ok assms(4)] by simp_all
  have "\<exists>s'. tp_deliver C j s = Inr s'" if "j < length (wire s)" for j
    using deliver_good [OF ok inv that] by (auto simp: good_step_def)
  then show ?thesis using k answered_when_quiet [OF inv] by (simp add: all_nodes_def)
qed

theorem twopc_ends_witness:
  "\<exists>s. (tp_step (ex_txn (\<lambda>_. True)) ^^ 14) (tp_start (ex_txn (\<lambda>_. True))) s \<and> 14 \<le> 6 * length (tp_requests (ex_txn (\<lambda>_. True))) \<and>
    answer s = Some Commit"
proof -
  let ?C = "ex_txn (\<lambda>_. True)"
  have "ex_outcome ?C (replicate 14 0) = Inr (Some Commit, [[RCOK], [RCOK], [RCOK]])" by code_simp
  then obtain s where "(tp_step ?C ^^ length (replicate 14 (0::nat))) (tp_start ?C) s" "answer s = Some Commit" by (rule ex_outcome_run)
  then have s: "(tp_step ?C ^^ 14) (tp_start ?C) s" "answer s = Some Commit" by simp_all
  have "tp_ok ?C" by code_simp
  then show ?thesis using twopc_ends [OF _ _ _ s(1)] s unfolding tp_ok_def by blast
qed

end
