(* ===== verification/TwoPhaseFlaws.thy ===== *)
theory TwoPhaseFlaws
imports TwoPhaseSafe Migration
begin

text \<open>
  Where a distributed transaction does not end or not commit everywhere: read-only transactions under the
  algorithms that skip the first phase, and transactions on a node whose partition has moved away.
\<close>

section \<open>Read-only transactions\<close>

text \<open>Messages of a transaction that skips the first phase.\<close>

fun skip_msg :: "tp_cfg \<Rightarrow> nat \<times> nat \<times> tp_msg \<Rightarrow> bool" where
  "skip_msg C (a, b, Rqry idxs) \<longleftrightarrow> a = tp_home C \<and> b \<noteq> tp_home C \<and> list_all (tp_get_row C) idxs"
| "skip_msg C (a, b, RqryRsp rc) \<longleftrightarrow> b = tp_home C \<and> rc = RCOK"
| "skip_msg C (a, b, Rfin rc ro) \<longleftrightarrow> b \<noteq> tp_home C \<and> rc = RCOK \<and> ro"
| "skip_msg C (a, b, x) \<longleftrightarrow> False"

definition skip_inv :: "tp_cfg \<Rightarrow> tp_state \<Rightarrow> bool" where
  "skip_inv C s \<longleftrightarrow> answer s = None \<and> releases s (tp_home C) = [] \<and> rsp_cnt (mans s (tp_home C)) = 0 \<and>
     (\<forall>n. txn_rc (mans s n) = RCOK) \<and> list_all (skip_msg C) (wire s) \<and>
     tp_home C \<in> set (partitions_touched (mans s (tp_home C))) \<and>
     (\<forall>k<next_record_id (mans s (tp_home C)). tp_requests C ! k \<in> set (partitions_touched (mans s (tp_home C))))"

definition skips :: "tp_cfg \<Rightarrow> bool" where
  "skips C \<longleftrightarrow> \<not> needs_prepare C \<and> tp_alg C \<noteq> ALG_TICTOC \<and> rows_ok C \<and> (\<exists>k<length (tp_requests C). tp_requests C ! k \<noteq> tp_home C)"

lemma add_unique_set: "set (add_unique x xs) = insert x (set xs)"
  by (auto simp: add_unique_def)

lemma skip_commit:
  assumes "skips C" "skip_inv C s" "length (tp_requests C) \<le> next_record_id (mans s (tp_home C))"
  shows "skip_inv C (check_if_done C (start_commit C s))"
proof -
  let ?T = "partitions_touched (mans s (tp_home C))"
  obtain k where k: "k < length (tp_requests C)" "tp_requests C ! k \<noteq> tp_home C" using assms(1) by (auto simp: skips_def)
  have "tp_home C \<in> set ?T" "tp_requests C ! k \<in> set ?T" using assms(2,3) k(1) by (auto simp: skip_inv_def)
  then have "is_multi_part C s" using k(2) by (cases ?T; cases "tl ?T") (auto simp: is_multi_part_def)
  moreover have "tp_readonly C" using assms(1) by (auto simp: skips_def needs_prepare_def)
  ultimately show ?thesis using assms(1,2)
    by (auto simp: start_commit_def Let_def skips_def check_if_done_def skip_inv_def send_finish_messages_def send_to_touched_def list_all_iff)
qed

lemma skip_run: "skips C \<Longrightarrow> skip_inv C s \<Longrightarrow> skip_inv C (check_if_done C (run_loop C s))"
proof (induction C s rule: run_loop.induct)
  case (1 C s)
  let ?h = "tp_home C" and ?i = "next_record_id (mans s (tp_home C))" and ?L = "length (tp_requests C)"
  let ?s = "upd ?h (\<lambda>m. m\<lparr>next_record_id := ?i + 1\<rparr>) s"
  consider "?i \<ge> ?L" | "?i < ?L" "tp_requests C ! ?i = ?h" | "?i < ?L" "tp_requests C ! ?i \<noteq> ?h" by linarith
  then show ?case
  proof cases
    case 1
    then have "run_loop C s = start_commit C s" by (subst run_loop.simps) (simp add: Let_def)
    then show ?thesis using skip_commit "1.prems" 1 by simp
  next
    case 2
    then have row: "tp_get_row C ?i" using "1.prems"(1) by (simp add: skips_def rows_ok_def)
    have e: "run_loop C s = run_loop C ?s" using 2 row by (subst run_loop.simps) (simp add: Let_def)
    have "skip_inv C ?s" using "1.prems"(2) 2 by (auto simp: skip_inv_def less_Suc_eq)
    then show ?thesis using "1.IH" [OF refl refl _ _ row "1.prems"(1)] 2 e by simp
  next
    case 3
    then have "run_loop C s = send_remote_request C s" by (subst run_loop.simps) (simp add: Let_def)
    moreover have "tp_requests C ! k \<in> insert (tp_requests C ! ?i) (set (partitions_touched (mans s ?h)))" if "k < group_end C ?i" for k
      using "1.prems"(2) group_same [of ?i k C] that by (cases "k < ?i") (auto simp: skip_inv_def)
    moreover have "list_all (tp_get_row C) [?i..<group_end C ?i]"
      using "1.prems"(1) group_end_le [OF 3(1)] by (auto simp: skips_def rows_ok_def list_all_iff)
    ultimately show ?thesis using "1.prems"(2) 3
      by (auto simp: send_remote_request_def Let_def check_if_done_def skip_inv_def add_unique_set)
  qed
qed

lemma skip_step:
  assumes "skips C" "skip_inv C s" "tp_step C s s'" shows "skip_inv C s'"
proof -
  obtain k where k: "k < length (wire s)" "tp_deliver C k s = Inr s'" using assms(3) by (auto elim: tp_step.cases)
  define s0 where "s0 = s\<lparr>wire := take k (wire s) @ drop (Suc k) (wire s)\<rparr>"
  have p: "tp_process C (wire s ! k) s0 = Inr s'" using k by (simp add: tp_deliver_def s0_def)
  have m: "skip_msg C (wire s ! k)" using assms(2) k(1) by (simp add: skip_inv_def list_all_length)
  have i: "skip_inv C s0" using assms(2) by (auto simp: skip_inv_def s0_def list_all_iff dest: in_set_takeD in_set_dropD)
  obtain a b x where w: "wire s ! k = (a, b, x)" by (cases "wire s ! k")
  have ack: "\<not> acks_finish (tp_alg C) True" using assms(1) by (auto simp: skips_def needs_prepare_def acks_finish_def)
  show ?thesis
  proof (cases x)
    case (Rqry idxs)
    then show ?thesis using p m w i by (auto simp: process_rqry_def Let_def skip_inv_def)
  next
    case (RqryRsp rc)
    have "tp_home C \<in> set (partitions_touched (mans s0 (tp_home C)))" using i by (simp add: skip_inv_def)
    then have "upd (tp_home C) (\<lambda>m. m\<lparr>partitions_touched := add_unique (tp_home C) (partitions_touched m)\<rparr>) s0 = s0"
      by (simp add: upd_def add_unique_def fun_upd_idem)
    then have "run_txn C s0 = run_loop C s0" by (simp add: run_txn_def Let_def)
    then show ?thesis using RqryRsp p m w skip_run [OF assms(1) i] by (simp add: process_rqry_rsp_def assert_that_def)
  next
    case (Rfin rc ro)
    then show ?thesis using p m w i ack by (auto simp: process_rfin_def assert_that_def Let_def skip_inv_def new_man_def)
  qed (use m w in auto)
qed

lemma skip_start:
  assumes "skips C" shows "skip_inv C (tp_start C)"
proof -
  let ?h = "tp_home C"
  define s where "s = upd ?h (\<lambda>m. m\<lparr>partitions_touched := [?h]\<rparr>) \<lparr>mans = (\<lambda>_. new_man), releases = (\<lambda>_. []), wire = [], answer = None\<rparr>"
  have "tp_start C = check_if_done C (run_loop C s)"
    by (simp add: tp_start_def process_rtxn_def run_txn_def Let_def s_def new_man_def add_unique_def upd_def fun_upd_def)
  moreover have "skip_inv C s" by (simp add: skip_inv_def s_def new_man_def)
  ultimately show ?thesis using skip_run [OF assms] by simp
qed

text \<open>
  Claim C39. A read-only transaction on several nodes, under an algorithm that does not send prepare messages for
  it, is never answered: \<open>start_commit\<close> tells the participants to finish, who do not acknowledge, and
  returns \<open>WAIT_REM\<close> without a commit. The client gets no response and the home node keeps its locks.
\<close>

theorem readonly_never_answered:
  assumes "\<not> needs_prepare C" "tp_alg C \<noteq> ALG_TICTOC" "\<And>k. k < length (tp_requests C) \<Longrightarrow> tp_get_row C k"
    and "n \<in> set (tp_requests C)" "n \<noteq> tp_home C" "(tp_step C)\<^sup>*\<^sup>* (tp_start C) s"
  shows "answer s = None \<and> releases s (tp_home C) = []"
proof -
  have c: "skips C" using assms(1-5) by (auto simp: skips_def rows_ok_def in_set_conv_nth)
  have "skip_inv C s" using assms(6) by (induction rule: rtranclp_induct) (use skip_start [OF c] skip_step [OF c] in auto)
  then show ?thesis by (simp add: skip_inv_def)
qed

theorem readonly_never_answered_witness:
  "\<exists>s. (tp_step ((ex_txn (\<lambda>_. True))\<lparr>tp_readonly := True\<rparr>))\<^sup>*\<^sup>* (tp_start ((ex_txn (\<lambda>_. True))\<lparr>tp_readonly := True\<rparr>)) s \<and>
    releases s 1 = [RCOK] \<and> releases s 2 = [RCOK] \<and> wire s = [] \<and> answer s = None \<and> releases s 0 = []"
proof -
  let ?C = "(ex_txn (\<lambda>_. True))\<lparr>tp_readonly := True\<rparr>"
  define v where "v = bind_result (tp_run ?C (replicate 8 0) (tp_start ?C)) (\<lambda>s. Inr (releases s 1, releases s 2, wire s))"
  have "v = Inr ([RCOK], [RCOK], [])" unfolding v_def by code_simp
  then obtain s where s: "tp_run ?C (replicate 8 0) (tp_start ?C) = Inr s" "releases s 1 = [RCOK]" "releases s 2 = [RCOK]" "wire s = []"
    by (auto simp: v_def bind_result_Inr_iff)
  have r: "(tp_step ?C)\<^sup>*\<^sup>* (tp_start ?C) s" using tp_run_steps [OF s(1)] by (rule relpowp_imp_rtranclp)
  have "\<not> needs_prepare ?C" by code_simp
  then show ?thesis using readonly_never_answered [of ?C 1 s] r s by (auto simp: ex_txn_def)
qed

section \<open>Nodes whose partition has moved\<close>

text \<open>No partition that the transaction touches is taken to be at node \<open>p\<close>, so \<open>p\<close> is never told to finish.\<close>

fun unreached_msg :: "tp_cfg \<Rightarrow> nat \<Rightarrow> nat \<times> nat \<times> tp_msg \<Rightarrow> bool" where
  "unreached_msg C p (a, b, Rqry idxs) \<longleftrightarrow> a = tp_home C"
| "unreached_msg C p (a, b, RqryRsp rc) \<longleftrightarrow> b = tp_home C"
| "unreached_msg C p (a, b, Rprepare) \<longleftrightarrow> a = tp_home C \<and> b \<noteq> p"
| "unreached_msg C p (a, b, RackPrep rc) \<longleftrightarrow> b = tp_home C"
| "unreached_msg C p (a, b, Rfin rc ro) \<longleftrightarrow> b \<noteq> p"
| "unreached_msg C p (a, b, RackFin rc) \<longleftrightarrow> b = tp_home C"

definition unreached :: "tp_cfg \<Rightarrow> nat \<Rightarrow> tp_state \<Rightarrow> bool" where
  "unreached C p s \<longleftrightarrow> RCOK \<notin> set (releases s p) \<and> list_all (unreached_msg C p) (wire s) \<and>
     set (partitions_touched (mans s (tp_home C))) \<subseteq> all_nodes C"

definition moved :: "tp_cfg \<Rightarrow> nat \<Rightarrow> bool" where
  "moved C p \<longleftrightarrow> p \<noteq> tp_home C \<and> (\<forall>q\<in>all_nodes C. tp_part_node C q \<noteq> p)"

lemma unreached_send:
  assumes "moved C p" "unreached C p s" "x = Rprepare \<or> (\<exists>rc ro. x = Rfin rc ro)" shows "unreached C p (send_to_touched C x s)"
  using assms by (auto simp: unreached_def send_to_touched_def Let_def moved_def list_all_iff)

lemma unreached_upd:
  "unreached C p s \<Longrightarrow> partitions_touched (f (mans s n)) = partitions_touched (mans s n) \<or> partitions_touched (f (mans s n)) = [] \<Longrightarrow> unreached C p (upd n f s)"
  by (auto simp: unreached_def)

lemma unreached_finish: "moved C p \<Longrightarrow> unreached C p s \<Longrightarrow> unreached C p (send_finish_messages C s)"
  by (simp add: send_finish_messages_def unreached_send)

lemma unreached_abort: "unreached C p s \<Longrightarrow> unreached C p (txn_abort n s)"
  by (auto simp: unreached_def)

lemma unreached_commit: "moved C p \<Longrightarrow> unreached C p s \<Longrightarrow> n \<noteq> p \<Longrightarrow> unreached C p (txn_commit n s)"
  by (auto simp: unreached_def)

lemma unreached_reply: "unreached C p s \<Longrightarrow> unreached_msg C p (a, b, x) \<Longrightarrow> unreached C p (send a b x s)"
  by (auto simp: unreached_def)

lemma unreached_answer: "unreached C p s \<Longrightarrow> unreached C p (s\<lparr>answer := a\<rparr>)"
  by (auto simp: unreached_def)

lemma unreached_start_abort: "moved C p \<Longrightarrow> unreached C p s \<Longrightarrow> unreached C p (snd (start_abort C s))"
  by (auto simp: start_abort_def Let_def intro!: unreached_abort unreached_finish unreached_upd)

lemma unreached_start_commit:
  assumes "moved C p" "unreached C p s" shows "unreached C p (snd (start_commit C s))"
proof -
  have "tp_home C \<noteq> p" using assms(1) by (simp add: moved_def)
  then show ?thesis using assms
    by (auto simp: start_commit_def Let_def send_prepare_messages_def intro!: unreached_abort unreached_finish unreached_upd unreached_send unreached_commit)
qed

lemma unreached_done: "unreached C p (snd r) \<Longrightarrow> unreached C p (check_if_done C r)"
  by (cases r) (auto simp: check_if_done_def worker_commit_def worker_abort_def txn_reset_def new_man_def intro!: unreached_answer unreached_upd)

lemma unreached_run: "moved C p \<Longrightarrow> unreached C p s \<Longrightarrow> unreached C p (snd (run_loop C s))"
proof (induction C s rule: run_loop.induct)
  case (1 C s)
  let ?h = "tp_home C" and ?i = "next_record_id (mans s (tp_home C))" and ?L = "length (tp_requests C)"
  let ?s = "upd ?h (\<lambda>m. m\<lparr>next_record_id := ?i + 1\<rparr>) s"
  consider "?i \<ge> ?L" | "?i < ?L" "tp_requests C ! ?i = ?h" "tp_get_row C ?i" | "?i < ?L" "tp_requests C ! ?i = ?h" "\<not> tp_get_row C ?i"
    | "?i < ?L" "tp_requests C ! ?i \<noteq> ?h" by linarith
  then show ?case
  proof cases
    case 1
    then have "run_loop C s = start_commit C s" by (subst run_loop.simps) (simp add: Let_def)
    then show ?thesis using unreached_start_commit "1.prems" by simp
  next
    case 2
    have e: "run_loop C s = run_loop C ?s" using 2 by (subst run_loop.simps) (simp add: Let_def)
    have "unreached C p ?s" using "1.prems"(2) by (auto intro: unreached_upd)
    then show ?thesis using "1.IH" [OF refl refl _ _ 2(3) "1.prems"(1)] 2 e by simp
  next
    case 3
    then have "run_loop C s = start_abort C s" by (subst run_loop.simps) (simp add: Let_def)
    then show ?thesis using unreached_start_abort "1.prems" by simp
  next
    case 4
    then have "run_loop C s = send_remote_request C s" by (subst run_loop.simps) (simp add: Let_def)
    then show ?thesis using "1.prems"(2) 4(1) by (auto simp: send_remote_request_def Let_def unreached_def add_unique_set all_nodes_def)
  qed
qed

lemma unreached_run_txn: "moved C p \<Longrightarrow> unreached C p s \<Longrightarrow> unreached C p (snd (run_txn C s))"
  by (auto simp: run_txn_def Let_def unreached_def add_unique_set all_nodes_def intro!: unreached_run [unfolded unreached_def all_nodes_def])

lemma received_touched: "received_response rc m = Inr m' \<Longrightarrow> partitions_touched m' = partitions_touched m"
  by (auto simp: received_response_def bind_result_Inr_iff)

lemma unreached_rack_prep:
  assumes "moved C p" "unreached C p s" "process_rack_prep C (tp_home C) rc s = Inr s'" shows "unreached C p s'"
proof -
  obtain m where m: "received_response rc (mans s (tp_home C)) = Inr m" using assms(3) by (auto simp: process_rack_prep_def bind_result_Inr_iff)
  have u: "unreached C p (upd (tp_home C) (\<lambda>_. m) s)" using assms(2) received_touched [OF m] by (auto intro: unreached_upd)
  have "tp_home C \<noteq> p" using assms(1) by (simp add: moved_def)
  then show ?thesis using assms(1,3) m u
    by (auto simp: process_rack_prep_def Let_def assert_that_def split: if_splits
        intro!: unreached_abort unreached_finish unreached_commit intro: unreached_upd)
qed

lemma unreached_rack_fin:
  assumes "unreached C p s" "process_rack_rfin C (tp_home C) rc s = Inr s'" shows "unreached C p s'"
proof -
  obtain m where m: "received_response rc (mans s (tp_home C)) = Inr m" using assms(2) by (auto simp: process_rack_rfin_def bind_result_Inr_iff)
  have u: "unreached C p (upd (tp_home C) (\<lambda>_. m) s)" using assms(1) received_touched [OF m] by (auto intro: unreached_upd)
  then show ?thesis using assms(2) m
    by (auto simp: process_rack_rfin_def Let_def worker_commit_def worker_abort_def txn_reset_def new_man_def split: if_splits
        intro!: unreached_answer intro: unreached_upd)
qed

lemma unreached_rfin:
  assumes "moved C p" "unreached C p s" "n \<noteq> p" "process_rfin C n rc ro s = Inr s'" shows "unreached C p s'"
  using assms by (auto simp: process_rfin_def bind_result_Inr_iff Let_def txn_reset_def reset_query_def new_man_def split: if_splits
      intro!: unreached_reply unreached_upd unreached_abort unreached_commit)

lemma unreached_step:
  assumes "moved C p" "unreached C p s" "tp_step C s s'" shows "unreached C p s'"
proof -
  obtain k where k: "k < length (wire s)" "tp_deliver C k s = Inr s'" using assms(3) by (auto elim: tp_step.cases)
  define s0 where "s0 = s\<lparr>wire := take k (wire s) @ drop (Suc k) (wire s)\<rparr>"
  obtain a b x where w: "wire s ! k = (a, b, x)" by (cases "wire s ! k")
  have pr: "tp_process C (a, b, x) s0 = Inr s'" using k w by (simp add: tp_deliver_def s0_def)
  have m: "unreached_msg C p (a, b, x)" using assms(2) k(1) w by (auto simp: unreached_def list_all_length)
  have u: "unreached C p s0" using assms(2) by (auto simp: unreached_def s0_def list_all_iff dest: in_set_takeD in_set_dropD)
  show ?thesis
  proof (cases x)
    case (Rqry idxs)
    then show ?thesis using pr m u unreached_start_abort [OF assms(1)]
      by (auto simp: process_rqry_def Let_def split: if_splits intro!: unreached_reply unreached_abort)
  next
    case (RqryRsp rc)
    then show ?thesis using pr m u unreached_start_abort [OF assms(1)] unreached_run_txn [OF assms(1)]
      by (auto simp: process_rqry_rsp_def assert_that_def split: if_splits intro!: unreached_done)
  next
    case Rprepare
    then show ?thesis using pr m u
      by (auto simp: process_rprepare_def Let_def split: if_splits intro!: unreached_abort unreached_reply unreached_upd)
  next
    case (RackPrep rc)
    then show ?thesis using pr m unreached_rack_prep [OF assms(1) u] by simp
  next
    case (Rfin rc ro)
    then show ?thesis using pr m unreached_rfin [OF assms(1) u] by simp
  next
    case (RackFin rc)
    then show ?thesis using pr m unreached_rack_fin [OF u] by simp
  qed
qed

lemma unreached_start: "moved C p \<Longrightarrow> unreached C p (tp_start C)"
  unfolding tp_start_def process_rtxn_def
  by (intro unreached_done unreached_run_txn) (auto simp: unreached_def new_man_def)

text \<open>Where a node takes a partition to be.\<close>

definition part_node :: "part_tables \<Rightarrow> nat \<Rightarrow> nat" where
  "part_node t q = (case get_part_node_id t q of Inr n \<Rightarrow> n | Inl _ \<Rightarrow> 0)"

lemma part_node_moved:
  assumes "process_set_partmap p d 2 \<lparr>part_map = part_map_init P, minipart_map = mm\<rparr> = Inr t" "q < part_cfg.g_node_cnt P" "part_cfg.g_node_cnt P \<le> part_cfg.g_part_cnt P"
  shows "part_node t q = (if q = p then d else q)"
  using assms
  by (auto simp: process_set_partmap_def update_part_map_def update_part_map_status_def bind_result_Inr_iff part_node_def get_part_node_id_def at_def
      part_map_init_def nth_list_update split: if_splits)

text \<open>
  Claim C40. Migration breaks two-phase commit. Participants are remembered as partitions, the number of the node
  standing for its first partition, and looked up in the partition map. After partition \<open>p\<close> has
  moved to another node, a transaction whose home is not \<open>p\<close> itself never sends a prepare or a finish message
  to node \<open>p\<close>; so, whatever the messages and decisions, it never commits there, even if it has requests there.
\<close>

theorem moved_participant_never_commits:
  assumes "process_set_partmap p d 2 \<lparr>part_map = part_map_init P, minipart_map = mm\<rparr> = Inr t" "d \<noteq> p" "part_cfg.g_node_cnt P \<le> part_cfg.g_part_cnt P"
    and "tp_part_node C = part_node t" "list_all (\<lambda>q. q < part_cfg.g_node_cnt P) (tp_home C # tp_requests C)" "tp_home C \<noteq> p"
    and "(tp_step C)\<^sup>*\<^sup>* (tp_start C) s"
  shows "RCOK \<notin> set (releases s p) \<and> (\<forall>a. (a, p, Rprepare) \<notin> set (wire s) \<and> (\<forall>rc ro. (a, p, Rfin rc ro) \<notin> set (wire s)))"
proof -
  have "part_node t q \<noteq> p" if "q \<in> all_nodes C" for q
  proof -
    have "q < part_cfg.g_node_cnt P" using assms(5) that by (auto simp: all_nodes_def list_all_iff)
    then show ?thesis using part_node_moved [OF assms(1) _ assms(3), of q] assms(2) by (cases "q = p") simp_all
  qed
  then have m: "moved C p" using assms(4,6) by (simp add: moved_def)
  have "unreached C p s" using assms(7)
    by (induction rule: rtranclp_induct) (use unreached_start [OF m] unreached_step [OF m] in auto)
  then show ?thesis by (auto simp: unreached_def list_all_iff)
qed

text \<open>In the example partition 1 has moved to node 0. The client is told of the commit, and node 1 keeps its locks.\<close>

definition ex_parts :: part_cfg where
  "ex_parts = \<lparr>g_node_cnt = 3, g_client_node_cnt = 1, g_part_cnt = 3, g_part_split_cnt = 1, g_synth_table_size = 3, g_part_alloc = True\<rparr>"

definition ex_moved :: part_tables where
  "ex_moved = \<lparr>part_map = [(0, 0), (0, 2), (2, 0)], minipart_map = []\<rparr>"

definition ex_moved_txn :: tp_cfg where
  "ex_moved_txn = \<lparr>tp_alg = ALG_NO_WAIT, tp_home = 2, tp_readonly = False, tp_requests = [1], tp_get_row = (\<lambda>_. True), tp_validate = (\<lambda>_. True), tp_part_node = part_node ex_moved\<rparr>"

theorem moved_participant_never_commits_witness:
  "\<exists>s. (tp_step ex_moved_txn)\<^sup>*\<^sup>* (tp_start ex_moved_txn) s \<and> answer s = Some Commit \<and> wire s = [] \<and> RCOK \<notin> set (releases s 1)"
proof -
  let ?C = ex_moved_txn
  define v where "v = bind_result (tp_run ?C (replicate 6 0) (tp_start ?C)) (\<lambda>s. Inr (answer s, wire s))"
  have "v = Inr (Some Commit, [])" unfolding v_def by code_simp
  then obtain s where s: "tp_run ?C (replicate 6 0) (tp_start ?C) = Inr s" "answer s = Some Commit" "wire s = []"
    by (auto simp: v_def bind_result_Inr_iff)
  have r: "(tp_step ?C)\<^sup>*\<^sup>* (tp_start ?C) s" using tp_run_steps [OF s(1)] by (rule relpowp_imp_rtranclp)
  have "process_set_partmap 1 0 2 \<lparr>part_map = part_map_init ex_parts, minipart_map = []\<rparr> = Inr ex_moved" by code_simp
  then show ?thesis using moved_participant_never_commits [of 1 0 ex_parts "[]" ex_moved ?C s] r s(2,3) by (auto simp: ex_parts_def ex_moved_txn_def)
qed

end
