(* ===== verification/Calvin.thy ===== *)
theory Calvin
imports Prelude
begin

text \<open>
  Deterministic scheduling with Calvin (\<open>system/sequencer.cpp\<close>, the sequencer and scheduler queues of
  \<open>system/work_queue.cpp\<close>, \<open>system/calvin_thread.cpp\<close>, the epochs of \<open>system/sim_manager.cpp\<close>). Every server numbers
  the transactions of its clients and sends them to their participants in batches, one for each epoch,
  closed by an \<open>RDONE\<close> message; the scheduler of a node takes the batches of an epoch from all servers
  in turn and hands their transactions to the lock manager. When all participants have executed a
  transaction, its server answers the client.

  Messages from one server to another arrive in the order they are sent: with Calvin, \<open>msg_queue\<close> uses one
  lane for the sequencer thread. Epochs and numbers are natural numbers. The workload is YCSB, so that no
  transaction is restarted after a reconnaissance; the execution by the workers is one step, and the
  locks that order it are in \<open>RowLock\<close>. That a bounded queue can be full, where the program waits, is not
  part of the model.
\<close>

section \<open>Transactions and messages\<close>

record cal_cfg =
  cal_nodes :: nat
  cal_clients :: nat
  cal_inflight :: nat

record cal_txn =
  ct_client :: nat
  ct_parts :: "nat list"
  ct_batch :: nat
  ct_id :: nat
  ct_node :: nat

datatype sched_msg = CTxn cal_txn | RDone nat

text \<open>\<open>YCSBQuery::participants\<close>: the set of the nodes of the requested keys, which is traversed in ascending order.\<close>

definition participants :: "nat list \<Rightarrow> nat list" where
  "participants nids = sort (remdups nids)"

section \<open>Sequencer\<close>

text \<open>
  The transactions of an epoch that wait for acknowledgements: for each the client and the number of
  acknowledgements that are missing.
\<close>

record qlite_ll =
  ql_epoch :: nat
  ql_list :: "nat \<Rightarrow> (nat \<times> nat) option"
  ql_size :: nat
  ql_max_size :: nat
  ql_txns_left :: nat

record sequencer =
  next_txn_id :: nat
  seq_epoch :: nat
  fill_queue :: "nat \<Rightarrow> cal_txn list"
  wl :: "qlite_ll list"

definition new_wait_list :: "nat \<Rightarrow> qlite_ll" where
  "new_wait_list e = \<lparr>ql_epoch = e, ql_list = (\<lambda>_. None), ql_size = 0, ql_max_size = 1000, ql_txns_left = 0\<rparr>"

definition current_lists :: "sequencer \<Rightarrow> qlite_ll list" where
  "current_lists S = (if wl S = [] \<or> ql_epoch (last (wl S)) \<noteq> seq_epoch S + 1 then wl S @ [new_wait_list (seq_epoch S + 1)] else wl S)"

definition grow :: "qlite_ll \<Rightarrow> qlite_ll" where
  "grow en = (if ql_size en = ql_max_size en then en\<lparr>ql_max_size := ql_max_size en * 2\<rparr> else en)"

definition add_entry :: "nat \<Rightarrow> nat \<times> nat \<Rightarrow> qlite_ll \<Rightarrow> qlite_ll" where
  "add_entry k x en = en\<lparr>ql_list := (ql_list en)(k \<mapsto> x), ql_size := ql_size en + 1, ql_txns_left := ql_txns_left en + 1\<rparr>"

definition process_txn :: "cal_cfg \<Rightarrow> nat \<Rightarrow> nat \<Rightarrow> nat list \<Rightarrow> sequencer \<Rightarrow> (sequencer \<times> cal_txn) result" where
  "process_txn G me client nids S =
    (let ls = current_lists S; en = grow (last ls);
         txn_id = me + cal_nodes G * next_txn_id S; k = txn_id div cal_nodes G;
         parts = participants nids;
         t = \<lparr>ct_client = client, ct_parts = parts, ct_batch = ql_epoch en, ct_id = txn_id, ct_node = me\<rparr>;
         en' = add_entry k (client, length parts) en
     in bind_result (assert_that (length parts > 0 \<and> client \<ge> cal_nodes G \<and> client < cal_nodes G + cal_clients G)) (\<lambda>_.
        if k \<ge> ql_max_size en then Inl Out_of_bounds
        else bind_result (assert_that (ql_size en' = ql_txns_left en' \<and> ql_size en' \<le> cal_inflight G * cal_nodes G)) (\<lambda>_.
          if \<not> list_all (\<lambda>p. p < cal_nodes G) parts then Inl Out_of_bounds
          else Inr (S\<lparr>next_txn_id := next_txn_id S + 1, wl := butlast ls @ [en'],
                      fill_queue := (\<lambda>j. if j \<in> set parts then fill_queue S j @ [t] else fill_queue S j)\<rparr>, t))))"

definition advance_seq_epoch :: "sequencer \<Rightarrow> sequencer" where
  "advance_seq_epoch S = S\<lparr>seq_epoch := seq_epoch S + 1\<rparr>"

text \<open>What goes to node \<open>j\<close>, and the sequencer afterwards.\<close>

definition batch_for :: "sequencer \<Rightarrow> nat \<Rightarrow> sched_msg list" where
  "batch_for S j = map CTxn (fill_queue S j) @ [RDone (seq_epoch S)]"

definition send_next_batch :: "sequencer \<Rightarrow> sequencer" where
  "send_next_batch S = S\<lparr>fill_queue := (\<lambda>_. []), next_txn_id := 0\<rparr>"

text \<open>An acknowledgement; the result has the client to answer, if it was the last one.\<close>

definition ack_entry :: "nat \<Rightarrow> qlite_ll \<Rightarrow> (qlite_ll \<times> nat option) result" where
  "ack_entry k en =
    bind_result (assert_that (ql_txns_left en > 0)) (\<lambda>_.
    case ql_list en k of
      None \<Rightarrow> Inl Out_of_bounds
    | Some (client, left) \<Rightarrow>
        bind_result (assert_that (left > 0)) (\<lambda>_.
          let en1 = en\<lparr>ql_list := (ql_list en)(k \<mapsto> (client, left - 1))\<rparr> in
          Inr (if left = 1 then (en1\<lparr>ql_txns_left := ql_txns_left en - 1\<rparr>, Some client) else (en1, None))))"

fun ack_lists :: "nat \<Rightarrow> nat \<Rightarrow> qlite_ll list \<Rightarrow> (qlite_ll list \<times> nat option) result" where
  "ack_lists e k [] = Inl Assert_failed"
| "ack_lists e k (en # ens) =
    (if ql_epoch en = e then bind_result (ack_entry k en) (\<lambda>(en', c). Inr (if ql_txns_left en' = 0 then ens else en' # ens, c))
     else bind_result (ack_lists e k ens) (\<lambda>(ens', c). Inr (en # ens', c)))"

definition process_ack :: "cal_cfg \<Rightarrow> nat \<Rightarrow> nat \<Rightarrow> sequencer \<Rightarrow> (sequencer \<times> nat option) result" where
  "process_ack G batch txn_id S = bind_result (ack_lists batch (txn_id div cal_nodes G) (wl S)) (\<lambda>(ls, c). Inr (S\<lparr>wl := ls\<rparr>, c))"

section \<open>Scheduler\<close>

record sched =
  sched_queue :: "nat \<Rightarrow> sched_msg list"
  sched_ptr :: nat
  worker_epoch :: nat

definition sched_enqueue :: "nat \<Rightarrow> sched_msg list \<Rightarrow> sched \<Rightarrow> sched" where
  "sched_enqueue src ms sc = sc\<lparr>sched_queue := (sched_queue sc)(src := sched_queue sc src @ ms)\<rparr>"

definition sched_dequeue :: "cal_cfg \<Rightarrow> sched \<Rightarrow> (sched \<times> cal_txn option) result" where
  "sched_dequeue G sc = (case sched_queue sc (sched_ptr sc) of
     [] \<Rightarrow> Inr (sc, None)
   | m # ms \<Rightarrow>
       let sc1 = sc\<lparr>sched_queue := (sched_queue sc)(sched_ptr sc := ms)\<rparr> in
       case m of
         RDone e \<Rightarrow> bind_result (assert_that (e = worker_epoch sc)) (\<lambda>_.
           Inr (sc1\<lparr>worker_epoch := (if sched_ptr sc = cal_nodes G - 1 then worker_epoch sc + 1 else worker_epoch sc),
                    sched_ptr := (sched_ptr sc + 1) mod cal_nodes G\<rparr>, None))
       | CTxn t \<Rightarrow> bind_result (assert_that (ct_batch t = worker_epoch sc)) (\<lambda>_. Inr (sc1, Some t)))"

section \<open>The servers together\<close>

text \<open>
  \<open>chan s i j\<close> is on the way from server \<open>i\<close> to server \<open>j\<close>, \<open>acks s i\<close> are acknowledgements on the way to the
  sequencer of \<open>i\<close>. The last four fields are the history: what each server has sequenced, handed to
  the lock manager, executed, and answered.
\<close>

record calvin =
  seqs :: "nat \<Rightarrow> sequencer"
  scheds :: "nat \<Rightarrow> sched"
  chan :: "nat \<Rightarrow> nat \<Rightarrow> sched_msg list"
  acks :: "nat \<Rightarrow> (nat \<times> nat) list"
  sequenced :: "nat \<Rightarrow> cal_txn list"
  locked :: "nat \<Rightarrow> cal_txn list"
  executed :: "nat \<Rightarrow> cal_txn list"
  answered :: "nat \<Rightarrow> (nat \<times> nat \<times> nat) list"

datatype cal_event = Client nat nat "nat list" | Batch nat | Net nat nat | Sched nat | Exec nat nat | Ack nat nat

definition cal_client :: "cal_cfg \<Rightarrow> nat \<Rightarrow> nat \<Rightarrow> nat list \<Rightarrow> calvin \<Rightarrow> calvin result" where
  "cal_client G i client nids s = bind_result (process_txn G i client nids (seqs s i)) (\<lambda>(S, t).
     Inr (s\<lparr>seqs := (seqs s)(i := S), sequenced := (sequenced s)(i := sequenced s i @ [t])\<rparr>))"

definition cal_batch :: "nat \<Rightarrow> calvin \<Rightarrow> calvin" where
  "cal_batch i s =
    (let S = advance_seq_epoch (seqs s i) in
     s\<lparr>seqs := (seqs s)(i := send_next_batch S), scheds := (scheds s)(i := sched_enqueue i (batch_for S i) (scheds s i)),
       chan := (chan s)(i := (\<lambda>j. if j = i then chan s i j else chan s i j @ batch_for S j))\<rparr>)"

definition cal_net :: "nat \<Rightarrow> nat \<Rightarrow> calvin \<Rightarrow> calvin" where
  "cal_net i j s = (case chan s i j of
     [] \<Rightarrow> s
   | m # ms \<Rightarrow> s\<lparr>chan := (chan s)(i := (chan s i)(j := ms)), scheds := (scheds s)(j := sched_enqueue i [m] (scheds s j))\<rparr>)"

definition cal_sched :: "cal_cfg \<Rightarrow> nat \<Rightarrow> calvin \<Rightarrow> calvin result" where
  "cal_sched G j s = bind_result (sched_dequeue G (scheds s j)) (\<lambda>(sc, mt).
     Inr (s\<lparr>scheds := (scheds s)(j := sc), locked := (locked s)(j := locked s j @ (case mt of None \<Rightarrow> [] | Some t \<Rightarrow> [t]))\<rparr>))"

text \<open>A worker has executed a transaction, in any order that the locks allow, and acknowledges it.\<close>

definition calvin_wrapup :: "nat \<Rightarrow> nat \<Rightarrow> calvin \<Rightarrow> calvin" where
  "calvin_wrapup j k s =
    (if k < length (locked s j) \<and> locked s j ! k \<notin> set (executed s j)
     then let t = locked s j ! k in
       s\<lparr>executed := (executed s)(j := executed s j @ [t]), acks := (acks s)(ct_node t := acks s (ct_node t) @ [(ct_batch t, ct_id t)])\<rparr>
     else s)"

definition cal_ack :: "cal_cfg \<Rightarrow> nat \<Rightarrow> nat \<Rightarrow> calvin \<Rightarrow> calvin result" where
  "cal_ack G i k s =
    (if k < length (acks s i)
     then let a = acks s i ! k in
       bind_result (process_ack G (fst a) (snd a) (seqs s i)) (\<lambda>(S, c).
         Inr (s\<lparr>seqs := (seqs s)(i := S), acks := (acks s)(i := take k (acks s i) @ drop (Suc k) (acks s i)),
                answered := (answered s)(i := answered s i @ (case c of None \<Rightarrow> [] | Some client \<Rightarrow> [(client, a)]))\<rparr>))
     else Inr s)"

fun cal_event_node :: "cal_event \<Rightarrow> nat \<times> nat" where
  "cal_event_node (Client i c ns) = (i, i)"
| "cal_event_node (Batch i) = (i, i)"
| "cal_event_node (Net i j) = (i, j)"
| "cal_event_node (Sched j) = (j, j)"
| "cal_event_node (Exec j k) = (j, j)"
| "cal_event_node (Ack i k) = (i, i)"

fun cal_step :: "cal_cfg \<Rightarrow> cal_event \<Rightarrow> calvin \<Rightarrow> calvin result" where
  "cal_step G (Client i c ns) s = cal_client G i c ns s"
| "cal_step G (Batch i) s = Inr (cal_batch i s)"
| "cal_step G (Net i j) s = Inr (cal_net i j s)"
| "cal_step G (Sched j) s = cal_sched G j s"
| "cal_step G (Exec j k) s = Inr (calvin_wrapup j k s)"
| "cal_step G (Ack i k) s = cal_ack G i k s"

text \<open>Only servers take part.\<close>

fun cal_run :: "cal_cfg \<Rightarrow> cal_event list \<Rightarrow> calvin \<Rightarrow> calvin result" where
  "cal_run G [] s = Inr s"
| "cal_run G (e # es) s =
    (if fst (cal_event_node e) < cal_nodes G \<and> snd (cal_event_node e) < cal_nodes G
     then bind_result (cal_step G e s) (cal_run G es) else cal_run G es s)"

definition cal_init :: calvin where
  "cal_init = \<lparr>seqs = (\<lambda>_. \<lparr>next_txn_id = 0, seq_epoch = 0, fill_queue = (\<lambda>_. []), wl = []\<rparr>),
     scheds = (\<lambda>_. \<lparr>sched_queue = (\<lambda>_. []), sched_ptr = 0, worker_epoch = 1\<rparr>), chan = (\<lambda>_ _. []), acks = (\<lambda>_. []),
     sequenced = (\<lambda>_. []), locked = (\<lambda>_. []), executed = (\<lambda>_. []), answered = (\<lambda>_. [])\<rparr>"

end
