(* ===== verification/CalvinOrder.thy ===== *)
theory CalvinOrder
imports Calvin
begin

text \<open>
  All nodes schedule in one order: the epochs one after the other, in an epoch the servers one after the
  other, and the transactions of a server as it has numbered them. When a node has finished an
  epoch it has scheduled all its transactions of this epoch.
\<close>

section \<open>The invariant\<close>

text \<open>The transactions that server \<open>i\<close> has put into epoch \<open>e\<close> for node \<open>j\<close>, and the messages for \<open>j\<close> from epoch \<open>a\<close> on.\<close>

definition batch_of :: "calvin \<Rightarrow> nat \<Rightarrow> nat \<Rightarrow> nat \<Rightarrow> cal_txn list" where
  "batch_of s i e j = filter (\<lambda>t. ct_batch t = e \<and> j \<in> set (ct_parts t)) (sequenced s i)"

definition stream :: "calvin \<Rightarrow> nat \<Rightarrow> nat \<Rightarrow> nat \<Rightarrow> sched_msg list" where
  "stream s i j a = concat (map (\<lambda>e. map CTxn (batch_of s i e j) @ [RDone e]) [a..<Suc (seq_epoch (seqs s i))])"

definition pending :: "calvin \<Rightarrow> nat \<Rightarrow> nat \<Rightarrow> sched_msg list" where
  "pending s i j = sched_queue (scheds s j) i @ chan s i j"

definition epoch_of :: "cal_cfg \<Rightarrow> calvin \<Rightarrow> nat \<Rightarrow> nat \<Rightarrow> cal_txn list" where
  "epoch_of G s e j = concat (map (\<lambda>i. batch_of s i e j) [0..<cal_nodes G])"

definition txn_less :: "cal_txn \<Rightarrow> cal_txn \<Rightarrow> bool" where
  "txn_less t u \<longleftrightarrow> ct_batch t < ct_batch u \<or> ct_batch t = ct_batch u \<and> (ct_node t < ct_node u \<or> ct_node t = ct_node u \<and> ct_id t < ct_id u)"

definition seq_inv :: "cal_cfg \<Rightarrow> calvin \<Rightarrow> nat \<Rightarrow> bool" where
  "seq_inv G s i \<longleftrightarrow> (let S = seqs s i in
     (\<forall>j. fill_queue S j = batch_of s i (Suc (seq_epoch S)) j) \<and>
     (\<forall>t\<in>set (sequenced s i). 0 < ct_batch t \<and> ct_batch t \<le> Suc (seq_epoch S) \<and> ct_node t = i \<and>
        (ct_batch t = Suc (seq_epoch S) \<longrightarrow> ct_id t < i + cal_nodes G * next_txn_id S)) \<and>
     sorted_wrt txn_less (sequenced s i))"

text \<open>\<open>part\<close> is what the scheduler of \<open>j\<close> has taken of the batch it is working on.\<close>

definition sched_inv :: "cal_cfg \<Rightarrow> calvin \<Rightarrow> nat \<Rightarrow> bool" where
  "sched_inv G s j \<longleftrightarrow> (let w = worker_epoch (scheds s j); p = sched_ptr (scheds s j) in
     p < cal_nodes G \<and> 0 < w \<and>
     (\<forall>i<cal_nodes G. (i < p \<longrightarrow> w \<le> seq_epoch (seqs s i) \<and> pending s i j = stream s i j (Suc w)) \<and>
        (p < i \<longrightarrow> w \<le> Suc (seq_epoch (seqs s i)) \<and> pending s i j = stream s i j w)) \<and>
     w \<le> Suc (seq_epoch (seqs s p)) \<and>
     (\<exists>part. map CTxn part @ pending s p j = stream s p j w \<and>
        locked s j = concat (map (\<lambda>e. epoch_of G s e j) [1..<w]) @ concat (map (\<lambda>i. batch_of s i w j) [0..<p]) @ part))"

definition cal_inv :: "cal_cfg \<Rightarrow> calvin \<Rightarrow> bool" where
  "cal_inv G s \<longleftrightarrow> (\<forall>i<cal_nodes G. seq_inv G s i \<and> sched_inv G s i \<and> chan s i i = [])"

lemma stream_next:
  "a \<le> Suc (seq_epoch (seqs s i)) \<Longrightarrow> stream s i j a @ map CTxn (batch_of s i (Suc (seq_epoch (seqs s i))) j) @ [RDone (Suc (seq_epoch (seqs s i)))] =
    concat (map (\<lambda>e. map CTxn (batch_of s i e j) @ [RDone e]) [a..<Suc (Suc (seq_epoch (seqs s i)))])"
  by (simp add: stream_def)

lemma stream_first:
  "a \<le> seq_epoch (seqs s i) \<Longrightarrow> stream s i j a = map CTxn (batch_of s i a j) @ RDone a # stream s i j (Suc a)"
  by (simp add: stream_def upt_conv_Cons del: upt_Suc)

lemma stream_none: "seq_epoch (seqs s i) < a \<Longrightarrow> stream s i j a = []"
  by (simp add: stream_def)

lemma stream_cong:
  assumes "seq_epoch (seqs s' i) = seq_epoch (seqs s i)" "\<And>e. e \<le> seq_epoch (seqs s i) \<Longrightarrow> batch_of s' i e j = batch_of s i e j"
  shows "stream s' i j a = stream s i j a"
  unfolding stream_def assms(1) using assms(2) by (intro arg_cong [of _ _ concat] map_cong) auto

lemma next_txn:
  "map CTxn xs @ CTxn t # ys = map CTxn bs @ RDone w # zs \<Longrightarrow> \<exists>cs. bs = xs @ t # cs \<and> ys = map CTxn cs @ RDone w # zs"
proof (induction xs arbitrary: bs)
  case Nil
  then show ?case by (cases bs) auto
next
  case (Cons x xs)
  then show ?case by (cases bs) auto
qed

lemma next_done: "map CTxn xs @ RDone e # ys = map CTxn bs @ RDone w # zs \<Longrightarrow> xs = bs \<and> e = w \<and> ys = zs"
proof (induction xs arbitrary: bs)
  case Nil
  then show ?case by (cases bs) auto
next
  case (Cons x xs)
  then show ?case by (cases bs) auto
qed

section \<open>Steps that leave the schedulers' input alone\<close>

text \<open>A step keeps the invariant of a scheduler if it changes neither its position, nor the batches already sent, nor what is pending.\<close>

lemma sched_inv_cong:
  assumes "sched_inv G s j" "worker_epoch (scheds s' j) = worker_epoch (scheds s j)" "sched_ptr (scheds s' j) = sched_ptr (scheds s j)"
    and "locked s' j = locked s j" and "\<And>i. i < cal_nodes G \<Longrightarrow> seq_epoch (seqs s i) \<le> seq_epoch (seqs s' i)"
    and b: "\<And>i e. i < cal_nodes G \<Longrightarrow> e \<le> seq_epoch (seqs s i) \<Longrightarrow> batch_of s' i e j = batch_of s i e j"
    and p: "\<And>i a. i < cal_nodes G \<Longrightarrow> a \<le> Suc (seq_epoch (seqs s i)) \<Longrightarrow> \<exists>new. pending s' i j = pending s i j @ new \<and> stream s' i j a = stream s i j a @ new"
  shows "sched_inv G s' j"
proof -
  let ?w = "worker_epoch (scheds s j)" and ?p = "sched_ptr (scheds s j)" and ?N = "cal_nodes G"
  obtain part where inv: "?p < ?N" "0 < ?w" "\<forall>i<?N. (i < ?p \<longrightarrow> ?w \<le> seq_epoch (seqs s i) \<and> pending s i j = stream s i j (Suc ?w)) \<and>
        (?p < i \<longrightarrow> ?w \<le> Suc (seq_epoch (seqs s i)) \<and> pending s i j = stream s i j ?w)" "?w \<le> Suc (seq_epoch (seqs s ?p))"
     "map CTxn part @ pending s ?p j = stream s ?p j ?w"
     "locked s j = concat (map (\<lambda>e. epoch_of G s e j) [1..<?w]) @ concat (map (\<lambda>i. batch_of s i ?w j) [0..<?p]) @ part"
    using assms(1) by (auto simp: sched_inv_def Let_def)
  have w: "?w \<le> Suc (seq_epoch (seqs s i))" if "i < ?N" for i using inv(3,4) that by (cases i ?p rule: linorder_cases) auto
  have "epoch_of G s' e j = epoch_of G s e j" if "e < ?w" for e
  proof -
    have "batch_of s' i e j = batch_of s i e j" if "i < ?N" for i using b [OF that] w [OF that] \<open>e < ?w\<close> by simp
    then show ?thesis unfolding epoch_of_def by (intro arg_cong [of _ _ concat] map_cong) auto
  qed
  then have "concat (map (\<lambda>e. epoch_of G s' e j) [1..<?w]) = concat (map (\<lambda>e. epoch_of G s e j) [1..<?w])"
    by (intro arg_cong [of _ _ concat] map_cong) auto
  moreover have "concat (map (\<lambda>i. batch_of s' i ?w j) [0..<?p]) = concat (map (\<lambda>i. batch_of s i ?w j) [0..<?p])"
    using b inv(1,3) by (intro arg_cong [of _ _ concat] map_cong) auto
  moreover have "map CTxn part @ pending s' ?p j = stream s' ?p j ?w" using p [OF inv(1) inv(4)] inv(5) by auto
  moreover have "i < ?N \<Longrightarrow> i < ?p \<Longrightarrow> ?w \<le> seq_epoch (seqs s' i) \<and> pending s' i j = stream s' i j (Suc ?w)" for i
    using inv(3) p [of i "Suc ?w"] assms(5) [of i] by fastforce
  moreover have "i < ?N \<Longrightarrow> ?p < i \<Longrightarrow> ?w \<le> Suc (seq_epoch (seqs s' i)) \<and> pending s' i j = stream s' i j ?w" for i
    using inv(3) p [of i ?w] assms(5) [of i] by fastforce
  moreover have "?w \<le> Suc (seq_epoch (seqs s' ?p))" using inv(4) assms(5) [OF inv(1)] by simp
  ultimately show ?thesis unfolding sched_inv_def Let_def assms(2-4) using inv(1,2,6) by auto
qed

lemma current_epoch: "ql_epoch (last (current_lists S)) = Suc (seq_epoch S)"
  by (simp add: current_lists_def new_wait_list_def)

lemma grow_epoch [simp]: "ql_epoch (grow en) = ql_epoch en"
  by (simp add: grow_def)

lemma process_txn_result:
  assumes "process_txn G i client nids S = Inr (S', t)"
  shows "seq_epoch S' = seq_epoch S" "next_txn_id S' = Suc (next_txn_id S)" "ct_batch t = Suc (seq_epoch S)" "ct_node t = i"
    "ct_id t = i + cal_nodes G * next_txn_id S" "fill_queue S' = (\<lambda>j. if j \<in> set (ct_parts t) then fill_queue S j @ [t] else fill_queue S j)"
  using assms by (auto simp: process_txn_def Let_def bind_result_Inr_iff current_epoch split: if_splits)

lemma client_inv:
  assumes inv: "cal_inv G s" and i: "i < cal_nodes G" and "cal_client G i client nids s = Inr s'"
  shows "cal_inv G s'"
proof -
  let ?N = "cal_nodes G" and ?e = "seq_epoch (seqs s i)"
  obtain S t where pr: "process_txn G i client nids (seqs s i) = Inr (S, t)"
    and s': "s' = s\<lparr>seqs := (seqs s)(i := S), sequenced := (sequenced s)(i := sequenced s i @ [t])\<rparr>"
    using assms(3) by (auto simp: cal_client_def bind_result_Inr_iff)
  note r = process_txn_result [OF pr]
  have si: "seq_inv G s i" using inv i by (simp add: cal_inv_def)
  have f: "seqs s' = (seqs s)(i := S)" "sequenced s' = (sequenced s)(i := sequenced s i @ [t])" "scheds s' = scheds s" "chan s' = chan s" "locked s' = locked s"
    by (simp_all add: s')
  have b: "batch_of s' k e j = batch_of s k e j @ (if k = i \<and> e = Suc ?e \<and> j \<in> set (ct_parts t) then [t] else [])" for k e j
    by (auto simp: batch_of_def f r(3))
  have ep: "seq_epoch (seqs s' k) = seq_epoch (seqs s k)" for k by (simp add: f r(1))
  have "txn_less u t" if "u \<in> set (sequenced s i)" for u
  proof -
    have "ct_batch u \<le> Suc ?e" "ct_node u = i" "ct_batch u = Suc ?e \<longrightarrow> ct_id u < i + ?N * next_txn_id (seqs s i)"
      using si that by (auto simp: seq_inv_def Let_def)
    then show ?thesis using r(3,4,5) by (auto simp: txn_less_def)
  qed
  then have "sorted_wrt txn_less (sequenced s' i)" using si by (simp add: f sorted_wrt_append seq_inv_def Let_def)
  moreover have "fill_queue (seqs s' i) j = batch_of s' i (Suc ?e) j" for j using si r(6) b [of i "Suc ?e" j] by (simp add: f seq_inv_def Let_def)
  moreover have "0 < ct_batch u \<and> ct_batch u \<le> Suc ?e \<and> ct_node u = i \<and> (ct_batch u = Suc ?e \<longrightarrow> ct_id u < i + ?N * next_txn_id (seqs s' i))"
    if "u \<in> set (sequenced s' i)" for u
  proof (cases "u = t")
    case True
    have "0 < ?N" using i by simp
    then show ?thesis using True r by (simp add: f)
  next
    case False
    then have "u \<in> set (sequenced s i)" using that by (simp add: f)
    then have "0 < ct_batch u \<and> ct_batch u \<le> Suc ?e \<and> ct_node u = i \<and> (ct_batch u = Suc ?e \<longrightarrow> ct_id u < i + ?N * next_txn_id (seqs s i))"
      using si by (auto simp: seq_inv_def Let_def)
    then show ?thesis using r(2) by (auto simp: f)
  qed
  ultimately have "seq_inv G s' i" using ep by (simp add: seq_inv_def Let_def)
  moreover have "seq_inv G s' k" if "k < ?N" "k \<noteq> i" for k
    using inv that b [of k] by (simp add: cal_inv_def seq_inv_def Let_def f)
  moreover have "sched_inv G s' j" if "j < ?N" for j
  proof (rule sched_inv_cong [of G s j s'])
    show "sched_inv G s j" using inv that by (simp add: cal_inv_def)
    have be: "batch_of s' k e j = batch_of s k e j" if "e \<le> seq_epoch (seqs s k)" for k e using b [of k e j] that by auto
    then show "batch_of s' k e j = batch_of s k e j" if "e \<le> seq_epoch (seqs s k)" for k e using that by blast
    show "\<exists>new. pending s' k j = pending s k j @ new \<and> stream s' k j a = stream s k j a @ new" for k a
      using stream_cong [of s' k s j a, OF ep be] by (simp add: pending_def f)
  qed (simp_all add: f ep r(1))
  ultimately show ?thesis using inv unfolding cal_inv_def f by metis
qed

lemma batch_inv:
  assumes inv: "cal_inv G s" and i: "i < cal_nodes G" shows "cal_inv G (cal_batch i s)"
proof -
  let ?N = "cal_nodes G" and ?e = "seq_epoch (seqs s i)"
  define s' where "s' = cal_batch i s"
  define S where "S = send_next_batch (advance_seq_epoch (seqs s i))"
  have S: "seq_epoch S = Suc ?e" "next_txn_id S = 0" "fill_queue S = (\<lambda>_. [])" by (simp_all add: S_def send_next_batch_def advance_seq_epoch_def)
  define out where "out j = map CTxn (fill_queue (seqs s i) j) @ [RDone (Suc ?e)]" for j
  have f: "seqs s' = (seqs s)(i := S)" "sequenced s' = sequenced s" "locked s' = locked s"
    "worker_epoch (scheds s' j) = worker_epoch (scheds s j)" "sched_ptr (scheds s' j) = sched_ptr (scheds s j)" for j
    by (simp_all add: s'_def cal_batch_def Let_def S_def sched_enqueue_def)
  have c: "chan s i i = []" using inv i by (simp add: cal_inv_def)
  have pend: "pending s' k j = pending s k j @ (if k = i then out j else [])" for k j
    using c by (auto simp: s'_def cal_batch_def Let_def pending_def sched_enqueue_def batch_for_def advance_seq_epoch_def out_def)
  have b: "batch_of s' k e j = batch_of s k e j" for k e j by (simp add: batch_of_def f)
  have si: "fill_queue (seqs s i) j = batch_of s i (Suc ?e) j" "sorted_wrt txn_less (sequenced s i)"
    "\<forall>t\<in>set (sequenced s i). 0 < ct_batch t \<and> ct_batch t \<le> Suc ?e \<and> ct_node t = i" for j
    using inv i by (auto simp: cal_inv_def seq_inv_def Let_def)
  have str: "stream s' k j a = stream s k j a @ (if k = i then out j else [])" if "a \<le> Suc (seq_epoch (seqs s k))" for k j a
    using that by (auto simp: stream_def b f S out_def si(1))
  have "batch_of s i (Suc (Suc ?e)) j = []" for j using si(3) by (auto simp: batch_of_def filter_empty_conv)
  then have "seq_inv G s' i" using si(2,3) by (auto simp: seq_inv_def Let_def f S b)
  moreover have "seq_inv G s' k" if "k < cal_nodes G" "k \<noteq> i" for k using inv that by (simp add: cal_inv_def seq_inv_def Let_def f b)
  moreover have "sched_inv G s' j" if "j < cal_nodes G" for j
  proof (rule sched_inv_cong [of G s j s'])
    show "sched_inv G s j" using inv that by (simp add: cal_inv_def)
    show "\<exists>new. pending s' k j = pending s k j @ new \<and> stream s' k j a = stream s k j a @ new" if "a \<le> Suc (seq_epoch (seqs s k))" for k a
      using pend [of k j] str [OF that, of j] by blast
  qed (simp_all add: f b S)
  moreover have "chan s' k k = []" if "k < cal_nodes G" for k using inv that by (auto simp: s'_def cal_batch_def Let_def cal_inv_def)
  ultimately show ?thesis unfolding cal_inv_def s'_def [symmetric] by metis
qed

lemma frame_inv:
  assumes inv: "cal_inv G s" and "sequenced s' = sequenced s" "locked s' = locked s"
    and "\<And>i. seq_epoch (seqs s' i) = seq_epoch (seqs s i) \<and> next_txn_id (seqs s' i) = next_txn_id (seqs s i) \<and> fill_queue (seqs s' i) = fill_queue (seqs s i)"
    and "\<And>j. worker_epoch (scheds s' j) = worker_epoch (scheds s j) \<and> sched_ptr (scheds s' j) = sched_ptr (scheds s j)"
    and "\<And>i j. pending s' i j = pending s i j" "\<And>i. chan s i i = [] \<Longrightarrow> chan s' i i = []"
  shows "cal_inv G s'"
proof -
  have b: "batch_of s' k e j = batch_of s k e j" for k e j by (simp add: batch_of_def assms(2))
  have st: "stream s' k j a = stream s k j a" for k j a using assms(4) b by (intro stream_cong) simp_all
  have "seq_inv G s' i = seq_inv G s i" for i by (simp add: seq_inv_def Let_def b assms(2,4))
  moreover have "sched_inv G s' i = sched_inv G s i" for i by (simp add: sched_inv_def Let_def b st epoch_of_def assms(3-6))
  ultimately show ?thesis using inv assms(7) by (simp add: cal_inv_def)
qed

lemma net_inv:
  assumes "cal_inv G s" shows "cal_inv G (cal_net i j s)"
  using assms by (rule frame_inv) (auto simp: cal_net_def pending_def sched_enqueue_def split: list.split)

lemma wrapup_inv:
  assumes "cal_inv G s" shows "cal_inv G (calvin_wrapup j k s)"
  using assms by (rule frame_inv) (auto simp: calvin_wrapup_def Let_def pending_def)

lemma ack_inv:
  assumes "cal_inv G s" "cal_ack G i k s = Inr s'" shows "cal_inv G s'"
proof (cases "k < length (acks s i)")
  case True
  then obtain ls c where "s' = s\<lparr>seqs := (seqs s)(i := (seqs s i)\<lparr>wl := ls\<rparr>), acks := (acks s)(i := take k (acks s i) @ drop (Suc k) (acks s i)),
      answered := (answered s)(i := answered s i @ c)\<rparr>"
    using assms(2) by (auto simp: cal_ack_def process_ack_def bind_result_Inr_iff Let_def)
  then show ?thesis by (intro frame_inv [OF assms(1)]) (auto simp: pending_def)
qed (use assms in \<open>simp add: cal_ack_def\<close>)

section \<open>The scheduler's step\<close>

text \<open>The invariant of a scheduler with its position, its input and its output as arguments.\<close>

definition sched_at :: "cal_cfg \<Rightarrow> calvin \<Rightarrow> nat \<Rightarrow> (nat \<Rightarrow> sched_msg list) \<Rightarrow> nat \<Rightarrow> nat \<Rightarrow> cal_txn list \<Rightarrow> cal_txn list \<Rightarrow> bool" where
  "sched_at G s j pend w p part out \<longleftrightarrow> p < cal_nodes G \<and> 0 < w \<and>
     (\<forall>i<cal_nodes G. (i < p \<longrightarrow> w \<le> seq_epoch (seqs s i) \<and> pend i = stream s i j (Suc w)) \<and>
        (p < i \<longrightarrow> w \<le> Suc (seq_epoch (seqs s i)) \<and> pend i = stream s i j w)) \<and>
     w \<le> Suc (seq_epoch (seqs s p)) \<and> map CTxn part @ pend p = stream s p j w \<and>
     out = concat (map (\<lambda>e. epoch_of G s e j) [1..<w]) @ concat (map (\<lambda>i. batch_of s i w j) [0..<p]) @ part"

lemma sched_inv_at:
  "sched_inv G s j \<longleftrightarrow> (\<exists>part. sched_at G s j (\<lambda>i. pending s i j) (worker_epoch (scheds s j)) (sched_ptr (scheds s j)) part (locked s j))"
  by (auto simp: sched_inv_def sched_at_def Let_def)

lemma sched_at_frame:
  assumes "seqs s' = seqs s" "sequenced s' = sequenced s"
  shows "sched_at G s' j pend w p part out = sched_at G s j pend w p part out"
proof -
  have b: "batch_of s' i e j = batch_of s i e j" for i e by (simp add: batch_of_def assms)
  have "stream s' i j a = stream s i j a" for i a using b by (intro stream_cong) (simp_all add: assms)
  then show ?thesis by (simp add: sched_at_def b epoch_of_def assms)
qed

lemma sched_at_stream:
  assumes "sched_at G s j pend w p part out" "pend p \<noteq> []"
  shows "w \<le> seq_epoch (seqs s p)" "map CTxn part @ pend p = map CTxn (batch_of s p w j) @ RDone w # stream s p j (Suc w)"
proof -
  have st: "map CTxn part @ pend p = stream s p j w" using assms(1) by (simp add: sched_at_def)
  then show w: "w \<le> seq_epoch (seqs s p)" using assms(2) stream_none [of s p w j] by (cases "w \<le> seq_epoch (seqs s p)") auto
  show "map CTxn part @ pend p = map CTxn (batch_of s p w j) @ RDone w # stream s p j (Suc w)" using st stream_first [OF w, of j] by simp
qed

lemma sched_at_txn:
  assumes a: "sched_at G s j pend w p part out" and m: "pend p = CTxn t # ms"
  shows "ct_batch t = w" "sched_at G s j (pend(p := ms)) w p (part @ [t]) (out @ [t])"
proof -
  obtain cs where "batch_of s p w j = part @ t # cs" using next_txn [of part t ms] sched_at_stream(2) [OF a] m by (metis list.distinct(1))
  then have "t \<in> set (batch_of s p w j)" by simp
  then show "ct_batch t = w" by (simp add: batch_of_def)
  show "sched_at G s j (pend(p := ms)) w p (part @ [t]) (out @ [t])" using a m by (simp add: sched_at_def)
qed

lemma sched_at_done:
  assumes a: "sched_at G s j pend w p part out" and m: "pend p = RDone e # ms"
  shows "e = w" "sched_at G s j (pend(p := ms)) (if p = cal_nodes G - 1 then w + 1 else w) ((p + 1) mod cal_nodes G) [] out"
proof -
  have ne: "pend p \<noteq> []" using m by simp
  note st = sched_at_stream [OF a ne]
  have d: "part = batch_of s p w j" "e = w" "ms = stream s p j (Suc w)" using next_done [of part e ms] st(2) m by auto
  have i: "p < cal_nodes G" "0 < w" and k: "\<And>i. i < cal_nodes G \<Longrightarrow> i < p \<Longrightarrow> w \<le> seq_epoch (seqs s i) \<and> pend i = stream s i j (Suc w)"
    "\<And>i. i < cal_nodes G \<Longrightarrow> p < i \<Longrightarrow> w \<le> Suc (seq_epoch (seqs s i)) \<and> pend i = stream s i j w"
    and out: "out = concat (map (\<lambda>e. epoch_of G s e j) [1..<w]) @ concat (map (\<lambda>i. batch_of s i w j) [0..<p]) @ part"
    using a by (auto simp: sched_at_def)
  show "e = w" by (fact d(2))
  show "sched_at G s j (pend(p := ms)) (if p = cal_nodes G - 1 then w + 1 else w) ((p + 1) mod cal_nodes G) [] out"
  proof (cases "p = cal_nodes G - 1")
    case True
    then have n: "cal_nodes G = Suc p" using i by simp
    have pd: "Suc w \<le> Suc (seq_epoch (seqs s x)) \<and> (pend(p := ms)) x = stream s x j (Suc w)" if "x < Suc p" for x
      using that k(1) [of x] st(1) d(3) n by (cases "x = p") auto
    have "out = concat (map (\<lambda>e. epoch_of G s e j) [1..<Suc w])" using out d(1) i(2) n by (simp add: epoch_of_def)
    then show ?thesis using pd pd [of 0] n unfolding sched_at_def by (simp del: upt_Suc fun_upd_apply)
  next
    case False
    then have n: "Suc p < cal_nodes G" using i by simp
    have "x < Suc p \<Longrightarrow> w \<le> seq_epoch (seqs s x) \<and> (pend(p := ms)) x = stream s x j (Suc w)" for x
      using k(1) [of x] st(1) d(3) n by (cases "x = p") auto
    then show ?thesis using False n k(2) i(2) d(1) out unfolding sched_at_def by simp
  qed
qed

lemma sched_inv_upd:
  assumes "sched_at G s j (\<lambda>i. sched_queue sc i @ chan s i j) (worker_epoch sc) (sched_ptr sc) part (locked s j @ out)"
  shows "sched_inv G (s\<lparr>scheds := (scheds s)(j := sc), locked := (locked s)(j := locked s j @ out)\<rparr>) j"
  unfolding sched_inv_at using assms by (intro exI [of _ part], subst sched_at_frame [of _ s]) (simp_all add: pending_def)

lemma sched_step_inv:
  assumes inv: "sched_inv G s j"
  shows "\<exists>sc mt. sched_dequeue G (scheds s j) = Inr (sc, mt) \<and>
    sched_inv G (s\<lparr>scheds := (scheds s)(j := sc), locked := (locked s)(j := locked s j @ (case mt of None \<Rightarrow> [] | Some t \<Rightarrow> [t]))\<rparr>) j"
proof (cases "sched_queue (scheds s j) (sched_ptr (scheds s j))")
  case Nil
  then show ?thesis using inv by (simp add: sched_dequeue_def)
next
  case (Cons m ms)
  let ?p = "sched_ptr (scheds s j)"
  obtain part where a: "sched_at G s j (\<lambda>i. pending s i j) (worker_epoch (scheds s j)) ?p part (locked s j)"
    using inv by (auto simp: sched_inv_at)
  have pm: "pending s ?p j = m # (ms @ chan s ?p j)" using Cons by (simp add: pending_def)
  have pd: "(\<lambda>i. pending s i j)(?p := ms @ chan s ?p j) = (\<lambda>i. ((sched_queue (scheds s j))(?p := ms)) i @ chan s i j)"
    by (auto simp: pending_def fun_eq_iff)
  show ?thesis
  proof (cases m)
    case (CTxn t)
    note t = sched_at_txn [OF a pm [unfolded CTxn], unfolded pd]
    have d: "sched_dequeue G (scheds s j) = Inr ((scheds s j)\<lparr>sched_queue := (sched_queue (scheds s j))(?p := ms)\<rparr>, Some t)"
      using Cons CTxn t(1) by (simp add: sched_dequeue_def Let_def assert_that_def)
    show ?thesis unfolding d by (rule exI, rule exI, rule conjI, rule refl, rule sched_inv_upd) (use t(2) in simp)
  next
    case (RDone e)
    note t = sched_at_done [OF a pm [unfolded RDone], unfolded pd]
    have d: "sched_dequeue G (scheds s j) = Inr ((scheds s j)\<lparr>sched_queue := (sched_queue (scheds s j))(?p := ms),
        sched_ptr := (?p + 1) mod cal_nodes G,
        worker_epoch := (if ?p = cal_nodes G - 1 then worker_epoch (scheds s j) + 1 else worker_epoch (scheds s j))\<rparr>, None)"
      using Cons RDone t(1) by (simp add: sched_dequeue_def Let_def assert_that_def)
    show ?thesis unfolding d by (rule exI, rule exI, rule conjI, rule refl, rule sched_inv_upd) (use t(2) in simp)
  qed
qed

lemma cal_sched_inv:
  assumes inv: "cal_inv G s" and j: "j < cal_nodes G"
  shows "\<exists>s'. cal_sched G j s = Inr s' \<and> cal_inv G s'"
proof -
  obtain sc mt where d: "sched_dequeue G (scheds s j) = Inr (sc, mt)"
    and i: "sched_inv G (s\<lparr>scheds := (scheds s)(j := sc), locked := (locked s)(j := locked s j @ (case mt of None \<Rightarrow> [] | Some t \<Rightarrow> [t]))\<rparr>) j"
    (is "sched_inv G ?s j")
    using sched_step_inv [of G s j] inv j by (auto simp: cal_inv_def)
  have "seq_inv G ?s k = seq_inv G s k" for k by (simp add: seq_inv_def Let_def batch_of_def)
  moreover have "sched_inv G ?s k = sched_inv G s k" if "k \<noteq> j" for k
    using that unfolding sched_inv_at by (subst sched_at_frame [of _ s]) (simp_all add: pending_def)
  moreover have "chan ?s = chan s" by simp
  ultimately have "cal_inv G ?s" using inv i unfolding cal_inv_def by metis
  then show ?thesis by (simp add: cal_sched_def d)
qed

lemma cal_step_inv:
  assumes "cal_inv G s" "fst (cal_event_node e) < cal_nodes G" "cal_step G e s = Inr s'"
  shows "cal_inv G s'"
proof (cases e)
  case (Client i c ns)
  then show ?thesis using client_inv [of G s i c ns s'] assms by simp
next
  case (Batch i)
  then show ?thesis using batch_inv assms by auto
next
  case (Net i j)
  then show ?thesis using net_inv assms by auto
next
  case (Sched j)
  then show ?thesis using cal_sched_inv [of G s j] assms by auto
next
  case (Exec j k)
  then show ?thesis using wrapup_inv assms by auto
next
  case (Ack i k)
  then show ?thesis using ack_inv assms by auto
qed

lemma cal_run_inv: "cal_inv G s \<Longrightarrow> cal_run G es s = Inr s' \<Longrightarrow> cal_inv G s'"
proof (induction es arbitrary: s)
  case (Cons e es)
  then show ?case using cal_step_inv [of G s e] by (auto simp: bind_result_Inr_iff split: if_splits)
qed simp

lemma cal_init_inv: "cal_inv G cal_init"
  by (auto simp: cal_inv_def cal_init_def seq_inv_def sched_inv_def batch_of_def pending_def stream_def)

section \<open>The order of all transactions\<close>

text \<open>
  The reference: epoch by epoch, in an epoch server by server, and each server's transactions as
  they were sequenced. A node schedules the ones it takes part in.
\<close>

definition global_order :: "cal_cfg \<Rightarrow> calvin \<Rightarrow> nat \<Rightarrow> cal_txn list" where
  "global_order G s n = concat (map (\<lambda>e. concat (map (\<lambda>i. filter (\<lambda>t. ct_batch t = e) (sequenced s i)) [0..<cal_nodes G])) [1..<n])"

definition order_for :: "cal_cfg \<Rightarrow> calvin \<Rightarrow> nat \<Rightarrow> nat \<Rightarrow> cal_txn list" where
  "order_for G s j n = filter (\<lambda>t. j \<in> set (ct_parts t)) (global_order G s n)"

lemma order_for_epochs: "order_for G s j n = concat (map (\<lambda>e. epoch_of G s e j) [1..<n])"
  by (simp add: order_for_def global_order_def epoch_of_def batch_of_def filter_concat comp_def conj_commute)

lemma part_prefix: "map CTxn part @ ys = map CTxn bs @ RDone w # zs \<Longrightarrow> \<exists>cs. bs = part @ cs"
proof (induction part arbitrary: bs)
  case (Cons x part)
  then show ?case by (cases bs) auto
qed simp

lemma upt_split: "p < n \<Longrightarrow> [0..<n] = [0..<p] @ p # [Suc p..<n]"
  by (metis append_Nil le0 less_imp_le_nat upt_add_eq_append upt_conv_Cons le_add_diff_inverse)

lemma sched_inv_prefix:
  assumes "sched_inv G s j"
  shows "\<exists>part rest. locked s j = order_for G s j (worker_epoch (scheds s j)) @ part \<and> locked s j @ rest = order_for G s j (Suc (worker_epoch (scheds s j)))"
proof -
  let ?w = "worker_epoch (scheds s j)" and ?p = "sched_ptr (scheds s j)"
  obtain part where a: "sched_at G s j (\<lambda>i. pending s i j) ?w ?p part (locked s j)" using assms by (auto simp: sched_inv_at)
  have st: "map CTxn part @ pending s ?p j = stream s ?p j ?w" using a by (simp add: sched_at_def)
  have "\<exists>cs. batch_of s ?p ?w j = part @ cs"
  proof (cases "?w \<le> seq_epoch (seqs s ?p)")
    case True
    then show ?thesis using part_prefix st stream_first [OF True] by metis
  next
    case False
    then show ?thesis using st stream_none [of s ?p ?w j] by simp
  qed
  then obtain cs where cs: "batch_of s ?p ?w j = part @ cs" by blast
  have "epoch_of G s ?w j = concat (map (\<lambda>i. batch_of s i ?w j) [0..<?p]) @ part @ cs @ concat (map (\<lambda>i. batch_of s i ?w j) [Suc ?p..<cal_nodes G])"
    using a cs upt_split [of ?p "cal_nodes G"] by (simp add: sched_at_def epoch_of_def)
  then show ?thesis using a by (simp add: sched_at_def order_for_epochs)
qed

lemma sorted_concat_upt:
  assumes "\<And>i. i < n \<Longrightarrow> sorted_wrt R (f i)" "\<And>i k a b. i < k \<Longrightarrow> k < n \<Longrightarrow> a \<in> set (f i) \<Longrightarrow> b \<in> set (f k) \<Longrightarrow> R a b"
  shows "sorted_wrt R (concat (map f [m..<n]))"
  using assms
proof (induction n)
  case (Suc n)
  then have "sorted_wrt R (concat (map f [m..<n]))" by simp
  then show ?case using Suc.prems by (auto simp: sorted_wrt_append)
qed simp

lemma batch_of_set:
  assumes "cal_inv G s" "i < cal_nodes G" "t \<in> set (batch_of s i e j)" shows "ct_batch t = e" "ct_node t = i"
  using assms by (auto simp: cal_inv_def seq_inv_def Let_def batch_of_def)

lemma epoch_of_set:
  assumes "cal_inv G s" "t \<in> set (epoch_of G s e j)" shows "ct_batch t = e"
  using assms batch_of_set [OF assms(1)] by (auto simp: epoch_of_def)

lemma order_for_sorted:
  assumes "cal_inv G s" shows "sorted_wrt txn_less (order_for G s j n)"
proof -
  have "sorted_wrt txn_less (batch_of s i e j)" if "i < cal_nodes G" for i e
    using assms that by (auto simp: cal_inv_def seq_inv_def Let_def batch_of_def intro: sorted_wrt_filter)
  moreover have "txn_less a b" if "i < k" "k < cal_nodes G" "a \<in> set (batch_of s i e j)" "b \<in> set (batch_of s k e j)" for i k e a b
    using that batch_of_set [OF assms, of i a e j] batch_of_set [OF assms, of k b e j] by (simp add: txn_less_def)
  ultimately have "sorted_wrt txn_less (epoch_of G s e j)" for e
    unfolding epoch_of_def by (rule sorted_concat_upt)
  then show ?thesis unfolding order_for_epochs
    by (rule sorted_concat_upt) (auto simp: txn_less_def dest!: epoch_of_set [OF assms])
qed

lemma locked_sorted:
  assumes "cal_inv G s" "j < cal_nodes G" shows "sorted_wrt txn_less (locked s j)"
  using sched_inv_prefix [of G s j] order_for_sorted [OF assms(1), of j "Suc (worker_epoch (scheds s j))"] assms
  by (metis cal_inv_def sorted_wrt_append)

lemma txn_less_irrefl: "\<not> txn_less t t" and txn_less_asym: "txn_less t u \<Longrightarrow> \<not> txn_less u t"
  by (auto simp: txn_less_def)

lemma sorted_distinct: "sorted_wrt txn_less xs \<Longrightarrow> distinct xs"
  by (induction xs) (auto simp: txn_less_irrefl)

lemma sched_at_waits:
  assumes "sched_at G s j pend w p part out" "pend p = []" shows "w = Suc (seq_epoch (seqs s p))"
proof (rule ccontr)
  assume "w \<noteq> Suc (seq_epoch (seqs s p))"
  then have "w \<le> seq_epoch (seqs s p)" using assms(1) by (simp add: sched_at_def)
  then have "RDone w \<in> set (map CTxn part)" using assms stream_first [of w s p j] by (simp add: sched_at_def)
  then show False by auto
qed

lemma locked_contains:
  assumes "cal_inv G s" "j < cal_nodes G" "i < cal_nodes G" "t \<in> set (sequenced s i)" "j \<in> set (ct_parts t)" "ct_batch t < worker_epoch (scheds s j)"
  shows "t \<in> set (locked s j)"
proof -
  have "0 < ct_batch t" using assms(1,3,4) by (auto simp: cal_inv_def seq_inv_def Let_def)
  then have "t \<in> set (order_for G s j (worker_epoch (scheds s j)))" using assms by (auto simp: order_for_def global_order_def)
  then show ?thesis using sched_inv_prefix [of G s j] assms(1,2) by (auto simp: cal_inv_def)
qed

lemmas cal_reach = cal_run_inv [OF cal_init_inv]

section \<open>Properties\<close>

text \<open>
  Claim C8. All nodes schedule in the same order: however clients, batches, messages, schedulers, workers
  and acknowledgements interleave, no node hands a transaction to its lock manager twice, and two
  nodes never hand two transactions to their lock managers in opposite orders.
\<close>

theorem calvin_same_order:
  assumes "cal_run G es cal_init = Inr s" "j < cal_nodes G" "k < cal_nodes G"
  shows "distinct (locked s j) \<and> \<not> (locked s j = xs @ t # ys @ u # zs \<and> locked s k = xs' @ u # ys' @ t # zs')"
proof -
  have "sorted_wrt txn_less (locked s j)" "sorted_wrt txn_less (locked s k)"
    using locked_sorted [OF cal_reach [OF assms(1)]] assms(2,3) by simp_all
  then show ?thesis using sorted_distinct txn_less_asym [of t u] by (auto simp: sorted_wrt_append)
qed

definition two_servers :: cal_cfg where
  "two_servers = \<lparr>cal_nodes = 2, cal_clients = 8, cal_inflight = 100\<rparr>"

text \<open>Server 0 sequences two transactions, server 1 one; node 1 has scheduled them all.\<close>

definition calvin_script :: "cal_event list" where
  "calvin_script = [Client 0 7 [0, 1], Client 1 8 [1, 0], Client 0 9 [1], Batch 1, Batch 0,
     Sched 0, Sched 0, Net 1 0, Net 1 0, Sched 1, Net 0 1, Net 0 1, Net 0 1, Sched 1, Sched 1, Sched 1, Sched 1, Sched 1, Sched 0]"

definition script_txn :: "nat \<Rightarrow> nat list \<Rightarrow> nat \<Rightarrow> nat \<Rightarrow> cal_txn" where
  "script_txn client parts k i = \<lparr>ct_client = client, ct_parts = parts, ct_batch = 1, ct_id = k, ct_node = i\<rparr>"

lemma calvin_script_run:
  obtains s where "cal_run two_servers calvin_script cal_init = Inr s" "locked s 0 = [script_txn 7 [0, 1] 0 0, script_txn 8 [0, 1] 1 1]"
    "locked s 1 = [script_txn 7 [0, 1] 0 0, script_txn 9 [1] 2 0, script_txn 8 [0, 1] 1 1]"
    "sched_queue (scheds s 1) 0 = []" "sched_ptr (scheds s 1) = 0" "chan s 0 1 = []" "worker_epoch (scheds s 1) = 2"
proof -
  have "case cal_run two_servers calvin_script cal_init of Inl _ \<Rightarrow> False | Inr s \<Rightarrow>
      locked s 0 = [script_txn 7 [0, 1] 0 0, script_txn 8 [0, 1] 1 1] \<and>
      locked s 1 = [script_txn 7 [0, 1] 0 0, script_txn 9 [1] 2 0, script_txn 8 [0, 1] 1 1] \<and>
      sched_queue (scheds s 1) 0 = [] \<and> sched_ptr (scheds s 1) = 0 \<and> chan s 0 1 = [] \<and> worker_epoch (scheds s 1) = 2"
    by code_simp
  then show ?thesis using that by (auto split: sum.splits)
qed

theorem calvin_same_order_witness:
  "\<exists>s t u v. cal_run two_servers calvin_script cal_init = Inr s \<and> locked s 0 = [t, u] \<and> locked s 1 = [t, v, u] \<and> distinct (locked s 1) \<and>
     \<not> (locked s 1 = [] @ t # [v] @ u # [] \<and> locked s 0 = [] @ u # [] @ t # [])"
proof -
  obtain s where s: "cal_run two_servers calvin_script cal_init = Inr s" "locked s 0 = [script_txn 7 [0, 1] 0 0, script_txn 8 [0, 1] 1 1]"
    "locked s 1 = [script_txn 7 [0, 1] 0 0, script_txn 9 [1] 2 0, script_txn 8 [0, 1] 1 1]" by (rule calvin_script_run)
  show ?thesis using calvin_same_order [OF s(1), of 1 0] s by (intro exI [of _ s]) (simp add: two_servers_def)
qed

text \<open>
  The schedule of a node is the global order restricted to its transactions: it contains all
  of them up to the last epoch the node has finished, followed by a part of those of the epoch it
  works on.
\<close>

theorem calvin_schedule_refines:
  assumes "cal_run G es cal_init = Inr s" "j < cal_nodes G"
  shows "\<exists>part rest. locked s j = order_for G s j (worker_epoch (scheds s j)) @ part \<and>
     locked s j @ rest = order_for G s j (Suc (worker_epoch (scheds s j)))"
  using sched_inv_prefix cal_reach [OF assms(1)] assms(2) by (simp add: cal_inv_def)

theorem calvin_schedule_refines_witness:
  "\<exists>s part. cal_run two_servers calvin_script cal_init = Inr s \<and> locked s 1 = order_for two_servers s 1 (worker_epoch (scheds s 1)) @ part \<and> locked s 1 \<noteq> []"
proof -
  obtain s where s: "cal_run two_servers calvin_script cal_init = Inr s" "locked s 1 = [script_txn 7 [0, 1] 0 0, script_txn 9 [1] 2 0, script_txn 8 [0, 1] 1 1]"
    by (rule calvin_script_run)
  show ?thesis using calvin_schedule_refines [OF s(1), of 1] s by (auto simp: two_servers_def)
qed

text \<open>
  The scheduler neither fails nor gets stuck: its assertions on the epochs of the messages hold,
  and it finds no message only while the server it waits for has not closed the epoch, or a message
  of this server is on the way; in the first case all transactions of the server's closed
  epochs have been scheduled.
\<close>

theorem calvin_never_stuck:
  assumes "cal_run G es cal_init = Inr s" "j < cal_nodes G"
  shows "(\<exists>s'. cal_sched G j s = Inr s') \<and>
    (sched_queue (scheds s j) (sched_ptr (scheds s j)) = [] \<longrightarrow>
       chan s (sched_ptr (scheds s j)) j \<noteq> [] \<or> worker_epoch (scheds s j) = Suc (seq_epoch (seqs s (sched_ptr (scheds s j)))) \<and>
         (\<forall>t\<in>set (sequenced s (sched_ptr (scheds s j))). j \<in> set (ct_parts t) \<and> ct_batch t \<le> seq_epoch (seqs s (sched_ptr (scheds s j))) \<longrightarrow> t \<in> set (locked s j)))"
proof -
  let ?p = "sched_ptr (scheds s j)"
  have inv: "cal_inv G s" by (rule cal_reach [OF assms(1)])
  obtain part where a: "sched_at G s j (\<lambda>i. pending s i j) (worker_epoch (scheds s j)) ?p part (locked s j)"
    using inv assms(2) by (auto simp: cal_inv_def sched_inv_at)
  have p: "?p < cal_nodes G" using a by (simp add: sched_at_def)
  have "worker_epoch (scheds s j) = Suc (seq_epoch (seqs s ?p))" if "sched_queue (scheds s j) ?p = []" "chan s ?p j = []"
    using sched_at_waits [OF a] that by (simp add: pending_def)
  moreover have "t \<in> set (locked s j)" if "t \<in> set (sequenced s ?p)" "j \<in> set (ct_parts t)" "ct_batch t < worker_epoch (scheds s j)" for t
    using locked_contains [OF inv assms(2) p] that by blast
  ultimately show ?thesis using cal_sched_inv [OF inv assms(2)] by fastforce
qed

theorem calvin_never_stuck_witness:
  "\<exists>s s'. cal_run two_servers calvin_script cal_init = Inr s \<and> cal_sched two_servers 1 s = Inr s' \<and> Suc (seq_epoch (seqs s 0)) = 2"
proof -
  obtain s where s: "cal_run two_servers calvin_script cal_init = Inr s" "sched_queue (scheds s 1) 0 = []" "sched_ptr (scheds s 1) = 0"
    "chan s 0 1 = []" "worker_epoch (scheds s 1) = 2"
    by (rule calvin_script_run)
  show ?thesis using calvin_never_stuck [OF s(1), of 1] s by (auto simp: two_servers_def)
qed

end
