(* ===== verification/CalvinAck.thy ===== *)
theory CalvinAck
imports CalvinOrder
begin

text \<open>
  The acknowledgements of Calvin. For every transaction the sequencer counts how many participants have
  not yet acknowledged it; its assertions on these counters hold, and a client is answered
  once, when all participants have executed its transaction.
\<close>

section \<open>The invariant\<close>

definition key :: "cal_txn \<Rightarrow> nat \<times> nat" where
  "key t = (ct_batch t, ct_id t)"

text \<open>The acknowledgements that the sequencer has not yet seen: of participants that have not executed, and on the way.\<close>

definition missing :: "calvin \<Rightarrow> cal_txn \<Rightarrow> nat" where
  "missing s t = length (filter (\<lambda>j. t \<notin> set (executed s j)) (ct_parts t)) + count_list (acks s (ct_node t)) (key t)"

definition list_ok :: "cal_cfg \<Rightarrow> calvin \<Rightarrow> nat \<Rightarrow> qlite_ll \<Rightarrow> bool" where
  "list_ok G s i en \<longleftrightarrow> 0 < ql_txns_left en \<and>
     ql_txns_left en = length (filter (\<lambda>t. ct_batch t = ql_epoch en \<and> 0 < missing s t) (sequenced s i)) \<and>
     (\<forall>t\<in>set (sequenced s i). ct_batch t = ql_epoch en \<longrightarrow> ql_list en (ct_id t div cal_nodes G) = Some (ct_client t, missing s t))"

definition lists_inv :: "cal_cfg \<Rightarrow> calvin \<Rightarrow> nat \<Rightarrow> bool" where
  "lists_inv G s i \<longleftrightarrow> (let S = seqs s i in
     sorted_wrt (<) (map ql_epoch (wl S)) \<and> (\<forall>en\<in>set (wl S). list_ok G s i en \<and> ql_epoch en \<le> Suc (seq_epoch S)) \<and>
     (\<forall>t\<in>set (sequenced s i). 0 < missing s t \<longrightarrow> ct_batch t \<in> ql_epoch ` set (wl S)) \<and>
     (\<forall>en\<in>set (wl S). ql_epoch en = Suc (seq_epoch S) \<longrightarrow>
        ql_size en = next_txn_id S \<and> ql_txns_left en = next_txn_id S \<and> next_txn_id S \<le> ql_max_size en \<and> 0 < ql_max_size en) \<and>
     (Suc (seq_epoch S) \<notin> ql_epoch ` set (wl S) \<longrightarrow> next_txn_id S = 0))"

definition txns_inv :: "cal_cfg \<Rightarrow> calvin \<Rightarrow> nat \<Rightarrow> bool" where
  "txns_inv G s i \<longleftrightarrow> (\<forall>t\<in>set (sequenced s i). ct_id t mod cal_nodes G = i \<and> distinct (ct_parts t) \<and> (\<forall>j\<in>set (ct_parts t). j < cal_nodes G)) \<and>
     (\<forall>a\<in>set (acks s i). \<exists>t\<in>set (sequenced s i). a = key t \<and> ct_batch t \<le> seq_epoch (seqs s i)) \<and> set (executed s i) \<subseteq> set (locked s i) \<and>
     (\<forall>x\<in>set (answered s i). \<exists>t\<in>set (sequenced s i). x = (ct_client t, key t) \<and> missing s t = 0) \<and>
     distinct (map snd (answered s i)) \<and> (\<forall>t\<in>set (sequenced s i). missing s t = 0 \<longrightarrow> (ct_client t, key t) \<in> set (answered s i))"

definition acks_inv :: "cal_cfg \<Rightarrow> calvin \<Rightarrow> bool" where
  "acks_inv G s \<longleftrightarrow> cal_inv G s \<and> (\<forall>i<cal_nodes G. lists_inv G s i \<and> txns_inv G s i)"

section \<open>Keys and counters\<close>

lemma sorted_wrt_pair: "sorted_wrt R xs \<Longrightarrow> a \<in> set xs \<Longrightarrow> b \<in> set xs \<Longrightarrow> a = b \<or> R a b \<or> R b a"
  by (induction xs) auto

lemma seq_node: "cal_inv G s \<Longrightarrow> i < cal_nodes G \<Longrightarrow> t \<in> set (sequenced s i) \<Longrightarrow> ct_node t = i"
  by (auto simp: cal_inv_def seq_inv_def Let_def)

lemma key_inj:
  assumes "cal_inv G s" "i < cal_nodes G" "t \<in> set (sequenced s i)" "u \<in> set (sequenced s i)" "key t = key u" shows "t = u"
proof -
  have si: "seq_inv G s i" using assms(1,2) by (simp add: cal_inv_def)
  then have "sorted_wrt txn_less (sequenced s i)" "ct_node t = i" "ct_node u = i" using assms(3,4) by (auto simp: seq_inv_def Let_def)
  then show ?thesis using sorted_wrt_pair [of txn_less "sequenced s i" t u] assms(3-5) by (auto simp: txn_less_def key_def)
qed

lemma locked_sent:
  assumes "cal_inv G s" "j < cal_nodes G" "t \<in> set (locked s j)"
  shows "ct_node t < cal_nodes G \<and> t \<in> set (sequenced s (ct_node t)) \<and> j \<in> set (ct_parts t) \<and> ct_batch t \<le> seq_epoch (seqs s (ct_node t))"
proof -
  let ?w = "worker_epoch (scheds s j)" and ?p = "sched_ptr (scheds s j)" and ?N = "cal_nodes G"
  obtain part where a: "sched_at G s j (\<lambda>i. pending s i j) ?w ?p part (locked s j)" using assms by (auto simp: cal_inv_def sched_inv_at)
  have p: "?p < ?N" and st: "map CTxn part @ pending s ?p j = stream s ?p j ?w" and w: "i < ?N \<Longrightarrow> ?w \<le> Suc (seq_epoch (seqs s i))"
     and lt: "i < ?p \<Longrightarrow> ?w \<le> seq_epoch (seqs s i)" for i
    using a by (auto simp: sched_at_def)
  have "\<exists>i e. i < ?N \<and> e \<le> seq_epoch (seqs s i) \<and> t \<in> set (batch_of s i e j)"
  proof (cases "t \<in> set part")
    case True
    then have e: "?w \<le> seq_epoch (seqs s ?p)" using st stream_none [of s ?p ?w j] by (cases "?w \<le> seq_epoch (seqs s ?p)") auto
    then show ?thesis using part_prefix [of part "pending s ?p j" "batch_of s ?p ?w j" ?w] st stream_first [OF e, of j] True p by force
  next
    case False
    then consider (old) e i where "e < ?w" "i < ?N" "t \<in> set (batch_of s i e j)" | (now) i where "i < ?p" "t \<in> set (batch_of s i ?w j)"
      using a assms(3) by (auto simp: sched_at_def epoch_of_def)
    then show ?thesis
    proof cases
      case old
      then show ?thesis using w [of i] by (intro exI [of _ i] exI [of _ e]) auto
    next
      case now
      then show ?thesis using lt [of i] p by (intro exI [of _ i] exI [of _ ?w]) auto
    qed
  qed
  then obtain i e where i: "i < ?N" "e \<le> seq_epoch (seqs s i)" "t \<in> set (batch_of s i e j)" by blast
  then show ?thesis using batch_of_set [OF assms(1) i(1,3)] by (auto simp: batch_of_def)
qed

lemma filter_one_less:
  "distinct xs \<Longrightarrow> t \<in> set xs \<Longrightarrow> Q t \<Longrightarrow> Suc (length (filter (\<lambda>u. Q u \<and> u \<noteq> t) xs)) = length (filter Q xs)"
proof (induction xs)
  case (Cons x xs)
  show ?case
  proof (cases "x = t")
    case True
    then have "filter (\<lambda>u. Q u \<and> u \<noteq> t) xs = filter Q xs" using Cons.prems(1) by (intro filter_cong) auto
    then show ?thesis using True Cons.prems by simp
  next
    case False
    then show ?thesis using Cons by auto
  qed
qed simp

lemma count_remove_nth: "k < length xs \<Longrightarrow> count_list xs x = count_list (take k xs @ drop (Suc k) xs) x + (if xs ! k = x then 1 else 0)"
  by (subst id_take_nth_drop [of k xs]) auto

section \<open>Steps that keep the counters\<close>

lemma acks_frame:
  assumes inv: "acks_inv G s" and c: "cal_inv G s'" and "sequenced s' = sequenced s" "answered s' = answered s"
    and "\<And>i. wl (seqs s' i) = wl (seqs s i) \<and> seq_epoch (seqs s' i) = seq_epoch (seqs s i) \<and> next_txn_id (seqs s' i) = next_txn_id (seqs s i)"
    and m: "\<And>i t. i < cal_nodes G \<Longrightarrow> t \<in> set (sequenced s i) \<Longrightarrow> missing s' t = missing s t"
    and "\<And>i. i < cal_nodes G \<Longrightarrow> \<forall>a\<in>set (acks s' i). \<exists>t\<in>set (sequenced s i). a = key t \<and> ct_batch t \<le> seq_epoch (seqs s i)"
    and "\<And>i. i < cal_nodes G \<Longrightarrow> set (executed s' i) \<subseteq> set (locked s' i)"
  shows "acks_inv G s'"
proof -
  have "lists_inv G s' i \<and> txns_inv G s' i" if i: "i < cal_nodes G" for i
  proof
    have li: "lists_inv G s i" and ti: "txns_inv G s i" using inv i by (simp_all add: acks_inv_def)
    have lo: "list_ok G s' i en = list_ok G s i en" for en
    proof -
      have "filter (\<lambda>t. ct_batch t = ql_epoch en \<and> 0 < missing s' t) (sequenced s i) = filter (\<lambda>t. ct_batch t = ql_epoch en \<and> 0 < missing s t) (sequenced s i)"
        using m [OF i] by (intro filter_cong) auto
      then show ?thesis using m [OF i] by (auto simp: list_ok_def assms(3))
    qed
    show "lists_inv G s' i" using li m [OF i] unfolding lists_inv_def Let_def assms(3) lo by (simp add: assms(5))
    show "txns_inv G s' i" using ti m [OF i] assms(7,8) [OF i] unfolding txns_inv_def assms(3,4) by (auto simp: subset_iff assms(5))
  qed
  then show ?thesis using c by (simp add: acks_inv_def)
qed

lemma wrapup_acks:
  assumes inv: "acks_inv G s" and j: "j < cal_nodes G" shows "acks_inv G (calvin_wrapup j k s)"
proof (cases "k < length (locked s j) \<and> locked s j ! k \<notin> set (executed s j)")
  case True
  define t where "t = locked s j ! k"
  define s' where "s' = calvin_wrapup j k s"
  have ci: "cal_inv G s" using inv by (simp add: acks_inv_def)
  have t: "t \<in> set (locked s j)" "t \<notin> set (executed s j)" using True by (auto simp: t_def)
  note ls = locked_sent [OF ci j t(1)]
  have f: "executed s' = (executed s)(j := executed s j @ [t])" "acks s' = (acks s)(ct_node t := acks s (ct_node t) @ [key t])"
    "seqs s' = seqs s" "sequenced s' = sequenced s" "locked s' = locked s" "answered s' = answered s"
    using True by (simp_all add: s'_def calvin_wrapup_def t_def key_def Let_def)
  have m: "missing s' u = missing s u" if i: "i < cal_nodes G" and u: "u \<in> set (sequenced s i)" for i u
  proof (cases "u = t")
    case True
    have "distinct (ct_parts t)" using inv ls by (auto simp: acks_inv_def txns_inv_def)
    then have "Suc (length (filter (\<lambda>x. t \<notin> set (executed s x) \<and> x \<noteq> j) (ct_parts t))) = length (filter (\<lambda>x. t \<notin> set (executed s x)) (ct_parts t))"
      using ls t(2) by (intro filter_one_less) auto
    moreover have "filter (\<lambda>x. t \<notin> set (executed s' x)) (ct_parts t) = filter (\<lambda>x. t \<notin> set (executed s x) \<and> x \<noteq> j) (ct_parts t)"
      using t(2) by (intro filter_cong) (auto simp: f)
    ultimately show ?thesis using True by (simp add: missing_def f)
  next
    case False
    have "ct_node u = i" by (rule seq_node [OF ci i u])
    then have "key u \<noteq> key t \<or> ct_node u \<noteq> ct_node t" using key_inj [OF ci i u] ls False by metis
    then have "count_list (acks s' (ct_node u)) (key u) = count_list (acks s (ct_node u)) (key u)" by (auto simp: f)
    moreover have "filter (\<lambda>x. u \<notin> set (executed s' x)) (ct_parts u) = filter (\<lambda>x. u \<notin> set (executed s x)) (ct_parts u)"
      using False by (intro filter_cong) (auto simp: f)
    ultimately show ?thesis by (simp add: missing_def)
  qed
  show ?thesis unfolding s'_def [symmetric]
  proof (rule acks_frame [OF inv _ f(4,6) _ m])
    show "cal_inv G s'" unfolding s'_def by (rule wrapup_inv [OF ci])
    show "\<forall>a\<in>set (acks s' i). \<exists>t\<in>set (sequenced s i). a = key t \<and> ct_batch t \<le> seq_epoch (seqs s i)" if "i < cal_nodes G" for i
      using inv that ls by (auto simp: f acks_inv_def txns_inv_def)
    show "set (executed s' i) \<subseteq> set (locked s' i)" if "i < cal_nodes G" for i
      using inv that t(1) by (auto simp: f acks_inv_def txns_inv_def)
  qed (simp_all add: f)
next
  case False
  then show ?thesis using inv by (auto simp: calvin_wrapup_def Let_def)
qed

lemma net_acks:
  assumes "acks_inv G s" shows "acks_inv G (cal_net i j s)"
proof -
  have f: "executed (cal_net i j s) = executed s" "acks (cal_net i j s) = acks s" "sequenced (cal_net i j s) = sequenced s"
    "answered (cal_net i j s) = answered s" "seqs (cal_net i j s) = seqs s" "locked (cal_net i j s) = locked s"
    by (auto simp: cal_net_def split: list.split)
  have "cal_inv G (cal_net i j s)" using assms by (simp add: acks_inv_def net_inv)
  then show ?thesis by (rule acks_frame [OF assms]) (use assms in \<open>auto simp: f missing_def acks_inv_def txns_inv_def\<close>)
qed

lemma sched_acks:
  assumes "acks_inv G s" "j < cal_nodes G" "cal_sched G j s = Inr s'" shows "acks_inv G s'"
proof -
  obtain sc xs where s': "s' = s\<lparr>scheds := (scheds s)(j := sc), locked := (locked s)(j := locked s j @ xs)\<rparr>"
    using assms(3) by (auto simp: cal_sched_def bind_result_Inr_iff)
  have "cal_inv G s'" using cal_sched_inv [of G s j] assms by (auto simp: acks_inv_def)
  then show ?thesis by (rule acks_frame [OF assms(1)]) (use assms in \<open>auto simp: s' missing_def acks_inv_def txns_inv_def\<close>)
qed

lemma batch_acks:
  assumes inv: "acks_inv G s" and i: "i < cal_nodes G" shows "acks_inv G (cal_batch i s)"
proof -
  define s' where "s' = cal_batch i s"
  have f: "executed s' = executed s" "acks s' = acks s" "sequenced s' = sequenced s" "answered s' = answered s" "locked s' = locked s"
    "wl (seqs s' k) = wl (seqs s k)" "seqs s' k = (if k = i then send_next_batch (advance_seq_epoch (seqs s i)) else seqs s k)" for k
    by (simp_all add: s'_def cal_batch_def Let_def send_next_batch_def advance_seq_epoch_def)
  have m: "missing s' t = missing s t" for t by (simp add: missing_def f)
  have lo: "list_ok G s' k en = list_ok G s k en" for k en by (simp add: list_ok_def m f)
  have "txns_inv G s' k" if "txns_inv G s k" for k
    using that unfolding txns_inv_def m f(1-5) by (auto simp: f(7) send_next_batch_def advance_seq_epoch_def le_Suc_eq)
  moreover have "lists_inv G s' k" if k: "k < cal_nodes G" for k
  proof (cases "k = i")
    case True
    have "lists_inv G s i" using inv i by (simp add: acks_inv_def)
    then have "sorted_wrt (<) (map ql_epoch (wl (seqs s i)))" "\<forall>en\<in>set (wl (seqs s i)). list_ok G s i en \<and> ql_epoch en \<le> Suc (seq_epoch (seqs s i))"
      "\<forall>t\<in>set (sequenced s i). 0 < missing s t \<longrightarrow> ct_batch t \<in> ql_epoch ` set (wl (seqs s i))"
      by (simp_all add: lists_inv_def Let_def)
    moreover have "seq_epoch (seqs s' i) = Suc (seq_epoch (seqs s i))" "next_txn_id (seqs s' i) = 0"
      by (simp_all add: f(7) send_next_batch_def advance_seq_epoch_def)
    ultimately show ?thesis unfolding lists_inv_def Let_def True lo m f(3,6) by fastforce
  next
    case False
    have "lists_inv G s' k = lists_inv G s k" using False by (simp add: lists_inv_def Let_def lo m f(3,7))
    then show ?thesis using inv k by (simp add: acks_inv_def)
  qed
  moreover have "cal_inv G s'" unfolding s'_def using inv i by (simp add: acks_inv_def batch_inv)
  ultimately show ?thesis using inv unfolding s'_def [symmetric] by (simp add: acks_inv_def)
qed

section \<open>A new transaction\<close>

lemma process_txn_lists:
  assumes "process_txn G i client nids S = Inr (S', t)"
  shows "ct_parts t = participants nids" "ct_client t = client" "ct_parts t \<noteq> []" "\<forall>j\<in>set (ct_parts t). j < cal_nodes G"
    "wl S' = butlast (current_lists S) @ [add_entry ((i + cal_nodes G * next_txn_id S) div cal_nodes G) (client, length (ct_parts t)) (grow (last (current_lists S)))]"
  using assms by (auto simp: process_txn_def Let_def bind_result_Inr_iff list_all_iff split: if_splits)

lemma participants_distinct: "distinct (participants nids)"
  by (simp add: participants_def)

lemma current_split:
  assumes "sorted_wrt (<) (map ql_epoch (wl S))" "\<forall>en\<in>set (wl S). ql_epoch en \<le> Suc (seq_epoch S)"
  obtains pre en where "current_lists S = pre @ [en]" "sorted_wrt (<) (map ql_epoch pre)" "\<forall>x\<in>set pre. ql_epoch x < Suc (seq_epoch S)"
    "ql_epoch en = Suc (seq_epoch S)" "set pre \<subseteq> set (wl S)" 
    "set (wl S) \<subseteq> insert en (set pre)"
    "en \<in> set (wl S) \<or> en = new_wait_list (Suc (seq_epoch S)) \<and> Suc (seq_epoch S) \<notin> ql_epoch ` set (wl S)"
proof (cases "wl S = [] \<or> ql_epoch (last (wl S)) \<noteq> Suc (seq_epoch S)")
  case True
  have lt: "ql_epoch x < Suc (seq_epoch S)" if "x \<in> set (wl S)" for x
  proof (cases "x = last (wl S)")
    case True
    then show ?thesis using that assms(2) \<open>wl S = [] \<or> _\<close> by fastforce
  next
    case False
    obtain ys y where y: "wl S = ys @ [y]" using \<open>x \<in> set (wl S)\<close> by (metis append_butlast_last_id empty_iff empty_set)
    then show ?thesis using False that assms by (auto simp: sorted_wrt_append)
  qed
  then have "Suc (seq_epoch S) \<notin> ql_epoch ` set (wl S)" by force
  then show ?thesis using True assms(1) lt by (intro that [of "wl S" "new_wait_list (Suc (seq_epoch S))"]) (auto simp: current_lists_def new_wait_list_def)
next
  case False
  then obtain ys y where y: "wl S = ys @ [y]" by (metis append_butlast_last_id)
  then show ?thesis using False assms by (intro that [of ys y]) (auto simp: current_lists_def sorted_wrt_append)
qed

lemma id_bound:
  assumes "txns_inv G s i" "u \<in> set (sequenced s i)" "ct_id u < i + cal_nodes G * n"
  shows "ct_id u div cal_nodes G < n"
proof (rule ccontr)
  assume "\<not> ct_id u div cal_nodes G < n"
  then have "cal_nodes G * n \<le> cal_nodes G * (ct_id u div cal_nodes G)" by simp
  moreover have "cal_nodes G * (ct_id u div cal_nodes G) + i = ct_id u" using assms(1,2) mult_div_mod_eq [of "cal_nodes G" "ct_id u"] by (auto simp: txns_inv_def)
  ultimately show False using assms(3) by linarith
qed

lemma new_entry_ok:
  assumes li: "lists_inv G s i" and ti: "txns_inv G s i" and si: "seq_inv G s i" and m: "\<And>u. missing s' u = missing s u"
    and seq: "sequenced s' i = sequenced s i @ [t]" and e: "ql_epoch en = Suc (seq_epoch (seqs s i))"
    and en: "en \<in> set (wl (seqs s i)) \<or> en = new_wait_list (Suc (seq_epoch (seqs s i))) \<and> Suc (seq_epoch (seqs s i)) \<notin> ql_epoch ` set (wl (seqs s i))"
    and t: "ct_batch t = Suc (seq_epoch (seqs s i))" "ct_id t div cal_nodes G = next_txn_id (seqs s i)" and mt: "missing s t = length ps" "ps \<noteq> []"
  shows "list_ok G s' i (add_entry (next_txn_id (seqs s i)) (ct_client t, length ps) (grow en))"
proof -
  let ?e = "Suc (seq_epoch (seqs s i))" and ?n = "next_txn_id (seqs s i)" and ?N = "cal_nodes G"
  have below: "ct_id u div ?N < ?n" if "u \<in> set (sequenced s i)" "ct_batch u = ?e" for u
    using si that by (intro id_bound [OF ti]) (auto simp: seq_inv_def Let_def)
  have old: "ql_txns_left en = length (filter (\<lambda>t. ct_batch t = ?e \<and> 0 < missing s t) (sequenced s i)) \<and>
     (\<forall>u\<in>set (sequenced s i). ct_batch u = ?e \<longrightarrow> ql_list en (ct_id u div ?N) = Some (ct_client u, missing s u))"
  proof (cases "en \<in> set (wl (seqs s i))")
    case True
    then show ?thesis using li e by (auto simp: lists_inv_def Let_def list_ok_def)
  next
    case False
    then have "en = new_wait_list ?e" "?n = 0" using en li by (auto simp: lists_inv_def Let_def)
    moreover have "ct_batch u \<noteq> ?e" if "u \<in> set (sequenced s i)" for u using below [OF that] \<open>?n = 0\<close> by auto
    ultimately show ?thesis by (simp add: new_wait_list_def filter_empty_conv)
  qed
  have "ql_list (grow en) = ql_list en" "ql_txns_left (grow en) = ql_txns_left en" by (simp_all add: grow_def)
  moreover have "ct_id u div ?N \<noteq> ?n" if "u \<in> set (sequenced s i)" "ct_batch u = ?e" for u using below [OF that] by simp
  ultimately show ?thesis using old t mt e by (auto simp: list_ok_def add_entry_def seq m)
qed

lemma new_missing:
  assumes inv: "acks_inv G s" and i: "i < cal_nodes G" and pr: "process_txn G i client nids (seqs s i) = Inr (S, t)"
  shows "missing s t = length (ct_parts t)"
proof -
  have ci: "cal_inv G s" and ti: "txns_inv G s i" and si: "seq_inv G s i" using inv i by (simp_all add: acks_inv_def cal_inv_def)
  note r = process_txn_result [OF pr] and l = process_txn_lists [OF pr]
  have "t \<notin> set (executed s j)" if "j < cal_nodes G" for j
    using inv that locked_sent [OF ci that, of t] r(3,4) by (auto simp: acks_inv_def txns_inv_def)
  moreover have "key t \<noteq> key u" if "u \<in> set (sequenced s i)" for u using si that r(3,5) by (auto simp: seq_inv_def Let_def key_def)
  then have "key t \<notin> set (acks s i)" using ti unfolding txns_inv_def by metis
  ultimately show ?thesis using l(4) r(4) by (simp add: missing_def count_list_0_iff)
qed

lemma client_acks:
  assumes inv: "acks_inv G s" and i: "i < cal_nodes G" and step: "cal_client G i client nids s = Inr s'"
  shows "acks_inv G s'"
proof -
  let ?N = "cal_nodes G" and ?S = "seqs s i"
  have ci: "cal_inv G s" and li: "lists_inv G s i" and ti: "txns_inv G s i" and si: "seq_inv G s i"
    using inv i by (simp_all add: acks_inv_def cal_inv_def)
  obtain S t where pr: "process_txn G i client nids ?S = Inr (S, t)"
    and s': "s' = s\<lparr>seqs := (seqs s)(i := S), sequenced := (sequenced s)(i := sequenced s i @ [t])\<rparr>"
    using step by (auto simp: cal_client_def bind_result_Inr_iff)
  note r = process_txn_result [OF pr] and l = process_txn_lists [OF pr]
  have f: "executed s' = executed s" "acks s' = acks s" "answered s' = answered s" "locked s' = locked s"
    "seqs s' = (seqs s)(i := S)" "sequenced s' = (sequenced s)(i := sequenced s i @ [t])" by (simp_all add: s')
  have m: "missing s' u = missing s u" for u by (simp add: missing_def f)
  have k: "(i + ?N * next_txn_id ?S) div ?N = next_txn_id ?S" "(i + ?N * next_txn_id ?S) mod ?N = i" using i by simp_all
  have mt: "missing s t = length (ct_parts t)" by (rule new_missing [OF inv i pr])
  then have pos: "missing s t \<noteq> 0" using l(3) by simp
  obtain pre en where c: "current_lists ?S = pre @ [en]" "sorted_wrt (<) (map ql_epoch pre)" "\<forall>x\<in>set pre. ql_epoch x < Suc (seq_epoch ?S)"
    "ql_epoch en = Suc (seq_epoch ?S)" "set pre \<subseteq> set (wl ?S)" "set (wl ?S) \<subseteq> insert en (set pre)"
    "en \<in> set (wl ?S) \<or> en = new_wait_list (Suc (seq_epoch ?S)) \<and> Suc (seq_epoch ?S) \<notin> ql_epoch ` set (wl ?S)"
    using li by (auto simp: lists_inv_def Let_def intro: current_split [of ?S])
  define en' where "en' = add_entry (next_txn_id ?S) (ct_client t, length (ct_parts t)) (grow en)"
  have wl': "wl S = pre @ [en']" using l(2,5) by (simp add: c(1) k en'_def)
  have ok': "list_ok G s' i en'" unfolding en'_def
    using new_entry_ok [OF li ti si m _ c(4,7) r(3) _ mt l(3)] by (simp add: f r(5) k)
  have lo: "list_ok G s' n x" if "list_ok G s n x" "n = i \<longrightarrow> ql_epoch x < Suc (seq_epoch ?S)" for n x
    using that r(3) by (auto simp: list_ok_def f m)
  have e': "ql_epoch en' = Suc (seq_epoch ?S)" by (simp add: en'_def add_entry_def c(4))
  have n': "ql_size en' = Suc (next_txn_id ?S) \<and> ql_txns_left en' = Suc (next_txn_id ?S) \<and> Suc (next_txn_id ?S) \<le> ql_max_size en' \<and> 0 < ql_max_size en'"
    using c(4,7) li by (auto simp: en'_def add_entry_def grow_def new_wait_list_def lists_inv_def Let_def)
  have "lists_inv G s' i" unfolding lists_inv_def Let_def
  proof (intro conjI)
    have w: "wl (seqs s' i) = pre @ [en']" by (simp add: f wl')
    have e: "seq_epoch (seqs s' i) = seq_epoch ?S" "next_txn_id (seqs s' i) = Suc (next_txn_id ?S)" by (simp_all add: f r)
    show "sorted_wrt (<) (map ql_epoch (wl (seqs s' i)))" using c(2,3) e' by (simp add: w sorted_wrt_append)
    show "\<forall>x\<in>set (wl (seqs s' i)). list_ok G s' i x \<and> ql_epoch x \<le> Suc (seq_epoch (seqs s' i))"
      using c(3,5) li lo [of i] ok' e' unfolding w e by (auto simp: lists_inv_def Let_def)
    have "ql_epoch ` set (wl ?S) \<subseteq> ql_epoch ` set (wl (seqs s' i))" using image_mono [OF c(6), of ql_epoch] c(4) e' by (simp add: w)
    moreover have "ct_batch t \<in> ql_epoch ` set (wl (seqs s' i))" using e' r(3) by (simp add: w)
    moreover have "\<forall>u\<in>set (sequenced s i). 0 < missing s u \<longrightarrow> ct_batch u \<in> ql_epoch ` set (wl ?S)" using li by (simp add: lists_inv_def Let_def)
    ultimately show "\<forall>u\<in>set (sequenced s' i). 0 < missing s' u \<longrightarrow> ct_batch u \<in> ql_epoch ` set (wl (seqs s' i))"
      unfolding m f by (simp del: image_eqI) blast
    show "\<forall>x\<in>set (wl (seqs s' i)). ql_epoch x = Suc (seq_epoch (seqs s' i)) \<longrightarrow> ql_size x = next_txn_id (seqs s' i) \<and>
        ql_txns_left x = next_txn_id (seqs s' i) \<and> next_txn_id (seqs s' i) \<le> ql_max_size x \<and> 0 < ql_max_size x"
      using c(3) n' unfolding w e by auto
    show "Suc (seq_epoch (seqs s' i)) \<notin> ql_epoch ` set (wl (seqs s' i)) \<longrightarrow> next_txn_id (seqs s' i) = 0" using e' unfolding w e by auto
  qed
  moreover have "lists_inv G s' n" if "n < ?N" "n \<noteq> i" for n
    using inv that lo [of n] unfolding acks_inv_def lists_inv_def Let_def by (auto simp: f m)
  moreover have "txns_inv G s' n" if "n < ?N" for n
    using inv that l(1,4) r(5) k(2) pos participants_distinct [of nids] unfolding acks_inv_def txns_inv_def by (auto simp: f m r(1))
  moreover have "cal_inv G s'" by (rule client_inv [OF ci i step])
  ultimately show ?thesis unfolding acks_inv_def by metis
qed

section \<open>An acknowledgement\<close>

lemma ack_lists_split:
  assumes "\<forall>x\<in>set pre. ql_epoch x \<noteq> e" "ql_epoch en = e" "ack_entry k en = Inr (en', c)"
  shows "ack_lists e k (pre @ en # post) = Inr (pre @ (if ql_txns_left en' = 0 then post else en' # post), c)"
  using assms(1) by (induction pre) (auto simp: assms(2,3))

definition acked :: "nat \<Rightarrow> nat \<times> nat \<Rightarrow> qlite_ll \<Rightarrow> qlite_ll" where
  "acked k x en = en\<lparr>ql_list := (ql_list en)(k \<mapsto> (fst x, snd x - 1)), ql_txns_left := (if snd x = 1 then ql_txns_left en - 1 else ql_txns_left en)\<rparr>"

lemma ack_entry_some:
  assumes "ql_list en k = Some x" "0 < snd x" "0 < ql_txns_left en"
  shows "ack_entry k en = Inr (acked k x en, if snd x = 1 then Some (fst x) else None)"
  using assms by (cases x) (auto simp: ack_entry_def acked_def assert_that_def Let_def)

lemma acked_ok:
  assumes ok: "list_ok G s i en" and d: "distinct (sequenced s i)" and t: "t \<in> set (sequenced s i)" "ct_batch t = ql_epoch en" "0 < missing s t"
    and seq: "sequenced s' i = sequenced s i" and m: "\<And>u. u \<in> set (sequenced s i) \<Longrightarrow> missing s' u = missing s u - (if u = t then 1 else 0)"
    and inj: "\<And>u. u \<in> set (sequenced s i) \<Longrightarrow> ct_batch u = ct_batch t \<Longrightarrow> ct_id u div cal_nodes G = ct_id t div cal_nodes G \<Longrightarrow> u = t"
  shows "ql_txns_left (acked (ct_id t div cal_nodes G) (ct_client t, missing s t) en) =
      length (filter (\<lambda>u. ct_batch u = ql_epoch en \<and> 0 < missing s' u) (sequenced s i)) \<and>
    (\<forall>u\<in>set (sequenced s i). ct_batch u = ql_epoch en \<longrightarrow>
      ql_list (acked (ct_id t div cal_nodes G) (ct_client t, missing s t) en) (ct_id u div cal_nodes G) = Some (ct_client u, missing s' u))"
proof
  let ?Q = "\<lambda>u. ct_batch u = ql_epoch en \<and> 0 < missing s u"
  have left: "ql_txns_left en = length (filter ?Q (sequenced s i))" using ok by (simp add: list_ok_def)
  show "ql_txns_left (acked (ct_id t div cal_nodes G) (ct_client t, missing s t) en) =
      length (filter (\<lambda>u. ct_batch u = ql_epoch en \<and> 0 < missing s' u) (sequenced s i))"
  proof (cases "missing s t = 1")
    case True
    then have "filter (\<lambda>u. ct_batch u = ql_epoch en \<and> 0 < missing s' u) (sequenced s i) = filter (\<lambda>u. ?Q u \<and> u \<noteq> t) (sequenced s i)"
      using m by (intro filter_cong) auto
    then show ?thesis using True filter_one_less [OF d t(1), of ?Q] t(2,3) left by (simp add: acked_def)
  next
    case False
    then have "filter (\<lambda>u. ct_batch u = ql_epoch en \<and> 0 < missing s' u) (sequenced s i) = filter ?Q (sequenced s i)"
      using m t(3) by (intro filter_cong) auto
    then show ?thesis using False left by (simp add: acked_def)
  qed
  show "\<forall>u\<in>set (sequenced s i). ct_batch u = ql_epoch en \<longrightarrow>
      ql_list (acked (ct_id t div cal_nodes G) (ct_client t, missing s t) en) (ct_id u div cal_nodes G) = Some (ct_client u, missing s' u)"
    using ok m inj t(2) by (auto simp: list_ok_def acked_def)
qed

text \<open>An acknowledgement has an entry, and it decreases what is missing of its transaction only.\<close>

lemma ack_target:
  assumes inv: "acks_inv G s" and i: "i < cal_nodes G" and k: "k < length (acks s i)"
  obtains t pre en post where "t \<in> set (sequenced s i)" "acks s i ! k = key t" "0 < missing s t" "ct_batch t \<le> seq_epoch (seqs s i)"
    "wl (seqs s i) = pre @ en # post" "ql_epoch en = ct_batch t" "\<forall>x\<in>set pre \<union> set post. ql_epoch x \<noteq> ct_batch t" "list_ok G s i en"
proof -
  have ci: "cal_inv G s" and li: "lists_inv G s i" and ti: "txns_inv G s i" using inv i by (simp_all add: acks_inv_def)
  obtain t where t: "t \<in> set (sequenced s i)" "acks s i ! k = key t" "ct_batch t \<le> seq_epoch (seqs s i)"
    using ti nth_mem [OF k] by (auto simp: txns_inv_def)
  have "ct_node t = i" by (rule seq_node [OF ci i t(1)])
  then have m: "0 < missing s t" using t(2) count_remove_nth [OF k, of "key t"] by (simp add: missing_def)
  then have "ct_batch t \<in> ql_epoch ` set (wl (seqs s i))" using li t(1) by (simp add: lists_inv_def Let_def)
  then obtain pre en post where "wl (seqs s i) = pre @ en # post" "ql_epoch en = ct_batch t" by (metis imageE split_list)
  moreover from this have "\<forall>x\<in>set pre \<union> set post. ql_epoch x \<noteq> ct_batch t" using li by (auto simp: lists_inv_def Let_def sorted_wrt_append)
  moreover have "list_ok G s i en" using li calculation(1) by (simp add: lists_inv_def Let_def)
  ultimately show ?thesis using that t m by blast
qed

lemma ack_missing:
  assumes ci: "cal_inv G s" and i: "i < cal_nodes G" and k: "k < length (acks s i)" and t: "t \<in> set (sequenced s i)" "acks s i ! k = key t"
    and s': "executed s' = executed s" "acks s' = (acks s)(i := take k (acks s i) @ drop (Suc k) (acks s i))"
    and n: "n < cal_nodes G" and u: "u \<in> set (sequenced s n)"
  shows "missing s' u = missing s u - (if u = t then 1 else 0)"
proof -
  have nd: "ct_node u = n" "ct_node t = i" using seq_node [OF ci n u] seq_node [OF ci i t(1)] by simp_all
  have "count_list (acks s n) (key u) = count_list (acks s' n) (key u) + (if u = t then 1 else 0)"
  proof (cases "n = i")
    case True
    then have "(key t = key u) = (u = t)" using key_inj [OF ci i, of t u] t u by auto
    then show ?thesis using True count_remove_nth [OF k, of "key u"] t(2) s'(2) by simp
  next
    case False
    then show ?thesis using nd s'(2) by auto
  qed
  then show ?thesis using nd by (simp add: missing_def s'(1))
qed

lemma list_ok_other:
  assumes "list_ok G s n x" "sequenced s' n = sequenced s n" "\<And>u. u \<in> set (sequenced s n) \<Longrightarrow> ct_batch u = ql_epoch x \<Longrightarrow> missing s' u = missing s u"
  shows "list_ok G s' n x"
proof -
  have "filter (\<lambda>u. ct_batch u = ql_epoch x \<and> 0 < missing s' u) (sequenced s n) = filter (\<lambda>u. ct_batch u = ql_epoch x \<and> 0 < missing s u) (sequenced s n)"
    using assms(3) by (intro filter_cong) auto
  then show ?thesis using assms by (auto simp: list_ok_def)
qed

lemma id_inj:
  assumes "cal_inv G s" "txns_inv G s i" "i < cal_nodes G" "t \<in> set (sequenced s i)" "u \<in> set (sequenced s i)" "ct_batch u = ct_batch t"
    "ct_id u div cal_nodes G = ct_id t div cal_nodes G"
  shows "u = t"
proof -
  have "ct_id u mod cal_nodes G = ct_id t mod cal_nodes G" using assms(2,4,5) by (simp add: txns_inv_def)
  then have "ct_id u = ct_id t" using assms(7) by (metis mult_div_mod_eq)
  then show ?thesis using key_inj [OF assms(1,3,5,4)] assms(6) by (simp add: key_def)
qed

lemma ack_keeps_lists:
  assumes inv: "acks_inv G s" and i: "i < cal_nodes G" and t: "t \<in> set (sequenced s i)" "0 < missing s t" "ct_batch t \<le> seq_epoch (seqs s i)"
    and w: "wl (seqs s i) = pre @ en # post" "ql_epoch en = ct_batch t" "\<forall>x\<in>set pre \<union> set post. ql_epoch x \<noteq> ct_batch t" "list_ok G s i en"
    and en': "en' = acked (ct_id t div cal_nodes G) (ct_client t, missing s t) en" and seq: "sequenced s' i = sequenced s i"
    and S: "seqs s' i = (seqs s i)\<lparr>wl := pre @ (if ql_txns_left en' = 0 then post else en' # post)\<rparr>"
    and m: "\<And>u. u \<in> set (sequenced s i) \<Longrightarrow> missing s' u = missing s u - (if u = t then 1 else 0)"
  shows "lists_inv G s' i"
proof -
  have ci: "cal_inv G s" and li: "lists_inv G s i" and ti: "txns_inv G s i" using inv i by (simp_all add: acks_inv_def)
  have d: "distinct (sequenced s i)" using ci i by (intro sorted_distinct) (simp add: cal_inv_def seq_inv_def Let_def)
  have left: "ql_txns_left en' = length (filter (\<lambda>u. ct_batch u = ql_epoch en \<and> 0 < missing s' u) (sequenced s i))"
    and entries: "\<forall>u\<in>set (sequenced s i). ct_batch u = ql_epoch en \<longrightarrow> ql_list en' (ct_id u div cal_nodes G) = Some (ct_client u, missing s' u)"
    using acked_ok [OF w(4) d t(1) w(2) [symmetric] t(2) seq m id_inj [OF ci ti i t(1)]] unfolding en' by blast+
  have e': "ql_epoch en' = ct_batch t" by (simp add: en' acked_def w(2))
  have W: "set (wl (seqs s' i)) = set pre \<union> set post \<union> (if ql_txns_left en' = 0 then {} else {en'})" by (auto simp: S)
  have ok': "list_ok G s' i en'" if "ql_txns_left en' \<noteq> 0" using left entries e' w(2) that seq by (simp add: list_ok_def)
  have other: "ql_epoch x \<le> Suc (seq_epoch (seqs s i)) \<and> list_ok G s' i x" if x: "x \<in> set pre \<union> set post" for x
  proof
    show "ql_epoch x \<le> Suc (seq_epoch (seqs s i))" using li w(1) x by (simp add: lists_inv_def Let_def)
    have "list_ok G s i x" using li w(1) x by (simp add: lists_inv_def Let_def)
    then show "list_ok G s' i x"
    proof (rule list_ok_other [OF _ seq])
      fix u assume "u \<in> set (sequenced s i)" "ct_batch u = ql_epoch x"
      then show "missing s' u = missing s u" using m [of u] w(3) x by auto
    qed
  qed
  show ?thesis unfolding lists_inv_def Let_def
  proof (intro conjI)
    show "sorted_wrt (<) (map ql_epoch (wl (seqs s' i)))" using li w(1,2) e' by (auto simp: lists_inv_def Let_def S sorted_wrt_append)
    show "\<forall>x\<in>set (wl (seqs s' i)). list_ok G s' i x \<and> ql_epoch x \<le> Suc (seq_epoch (seqs s' i))"
      using other ok' e' t(3) unfolding W by (auto simp: S split: if_splits)
    have "ct_batch u \<noteq> ct_batch t" if "u \<in> set (sequenced s i)" "0 < missing s' u" "ql_txns_left en' = 0" for u
      using left that w(2) by (auto simp: filter_empty_conv)
    moreover have "ct_batch u \<in> insert (ct_batch t) (ql_epoch ` (set pre \<union> set post))" if "u \<in> set (sequenced s i)" "0 < missing s' u" for u
      using li that m [OF that(1)] w(1,2) by (auto simp: lists_inv_def Let_def)
    ultimately show "\<forall>u\<in>set (sequenced s' i). 0 < missing s' u \<longrightarrow> ct_batch u \<in> ql_epoch ` set (wl (seqs s' i))"
      using e' unfolding W seq by (auto split: if_splits)
    show "\<forall>x\<in>set (wl (seqs s' i)). ql_epoch x = Suc (seq_epoch (seqs s' i)) \<longrightarrow> ql_size x = next_txn_id (seqs s' i) \<and>
        ql_txns_left x = next_txn_id (seqs s' i) \<and> next_txn_id (seqs s' i) \<le> ql_max_size x \<and> 0 < ql_max_size x"
      using li w(1) e' t(3) unfolding W by (auto simp: lists_inv_def Let_def S)
    show "Suc (seq_epoch (seqs s' i)) \<notin> ql_epoch ` set (wl (seqs s' i)) \<longrightarrow> next_txn_id (seqs s' i) = 0"
      using li w(1,2) t(3) unfolding W by (auto simp: lists_inv_def Let_def S)
  qed
qed

lemma ack_keeps_txns:
  assumes inv: "acks_inv G s" and i: "i < cal_nodes G" and n: "n < cal_nodes G" and t: "t \<in> set (sequenced s i)"
    and f: "sequenced s' = sequenced s" "executed s' = executed s" "locked s' = locked s" "set (acks s' n) \<subseteq> set (acks s n)"
      "seq_epoch (seqs s' n) = seq_epoch (seqs s n)" "answered s' = (answered s)(i := answered s i @ (if missing s t = 1 then [(ct_client t, key t)] else []))"
    and m: "\<And>u. u \<in> set (sequenced s n) \<Longrightarrow> missing s' u = missing s u - (if u = t then 1 else 0)"
  shows "txns_inv G s' n"
proof -
  have ci: "cal_inv G s" and ti: "txns_inv G s i" and tn: "txns_inv G s n" using inv i n by (simp_all add: acks_inv_def)
  have new: "key t \<notin> snd ` set (answered s i)" if "missing s t = 1"
  proof
    assume "key t \<in> snd ` set (answered s i)"
    then obtain u where "u \<in> set (sequenced s i)" "key t = key u" "missing s u = 0" using ti by (force simp: txns_inv_def)
    then show False using key_inj [OF ci i t] that by auto
  qed
  show ?thesis unfolding txns_inv_def
  proof (intro conjI)
    show "\<forall>t\<in>set (sequenced s' n). ct_id t mod cal_nodes G = n \<and> distinct (ct_parts t) \<and> (\<forall>j\<in>set (ct_parts t). j < cal_nodes G)"
      using tn by (simp add: txns_inv_def f)
    show "\<forall>a\<in>set (acks s' n). \<exists>t\<in>set (sequenced s' n). a = key t \<and> ct_batch t \<le> seq_epoch (seqs s' n)"
      using tn f(4) unfolding txns_inv_def f(1,5) by blast
    show "set (executed s' n) \<subseteq> set (locked s' n)" using tn by (simp add: txns_inv_def f)
    show "\<forall>x\<in>set (answered s' n). \<exists>t\<in>set (sequenced s' n). x = (ct_client t, key t) \<and> missing s' t = 0"
    proof
      fix x assume "x \<in> set (answered s' n)"
      then consider (old) "x \<in> set (answered s n)" | (new) "n = i" "missing s t = 1" "x = (ct_client t, key t)" by (auto simp: f(6) split: if_splits)
      then show "\<exists>t\<in>set (sequenced s' n). x = (ct_client t, key t) \<and> missing s' t = 0"
      proof cases
        case old
        then obtain u where "u \<in> set (sequenced s n)" "x = (ct_client u, key u)" "missing s u = 0" using tn by (auto simp: txns_inv_def)
        then show ?thesis using m [of u] unfolding f(1) by auto
      next
        case new
        then show ?thesis using m [of t] t unfolding f(1) by auto
      qed
    qed
    show "distinct (map snd (answered s' n))" using tn new by (auto simp: txns_inv_def f(6))
    show "\<forall>u\<in>set (sequenced s' n). missing s' u = 0 \<longrightarrow> (ct_client u, key u) \<in> set (answered s' n)"
    proof (intro ballI impI)
      fix u assume u: "u \<in> set (sequenced s' n)" "missing s' u = 0"
      then have un: "u \<in> set (sequenced s n)" by (simp add: f(1))
      show "(ct_client u, key u) \<in> set (answered s' n)"
      proof (cases "missing s u = 0")
        case True
        then show ?thesis using tn un by (auto simp: txns_inv_def f(6))
      next
        case False
        then have "u = t" "missing s t = 1" using m [OF un] u(2) by (auto split: if_splits)
        moreover have "n = i" using seq_node [OF ci n un] seq_node [OF ci i t] \<open>u = t\<close> by simp
        ultimately show ?thesis by (simp add: f(6))
      qed
    qed
  qed
qed

lemma ack_acks:
  assumes inv: "acks_inv G s" and i: "i < cal_nodes G"
  shows "\<exists>s'. cal_ack G i k s = Inr s' \<and> acks_inv G s'"
proof (cases "k < length (acks s i)")
  case True
  let ?N = "cal_nodes G" and ?S = "seqs s i"
  have ci: "cal_inv G s" and li: "lists_inv G s i" and ti: "txns_inv G s i" using inv i by (simp_all add: acks_inv_def)
  obtain t pre en post where t: "t \<in> set (sequenced s i)" "acks s i ! k = key t" "0 < missing s t" "ct_batch t \<le> seq_epoch ?S"
    and w: "wl ?S = pre @ en # post" "ql_epoch en = ct_batch t" "\<forall>x\<in>set pre \<union> set post. ql_epoch x \<noteq> ct_batch t" "list_ok G s i en"
    by (rule ack_target [OF inv i True])
  define en' where "en' = acked (ct_id t div ?N) (ct_client t, missing s t) en"
  define c where "c = (if missing s t = 1 then Some (ct_client t) else None)"
  define ls where "ls = pre @ (if ql_txns_left en' = 0 then post else en' # post)"
  have "ql_list en (ct_id t div ?N) = Some (ct_client t, missing s t)" "0 < ql_txns_left en" using w(2,4) t(1) by (auto simp: list_ok_def)
  then have "ack_entry (ct_id t div ?N) en = Inr (en', c)" unfolding en'_def c_def by (subst ack_entry_some) (use t(3) in auto)
  then have pa: "process_ack G (ct_batch t) (ct_id t) ?S = Inr (?S\<lparr>wl := ls\<rparr>, c)"
    using ack_lists_split [of pre "ct_batch t" en "ct_id t div ?N" en' c post] w by (simp add: process_ack_def ls_def)
  define s' where "s' = s\<lparr>seqs := (seqs s)(i := ?S\<lparr>wl := ls\<rparr>), acks := (acks s)(i := take k (acks s i) @ drop (Suc k) (acks s i)),
                answered := (answered s)(i := answered s i @ (case c of None \<Rightarrow> [] | Some client \<Rightarrow> [(client, key t)]))\<rparr>"
  have st: "cal_ack G i k s = Inr s'" using True t(2) pa by (simp add: cal_ack_def key_def s'_def Let_def split: option.split)
  have f: "sequenced s' = sequenced s" "executed s' = executed s" "locked s' = locked s" "acks s' = (acks s)(i := take k (acks s i) @ drop (Suc k) (acks s i))"
    "seqs s' = (seqs s)(i := ?S\<lparr>wl := ls\<rparr>)" "answered s' = (answered s)(i := answered s i @ (if missing s t = 1 then [(ct_client t, key t)] else []))"
    by (simp_all add: s'_def c_def)
  have m: "missing s' u = missing s u - (if u = t then 1 else 0)" if "n < ?N" "u \<in> set (sequenced s n)" for n u
    by (rule ack_missing [OF ci i True t(1,2) f(2,4) that])
  have "lists_inv G s' i" by (rule ack_keeps_lists [OF inv i t(1,3,4) w en'_def _ _ m [OF i]]) (simp_all add: s'_def ls_def)
  moreover have "lists_inv G s' n" if n: "n < ?N" "n \<noteq> i" for n
  proof -
    have mn: "missing s' u = missing s u" if "u \<in> set (sequenced s n)" for u
      using m [OF n(1) that] seq_node [OF ci n(1) that] seq_node [OF ci i t(1)] n(2) by auto
    then have "list_ok G s' n x" if "list_ok G s n x" for x using list_ok_other [OF that, of s'] by (simp add: s'_def)
    then show ?thesis using inv n mn unfolding acks_inv_def lists_inv_def Let_def by (simp add: f)
  qed
  moreover have "txns_inv G s' n" if "n < ?N" for n
    by (rule ack_keeps_txns [OF inv i that t(1) f(1,2,3) _ _ f(6) m [OF that]]) (auto simp: f dest: in_set_dropD in_set_takeD)
  moreover have "cal_inv G s'" by (rule ack_inv [OF ci st])
  ultimately show ?thesis using st unfolding acks_inv_def by metis
next
  case False
  then show ?thesis using inv by (simp add: cal_ack_def)
qed

section \<open>Runs\<close>

lemma acks_init: "acks_inv G cal_init"
  using cal_init_inv [of G] by (simp add: acks_inv_def) (simp add: lists_inv_def txns_inv_def cal_init_def)

lemma cal_step_acks:
  assumes "acks_inv G s" "fst (cal_event_node e) < cal_nodes G" "cal_step G e s = Inr s'" shows "acks_inv G s'"
proof (cases e)
  case (Client i c ns)
  then show ?thesis using client_acks [of G s i c ns s'] assms by simp
next
  case (Batch i)
  then show ?thesis using batch_acks [of G s i] assms by simp
next
  case (Net i j)
  then show ?thesis using net_acks [of G s i j] assms by simp
next
  case (Sched j)
  then show ?thesis using sched_acks [of G s j s'] assms by simp
next
  case (Exec j k)
  then show ?thesis using wrapup_acks [of G s j k] assms by simp
next
  case (Ack i k)
  then show ?thesis using ack_acks [of G s i k] assms by auto
qed

lemma cal_run_acks: "acks_inv G s \<Longrightarrow> cal_run G es s = Inr s' \<Longrightarrow> acks_inv G s'"
proof (induction es arbitrary: s)
  case (Cons e es)
  then show ?case using cal_step_acks [of G s e] by (auto simp: bind_result_Inr_iff split: if_splits)
qed simp

section \<open>Properties\<close>

text \<open>
  Claim C14. A client is answered once, exactly when its transaction is done. After every run of clients,
  batches, messages, schedulers, workers and acknowledgements: no assertion and no array bound of
  \<open>process_ack\<close> fails, whichever acknowledgement comes next; no transaction is answered twice; every
  answer goes to the client of a transaction that all its participants have executed; and a
  transaction that all its participants have executed and acknowledged has been answered.
\<close>

theorem calvin_answers_once:
  assumes "cal_run G es cal_init = Inr s" "i < cal_nodes G"
  shows "(\<exists>s'. cal_ack G i k s = Inr s') \<and> distinct (map snd (answered s i)) \<and>
    (\<forall>c b x. (c, b, x) \<in> set (answered s i) \<longrightarrow>
       (\<exists>t\<in>set (sequenced s i). ct_client t = c \<and> ct_batch t = b \<and> ct_id t = x \<and> (\<forall>j\<in>set (ct_parts t). t \<in> set (executed s j)))) \<and>
    (\<forall>t\<in>set (sequenced s i). (\<forall>j\<in>set (ct_parts t). t \<in> set (executed s j)) \<and> (ct_batch t, ct_id t) \<notin> set (acks s i) \<longrightarrow>
       (ct_client t, ct_batch t, ct_id t) \<in> set (answered s i))"
proof -
  have inv: "acks_inv G s" by (rule cal_run_acks [OF acks_init assms(1)])
  then have ti: "txns_inv G s i" using assms(2) by (simp add: acks_inv_def)
  have n: "ct_node t = i" if "t \<in> set (sequenced s i)" for t using seq_node [of G s i t] inv assms(2) that by (simp add: acks_inv_def)
  have m: "missing s t = 0 \<longleftrightarrow> (\<forall>j\<in>set (ct_parts t). t \<in> set (executed s j)) \<and> key t \<notin> set (acks s i)" if "t \<in> set (sequenced s i)" for t
    using n [OF that] by (auto simp: missing_def filter_empty_conv count_list_0_iff)
  have "\<exists>s'. cal_ack G i k s = Inr s'" using ack_acks [OF inv assms(2)] by blast
  moreover have "\<exists>t\<in>set (sequenced s i). ct_client t = c \<and> ct_batch t = b \<and> ct_id t = x \<and> (\<forall>j\<in>set (ct_parts t). t \<in> set (executed s j))"
    if "(c, b, x) \<in> set (answered s i)" for c b x
  proof -
    obtain t where "t \<in> set (sequenced s i)" "(c, b, x) = (ct_client t, key t)" "missing s t = 0"
      using ti \<open>(c, b, x) \<in> _\<close> unfolding txns_inv_def by blast
    then show ?thesis using m by (intro bexI [of _ t]) (auto simp: key_def)
  qed
  moreover have "(ct_client t, ct_batch t, ct_id t) \<in> set (answered s i)"
    if "t \<in> set (sequenced s i)" "\<forall>j\<in>set (ct_parts t). t \<in> set (executed s j)" "(ct_batch t, ct_id t) \<notin> set (acks s i)" for t
    using ti m [OF that(1)] that unfolding txns_inv_def key_def by blast
  ultimately show ?thesis using ti by (auto simp: txns_inv_def)
qed

text \<open>Both nodes execute the first transaction of the script and server 0 gets their acknowledgements.\<close>

theorem calvin_answers_once_witness:
  "\<exists>s. cal_run two_servers (calvin_script @ [Exec 0 0, Exec 1 0, Ack 0 1, Ack 0 0]) cal_init = Inr s \<and>
     answered s 0 = [(7, 1, 0)] \<and> distinct (map snd (answered s 0)) \<and>
     (\<exists>t. t \<in> set (sequenced s 0) \<and> ct_client t = 7 \<and> set (ct_parts t) \<subseteq> {j. t \<in> set (executed s j)})"
proof -
  let ?es = "calvin_script @ [Exec 0 0, Exec 1 0, Ack 0 1, Ack 0 0]"
  have "case cal_run two_servers ?es cal_init of Inl _ \<Rightarrow> False | Inr s \<Rightarrow> answered s 0 = [(7, 1, 0)]" by code_simp
  then obtain s where s: "cal_run two_servers ?es cal_init = Inr s" "answered s 0 = [(7, 1, 0)]" by (auto split: sum.splits)
  have "0 < cal_nodes two_servers" by (simp add: two_servers_def)
  note a = calvin_answers_once [OF s(1) this, of 0]
  then have "distinct (map snd (answered s 0))" by blast
  moreover have "(7, 1, 0) \<in> set (answered s 0)" by (simp add: s(2))
  then have "\<exists>t. t \<in> set (sequenced s 0) \<and> ct_client t = 7 \<and> set (ct_parts t) \<subseteq> {j. t \<in> set (executed s j)}" using a by blast
  ultimately show ?thesis using s by blast
qed

end
