(* ===== verification/Spec2Isabelle.thy ===== *)
theory Spec2Isabelle
imports RowLock RowMvcc RowSsi Optimistic RowWsi RowTs Maat SiloSerial MsgBatch MigrationSource TwoPhaseFlaws CalvinAck
begin

text \<open>
  Promi is a distributed in-memory transaction processing testbed. A server node runs worker threads
  that execute transactions against rows; every row has a manager object of the configured
  concurrency control algorithm (\<open>CC_ALG\<close>), and some algorithms have a central validator. A
  transaction calls \<open>row_t::get_row\<close> for every access, then \<open>TxnManager::validate\<close>, then commits or
  aborts, which gives every row back. Nodes exchange messages and take part in two-phase commit.

  \<^bold>\<open>What the theories model.\<close>

  \<^item> \<open>Prelude\<close>: the enumerations of \<open>system/global.h\<close>, the result type of code with assertions,
    insertion into and removal from linked lists, 64-bit word arithmetic.
  \<^item> \<open>Interfaces\<close>: the contracts between components, as locales: \<open>ranked_waits\<close> (a blocking protocol
    that waits in rank order; provided by the wait-die lock and by Silo in waiting mode),
    \<open>keyed_table\<close> (the chained hash tables), \<open>version_store\<close> (version chains), \<open>row_set_test\<close> (the
    overlap tests of the optimistic validators); and the accounting of latches per transaction.
  \<^item> \<open>RowLock\<close>: \<open>concurrency_control/row_lock.cpp\<close>, for \<open>NO_WAIT\<close>, \<open>WAIT_DIE\<close> and \<open>CALVIN\<close>. State: the
    owner and waiter lists with their counters, and the transaction fields the row changes.
  \<^item> \<open>VersionChain\<close>, \<open>RowMvcc\<close>: \<open>row_mvcc.cpp\<close>. The two histories of a row, prewrites, buffered reads,
    recycling.
  \<^item> \<open>KeyedTable\<close>, \<open>InOutTable\<close>, \<open>RowSsi\<close>: \<open>ssi.cpp\<close> and \<open>row_ssi.cpp\<close>, the conflict table and the rows of
    serialisable snapshot isolation.
  \<^item> \<open>Optimistic\<close>: \<open>occ.cpp\<close> (central validation), \<open>bocc.cpp\<close>, \<open>focc.cpp\<close>.
  \<^item> \<open>RowWsi\<close>: \<open>row_wsi.cpp\<close> and \<open>wsi.cpp\<close>, write snapshot isolation.
  \<^item> \<open>RowTs\<close>: \<open>row_ts.cpp\<close>, timestamp ordering with its three request queues.
  \<^item> \<open>Maat\<close>: \<open>maat.cpp\<close> and \<open>row_maat.cpp\<close>, timestamp ranges.
  \<^item> \<open>SiloRow\<close>, \<open>Silo\<close>, \<open>SiloSerial\<close>: \<open>row_silo.cpp\<close>, \<open>silo.cpp\<close> and the parts of \<open>txn.cpp\<close> and \<open>row.cpp\<close>
    that serve it.
  \<^item> \<open>Buffer\<close>, \<open>MessageTypes\<close>, \<open>Message\<close>, \<open>MessageWire\<close>: \<open>transport/message.cpp\<close>. The memory images of the
    fields, the locale \<open>codec\<close> between writing and reading a value, the message classes, their sizes,
    what each copies into a buffer and reads back, for every algorithm and workload; the proofs about
    whole messages. What the compiler leaves open (the clock, floating point, the sizes of \<open>row_t\<close> and
    \<open>LogRecord\<close>) are fields of the configuration.
  \<^item> \<open>MsgBatch\<close>: \<open>transport/msg_thread.h\<close>, \<open>msg_thread.cpp\<close> and \<open>Message::create_messages\<close>. State: one buffer per
    node, and the packets handed to the transport.
  \<^item> \<open>Partition\<close>: the maps of \<open>system/global.cpp\<close> from keys to partitions, mini-partitions and nodes.
  \<^item> \<open>Migration\<close>, \<open>MigrationSafe\<close>, \<open>MigrationSource\<close>: \<open>system/migrate_thread.cpp\<close> with what the workers,
    clients and message queues do for it. State: a cluster of nodes, each with its maps and rows, and
    the messages in all queues between them. The handlers are functions of one node; \<open>mig_step\<close> lets any
    thread of any node go on.
  \<^item> \<open>TwoPhase\<close>, \<open>TwoPhaseInv\<close>, \<open>TwoPhaseSafe\<close>, \<open>TwoPhaseFlaws\<close>: the life of a distributed transaction, from
    \<open>system/worker_thread.cpp\<close>, \<open>system/txn.cpp\<close> and \<open>benchmarks/ycsb_txn.cpp\<close>. State: the transaction manager
    of every node, the messages on the way, and which locks were released with which outcome. What an algorithm
    decides (rows, validation) are parameters; the components above say what the decisions guarantee.
  \<^item> \<open>Calvin\<close>, \<open>CalvinOrder\<close>, \<open>CalvinAck\<close>: \<open>system/sequencer.cpp\<close>, the queues of \<open>system/work_queue.cpp\<close> that it
    uses and \<open>system/calvin_thread.cpp\<close>. State: sequencer and scheduler of every server, the batches and
    acknowledgements on the way, and the history of what was sequenced, scheduled, executed and answered.

  \<^bold>\<open>How state and operations correspond.\<close> A class is a record with the fields of the class, a method a
  function from the record (and whatever else it changes) to its result and the new record. A row
  manager's methods hold the row's latch from begin to end, so one call is one step. Where a method
  releases its latch in between (\<open>OptCC::central_validate\<close>, Silo's validation), it is split at these
  points and other transactions run in between. Timestamps, transaction numbers and counters are
  64-bit words; pointers to rows and transactions are numbers. An intrusive linked list is the list of
  its entries. A failed \<open>assert\<close> and a null dereference are values of the type \<open>fault\<close>.

  \<^bold>\<open>What the lemmas show.\<close> Locks: owners are compatible, every waiter is blocked by an owner, wait-die
  has no deadlock, the no-wait lock refines a readers-writer lock. Multi-version rows: a snapshot
  reads the same version again whatever is installed later; buffered reads are blocked by an older
  prewrite. Validators: two transactions that validated do not conflict (OCC), serial use of BOCC
  admits no stale read, the result of FOCC's check is exactly the overlap of the sets. MAAT: the
  ranges after validation put the transactions in order. Silo: mutual exclusion without leaked locks,
  deadlock freedom in waiting mode, validation ends, serialisability in the order of the lock points
  if no row gets one transaction id twice.
  Messages: every class but two arrives as it was sent, writes exactly \<open>get_size\<close> bytes, and whatever the
  bytes are the receiver gets a well-typed message or fails; a message thread delivers in order and
  loses nothing. Messages of the logger fail their assertion, and the row data of a migration message
  is not sent.
  Migration: with one worker and one sending thread per node, whoever looks for a key looks at a node that
  has the row, in every interleaving; with two workers a chunk overtakes and the row is not there. The
  migration loses updates, and the source never learns that a partition has left.
  Distributed transactions: all nodes agree on the outcome, a commit is unanimous, and the protocol ends after
  a bounded number of messages without a failed assertion. Read-only transactions that skip the first phase
  are never answered, and a node whose partition has moved never commits.
  Calvin: all nodes schedule in one global order, the scheduler waits only for a batch that is not there
  yet, and a client is answered once, when all participants have executed its transaction.
  Where the code does not do what it is meant to, a theorem shows the behaviour: SSI validation never
  aborts, BOCC admits write skew, FOCC misses later reads, WSI accepts stale reads, buffered writes of
  timestamp ordering stay in the buffer, local transactions of Silo all commit with one id.

  \<^bold>\<open>Bounds and termination.\<close> No definition uses fuel. \<open>Row_ts::update_buffer\<close> is a recursive function
  with a termination proof (each turn takes requests out of a queue); Silo's bubble sort has a
  measure; validation of Silo ends after at most \<open>5 + 4 * write_cnt + 3 * read_cnt\<close> steps. The spin
  loops of the word form of Silo's row are calls that do not return while the row is locked.

  \<^bold>\<open>Left out of the models\<close>: statistics, debug output and clocks (values from \<open>glob_manager.get_ts\<close> are
  arguments), allocation and freeing, and the freeing of row copies. Where a file contains merge
  conflict markers, the part marked \<open>HEAD\<close> is modelled.

  \<^bold>\<open>Not modelled.\<close>
  \<^item> Per-row validation of OCC (\<open>PER_ROW_VALID\<close>, off in \<open>config.h\<close>).
  \<^item> The algorithms DTA, WOOKONG, DLI, SI and NULL, and TicToc.
  \<^item> Threads, sockets, allocators, statistics, the lock-free queue (\<open>concurrentqueue.h\<close>, a third-party
    header), configuration parsing, the client and the benchmarks: input and output, or measurement.
  \<^item> Storage (catalog, table, hash and B-tree index), the counters and priorities of the work queues. Of
    migration: the algorithms other than \<open>DETEST\<close>, which are on the other side of the merge conflict, and
    TPC-C.
  \<^item> Of the messages: filling them from a transaction and back (\<open>copy_from_txn\<close>, \<open>copy_to_txn\<close>), \<open>release\<close>,
    and the classes of the other side of the merge conflict (\<open>TMigrationMessage\<close>, \<open>SetRemusMessage\<close>, ...).
\<close>

end
